(* ===== verification/Prelude.thy ===== *)
theory Prelude
  imports Main "HOL-Library.Word" "HOL-Library.Monad_Syntax"
begin

text \<open>
  What every component of the development shares: the C integer types as words, byte
  buffers with access checks, little-endian words, and the generic lemmas on lists and
  bitmaps. Collections of facts:
  \<^item> \<open>mem_simps\<close> turns checked accesses that are in range into values;
  \<^item> \<open>field_simps_wire\<close> computes a field of a buffer that was written field by field.
\<close>

unbundle bit_operations_syntax

named_theorems mem_simps "checked buffer accesses in range"
named_theorems field_simps_wire "fields of a buffer written field by field"

section \<open>C types\<close>

type_synonym byte = "8 word"
type_synonym bytes = "byte list"
type_synonym u16 = "16 word"
type_synonym u32 = "32 word"
type_synonym u64 = "64 word"

text \<open>
  A signed C integer is the same word, read with \<^const>\<open>sint\<close> where its sign matters.
  \<open>size_t\<close> is \<^typ>\<open>nat\<close>, with the reduction modulo \<open>2 ^ 64\<close> written out where a sum
  may wrap. A pointer that the code compares with \<open>NULL\<close> is an option, \<^const>\<open>None\<close> being
  \<open>NULL\<close>; an output parameter is passed with the contents it has and returned with the
  contents it gets. A computation that accesses buffers is \<open>'a mem\<close>: \<^const>\<open>None\<close> is an
  access outside the buffer, which C leaves undefined.
\<close>

type_synonym 'a ptr = "'a option"
type_synonym 'a mem = "'a option"
type_synonym int32 = u32

text \<open>
  A \<open>size_t\<close> is a natural number below \<open>2 ^ 64\<close>; its sums and differences wrap.
\<close>

definition size_t_mod :: nat where
  "size_t_mod = 2 ^ 64"

definition size_t_add :: "nat \<Rightarrow> nat \<Rightarrow> nat" where
  "size_t_add a b = (a + b) mod size_t_mod"

definition size_t_sub :: "nat \<Rightarrow> nat \<Rightarrow> nat" where
  "size_t_sub a b = (a + (size_t_mod - b)) mod size_t_mod"

definition size_t_mul :: "nat \<Rightarrow> nat \<Rightarrow> nat" where
  "size_t_mul a b = (a * b) mod size_t_mod"

lemma size_t_add_small [simp]: "a + b < size_t_mod \<Longrightarrow> size_t_add a b = a + b"
  by (simp add: size_t_add_def)

lemma size_t_mul_small [simp]: "a * b < size_t_mod \<Longrightarrow> size_t_mul a b = a * b"
  by (simp add: size_t_mul_def)

lemma size_t_sub_small [simp]: "b \<le> a \<Longrightarrow> a < size_t_mod \<Longrightarrow> size_t_sub a b = a - b"
proof -
  assume "b \<le> a" "a < size_t_mod"
  then have "a + (size_t_mod - b) = (a - b) + size_t_mod" by simp
  moreover have "((a - b) + size_t_mod) mod size_t_mod = a - b" using \<open>a < size_t_mod\<close> by simp
  ultimately show ?thesis by (simp only: size_t_sub_def)
qed

section \<open>Buffers\<close>

definition get_bytes :: "'a list \<Rightarrow> nat \<Rightarrow> nat \<Rightarrow> 'a list" where
  "get_bytes d off n = take n (drop off d)"

definition put_bytes :: "'a list \<Rightarrow> nat \<Rightarrow> 'a list \<Rightarrow> 'a list" where
  "put_bytes d off bs = take off d @ bs @ drop (off + length bs) d"

lemma length_get_bytes [simp]: "length (get_bytes d off n) = min n (length d - off)"
  by (simp add: get_bytes_def)

lemma length_put_bytes [simp]:
  "off + length bs \<le> length d \<Longrightarrow> length (put_bytes d off bs) = length d"
  by (simp add: put_bytes_def)

lemma get_put_same [simp, field_simps_wire]:
  "off + length bs \<le> length d \<Longrightarrow> n = length bs \<Longrightarrow>
   get_bytes (put_bytes d off bs) off n = bs"
  by (simp add: get_bytes_def put_bytes_def)

lemma get_put_before [simp, field_simps_wire]:
  "off' + n \<le> off \<Longrightarrow> off \<le> length d \<Longrightarrow>
   get_bytes (put_bytes d off bs) off' n = get_bytes d off' n"
  by (rule nth_equalityI) (auto simp: get_bytes_def put_bytes_def nth_append)

lemma get_put_after [simp, field_simps_wire]:
  "off + length bs \<le> off' \<Longrightarrow> off + length bs \<le> length d \<Longrightarrow>
   get_bytes (put_bytes d off bs) off' n = get_bytes d off' n"
  by (simp add: get_bytes_def put_bytes_def min_def)

lemma get_put_inside [field_simps_wire]:
  "off \<le> off' \<Longrightarrow> off' + n \<le> off + length bs \<Longrightarrow> off + length bs \<le> length d \<Longrightarrow>
   get_bytes (put_bytes d off bs) off' n = get_bytes bs (off' - off) n"
  by (rule nth_equalityI) (auto simp: get_bytes_def put_bytes_def nth_append)

lemma get_append_left [field_simps_wire]:
  "off + n \<le> length xs \<Longrightarrow> get_bytes (xs @ ys) off n = get_bytes xs off n"
  by (simp add: get_bytes_def)

lemma get_append_right [field_simps_wire]:
  "length xs \<le> off \<Longrightarrow> get_bytes (xs @ ys) off n = get_bytes ys (off - length xs) n"
  by (simp add: get_bytes_def)

lemma get_bytes_all [field_simps_wire]: "length xs \<le> n \<Longrightarrow> get_bytes xs 0 n = xs"
  by (simp add: get_bytes_def)

lemma nth_put_bytes:
  "off + length bs \<le> length d \<Longrightarrow> i < length d \<Longrightarrow>
   put_bytes d off bs ! i = (if off \<le> i \<and> i < off + length bs then bs ! (i - off) else d ! i)"
  by (auto simp: put_bytes_def nth_append min_def)

lemma drop_put_bytes [simp, field_simps_wire]:
  "off + length bs \<le> n \<Longrightarrow> off + length bs \<le> length d \<Longrightarrow> drop n (put_bytes d off bs) = drop n d"
  by (rule nth_equalityI) (auto simp: nth_put_bytes)

lemma take_put_bytes: "n = length bs \<Longrightarrow> take n (put_bytes d 0 bs) = bs"
  by (simp add: put_bytes_def)

lemma get_bytes_replicate [simp, field_simps_wire]:
  "get_bytes (replicate n x) off m = replicate (min m (n - off)) x"
  by (simp add: get_bytes_def)

lemma nth_get_bytes:
  "i < n \<Longrightarrow> off + n \<le> length d \<Longrightarrow> get_bytes d off n ! i = d ! (off + i)"
  by (simp add: get_bytes_def)

lemma put_get_bytes: "off + n \<le> length d \<Longrightarrow> put_bytes d off (get_bytes d off n) = d"
  by (rule nth_equalityI) (auto simp: nth_put_bytes nth_get_bytes)

lemma put_bytes_single: "i < length d \<Longrightarrow> put_bytes d i [v] = d[i := v]"
  by (simp add: put_bytes_def upd_conv_take_nth_drop)

lemma put_put_bytes:
  "off + length xs + length ys \<le> length d \<Longrightarrow>
   put_bytes (put_bytes d off xs) (off + length xs) ys = put_bytes d off (xs @ ys)"
  by (rule nth_equalityI) (auto simp: nth_put_bytes nth_append)

text \<open>Adjacent writes are one write: the rule that folds a field-by-field encoder.\<close>

lemma put_put_fold:
  "off' = off + length xs \<Longrightarrow> off' + length ys \<le> length d \<Longrightarrow>
   put_bytes (put_bytes d off xs) off' ys = put_bytes d off (xs @ ys)"
  by (simp add: put_put_bytes)

lemma put_put_overwrite:
  "off + length xs \<le> length d \<Longrightarrow> length ys = length xs \<Longrightarrow>
   put_bytes (put_bytes d off xs) off ys = put_bytes d off ys"
  by (rule nth_equalityI) (auto simp: nth_put_bytes)

lemma get_bytes_0 [simp]: "get_bytes s off 0 = []"
  by (simp add: get_bytes_def)

lemma get_bytes_Suc: "off < length s \<Longrightarrow> get_bytes s off (Suc n) = s ! off # get_bytes s (Suc off) n"
  by (simp add: get_bytes_def Cons_nth_drop_Suc [symmetric])

lemma get_bytes_4:
  "off + 4 \<le> length s \<Longrightarrow> get_bytes s off 4 = [s ! off, s ! (off + 1), s ! (off + 2), s ! (off + 3)]"
  by (simp add: get_bytes_Suc eval_nat_numeral)

lemma get_bytes_split: "get_bytes d off (m + n) = get_bytes d off m @ get_bytes d (off + m) n"
  by (simp add: get_bytes_def take_add add.commute)

text \<open>
  Checked accesses: \<open>rd8\<close> and \<open>wr8\<close> are an indexed load and store of one byte,
  \<open>mem_read\<close> and \<open>mem_copy\<close> are \<open>memcpy\<close> out of and into a buffer, \<open>mem_zero\<close> is
  \<open>memset(\<dots>, 0, \<dots>)\<close>.
\<close>

definition rd8 :: "bytes \<Rightarrow> nat \<Rightarrow> byte mem" where
  "rd8 s i = (if i < length s then Some (s ! i) else None)"

definition wr8 :: "bytes \<Rightarrow> nat \<Rightarrow> byte \<Rightarrow> bytes mem" where
  "wr8 d i v = (if i < length d then Some (d[i := v]) else None)"

definition mem_read :: "bytes \<Rightarrow> nat \<Rightarrow> nat \<Rightarrow> bytes mem" where
  "mem_read s off n = (if off + n \<le> length s then Some (get_bytes s off n) else None)"

definition mem_copy :: "bytes \<Rightarrow> nat \<Rightarrow> bytes \<Rightarrow> bytes mem" where
  "mem_copy d off bs = (if off + length bs \<le> length d then Some (put_bytes d off bs) else None)"

definition mem_zero :: "bytes \<Rightarrow> nat \<Rightarrow> nat \<Rightarrow> bytes mem" where
  "mem_zero d off n = mem_copy d off (replicate n 0)"

lemma rd8_in [mem_simps]: "i < length s \<Longrightarrow> rd8 s i = Some (s ! i)"
  by (simp add: rd8_def)

lemma wr8_in [mem_simps]: "i < length d \<Longrightarrow> wr8 d i v = Some (put_bytes d i [v])"
  by (simp add: wr8_def put_bytes_single)

lemma mem_read_in [mem_simps]: "off + n \<le> length s \<Longrightarrow> mem_read s off n = Some (get_bytes s off n)"
  by (simp add: mem_read_def)

lemma mem_copy_in [mem_simps]:
  "off + length bs \<le> length d \<Longrightarrow> mem_copy d off bs = Some (put_bytes d off bs)"
  by (simp add: mem_copy_def)

lemma mem_zero_in [mem_simps]:
  "off + n \<le> length d \<Longrightarrow> mem_zero d off n = Some (put_bytes d off (replicate n 0))"
  by (simp add: mem_zero_def mem_copy_def)

lemma rd8_eq_get: "i < length s \<Longrightarrow> rd8 s i = Some (hd (get_bytes s i 1))"
  by (simp add: rd8_def get_bytes_def hd_drop_conv_nth take_Suc)

lemma nth_get1: "i < length s \<Longrightarrow> s ! i = hd (get_bytes s i 1)"
  by (simp add: get_bytes_def hd_drop_conv_nth take_Suc)

text \<open>Checked accesses to an array of structures.\<close>

definition arr_get :: "'a list \<Rightarrow> nat \<Rightarrow> 'a mem" where
  "arr_get xs i = (if i < length xs then Some (xs ! i) else None)"

definition arr_set :: "'a list \<Rightarrow> nat \<Rightarrow> 'a \<Rightarrow> 'a list mem" where
  "arr_set xs i v = (if i < length xs then Some (xs[i := v]) else None)"

lemma arr_get_in [mem_simps]: "i < length xs \<Longrightarrow> arr_get xs i = Some (xs ! i)"
  by (simp add: arr_get_def)

lemma arr_set_in [mem_simps]: "i < length xs \<Longrightarrow> arr_set xs i v = Some (xs[i := v])"
  by (simp add: arr_set_def)

text \<open>The short-circuit disjunction of C on conditions that read buffers.\<close>

definition mem_or :: "bool mem \<Rightarrow> bool mem \<Rightarrow> bool mem" where
  "mem_or a b = do { x \<leftarrow> a; if x then Some True else b }"

lemma mem_or_Some [simp]: "mem_or (Some x) b = (if x then Some True else b)"
  by (simp add: mem_or_def)

lemma wr8_Some: "wr8 d i v = Some d' \<longleftrightarrow> i < length d \<and> d' = d[i := v]"
  by (auto simp: wr8_def)

text \<open>A counting loop whose body may access buffers, and its invariant rule.\<close>

fun mem_for :: "(nat \<Rightarrow> 's \<Rightarrow> 's mem) \<Rightarrow> nat list \<Rightarrow> 's \<Rightarrow> 's mem" where
  "mem_for f [] s = Some s"
| "mem_for f (i # is) s = do { s' \<leftarrow> f i s; mem_for f is s' }"

lemma mem_for_append: "mem_for f (xs @ ys) s = do { s' \<leftarrow> mem_for f xs s; mem_for f ys s' }"
  by (induction xs arbitrary: s) (auto split: bind_splits)

lemma mem_for_invariant:
  assumes "P 0 s"
    and "\<And>i t. i < n \<Longrightarrow> P i t \<Longrightarrow> \<exists>t'. f i t = Some t' \<and> P (Suc i) t'"
  shows "\<exists>s'. mem_for f [0..<n] s = Some s' \<and> P n s'"
  using assms
proof (induction n)
  case 0
  then show ?case by simp
next
  case (Suc n)
  then obtain s' where s': "mem_for f [0..<n] s = Some s'" "P n s'" by fastforce
  with Suc.prems(2) [of n s'] show ?case by (auto simp: mem_for_append)
qed

section \<open>Little-endian words\<close>

fun le_read :: "bytes \<Rightarrow> 'a::len word" where
  "le_read [] = 0"
| "le_read (b # bs) = ucast b OR push_bit 8 (le_read bs)"

definition le_write :: "nat \<Rightarrow> 'a::len word \<Rightarrow> bytes" where
  "le_write n w = map (\<lambda>i. ucast (drop_bit (8 * i) w)) [0..<n]"

lemma length_le_write [simp]: "length (le_write n w) = n"
  by (simp add: le_write_def)

lemma bit_byte_beyond: "8 \<le> k \<Longrightarrow> \<not> bit (b :: byte) k"
  using bit_imp_le_length [of b k] by auto

lemma bit_le_read:
  "bit (le_read bs :: 'a::len word) k \<longleftrightarrow>
     k < LENGTH('a) \<and> k div 8 < length bs \<and> bit (bs ! (k div 8)) (k mod 8)"
proof (induction bs arbitrary: k)
  case Nil
  then show ?case by simp
next
  case (Cons b bs)
  show ?case
  proof (cases "k < 8")
    case True
    then show ?thesis by (simp add: bit_simps)
  next
    case False
    then obtain j where j: "k = j + 8" by (metis add.commute le_Suc_ex not_less)
    have "\<not> bit b (j + 8)" by (simp add: bit_byte_beyond)
    then show ?thesis
      using Cons.IH [of j] div_add_self2 [of 8 j] by (auto simp: j bit_simps)
  qed
qed

lemma le_read_write: "LENGTH('a) \<le> 8 * n \<Longrightarrow> le_read (le_write n (w :: 'a::len word)) = w"
proof (rule bit_eqI)
  fix k assume "LENGTH('a) \<le> 8 * n" "possible_bit TYPE('a word) k"
  then have "k < LENGTH('a)" "k div 8 < n" by (auto simp: less_mult_imp_div_less mult.commute)
  moreover have "k mod 8 + 8 * (k div 8) = k" "k mod 8 < 8" by simp_all
  ultimately show "bit (le_read (le_write n w) :: 'a word) k = bit w k"
    by (simp add: bit_le_read le_write_def bit_simps add.commute del: mod_less_divisor)
qed

lemma le_write_read:
  "length bs = n \<Longrightarrow> 8 * n \<le> LENGTH('a) \<Longrightarrow> le_write n (le_read bs :: 'a::len word) = bs"
proof (rule nth_equalityI)
  assume a: "length bs = n" "8 * n \<le> LENGTH('a)"
  fix i assume "i < length (le_write n (le_read bs :: 'a word))"
  then have i: "i < n" by simp
  show "le_write n (le_read bs :: 'a word) ! i = bs ! i"
  proof (rule bit_eqI)
    fix k assume "possible_bit TYPE(8 word) k"
    then have k: "k < 8" by simp
    then have "(8 * i + k) div 8 = i" "(8 * i + k) mod 8 = k" "8 * i + k < LENGTH('a)"
      using a i by auto
    then show "bit (le_write n (le_read bs :: 'a word) ! i) k = bit (bs ! i) k"
      using i a k by (auto simp: le_write_def bit_simps bit_le_read)
  qed
qed simp

lemma bit_word_imp_less: "bit (w :: 'a::len word) k \<Longrightarrow> k < LENGTH('a)"
  by (rule bit_imp_le_length)

lemma le_read_append:
  "le_read (xs @ ys) = le_read xs OR push_bit (8 * length xs) (le_read ys :: 'a::len word)"
  by (induction xs) (simp_all add: push_bit_or or.assoc push_bit_push_bit add.commute)

lemma ucast_le_read:
  "8 * length xs \<le> LENGTH('b) \<Longrightarrow> (ucast (le_read xs :: 'b::len word) :: 'a::len word) = le_read xs"
  by (rule bit_eqI)
    (auto simp: bit_simps bit_le_read div_less_iff_less_mult mult.commute dest: less_le_trans)

lemma le_write_append:
  "le_write (m + n) w = le_write m w @ le_write n (drop_bit (8 * m) w)"
  by (rule nth_equalityI) (auto simp: le_write_def nth_append drop_bit_drop_bit algebra_simps)

lemma le_write_ucast:
  "8 * n \<le> LENGTH('b) \<Longrightarrow> le_write n (ucast (w :: 'a::len word) :: 'b::len word) = le_write n w"
proof (rule nth_equalityI)
  fix i assume n: "8 * n \<le> LENGTH('b)" "i < length (le_write n (ucast w :: 'b word))"
  show "le_write n (ucast w :: 'b word) ! i = le_write n w ! i"
    by (rule bit_eqI) (use n in \<open>auto simp: le_write_def bit_simps dest: bit_word_imp_less\<close>)
qed simp

lemma le_write_Suc: "le_write (Suc n) w = ucast w # le_write n (drop_bit 8 w)"
  unfolding le_write_def upt_rec [of 0 "Suc n"] map_Suc_upt [symmetric]
  by (simp add: comp_def add.commute del: upt_Suc)

lemma le_write_0 [simp]: "le_write 0 w = []"
  by (simp add: le_write_def)

lemma le_write_2: "le_write 2 w = [ucast w, ucast (drop_bit 8 w)]"
  by (simp add: numeral_2_eq_2 le_write_Suc)

lemma le_write_4:
  "le_write 4 w = [ucast w, ucast (drop_bit 8 w), ucast (drop_bit 16 w), ucast (drop_bit 24 w)]"
  using le_write_append [of 2 2 w] by (simp add: le_write_2 drop_bit_drop_bit)

lemma le_read_replicate_0 [simp]: "le_read (replicate n 0) = 0"
  by (induction n) simp_all

text \<open>Two buffers that agree on adjacent segments agree on their concatenation.\<close>

fun segments_agree :: "'a list \<Rightarrow> 'a list \<Rightarrow> nat \<Rightarrow> nat list \<Rightarrow> bool" where
  "segments_agree a b off [] = True"
| "segments_agree a b off (n # ns) = (get_bytes a off n = get_bytes b off n \<and> segments_agree a b (off + n) ns)"

lemma segments_agree_sum:
  "segments_agree a b off ns \<Longrightarrow> get_bytes a off (sum_list ns) = get_bytes b off (sum_list ns)"
  by (induction ns arbitrary: off) (auto simp: get_bytes_split)

lemma le_write_zero [simp]: "le_write n 0 = replicate n 0"
  by (rule nth_equalityI) (auto simp: le_write_def)

lemma le_read_eq_0:
  "(le_read bs :: 'a::len word) = 0 \<Longrightarrow> length bs = n \<Longrightarrow> 8 * n \<le> LENGTH('a) \<Longrightarrow> bs = replicate n 0"
  by (metis le_write_read le_write_zero)

lemma nonempty_of_length: "numeral n \<le> length d \<Longrightarrow> d \<noteq> []"
  by auto

section \<open>Nibbles\<close>

lemma nibbles_less [simp]: "unat (drop_bit 4 (b :: byte)) < 16" "unat (b AND 15) < 16"
proof -
  have "unat (drop_bit 4 b) = unat b div 16"
    by (simp only: unat_drop_bit_eq) (simp add: drop_bit_eq_div)
  moreover have "unat b < 256" using unsigned_less [of b, where 'a = nat] by simp
  ultimately show "unat (drop_bit 4 b) < 16" by simp
  show "unat (b AND 15) < 16"
    using word_and_le1 [of b 15] by (simp add: word_le_nat_alt)
qed

lemma nibbles_join:
  "(ucast (push_bit 4 (ucast (drop_bit 4 b) :: u32) OR ucast (b AND 15)) :: byte) = b"
proof -
  have "b AND 15 = take_bit 4 b" by (simp add: take_bit_eq_mask mask_numeral)
  then show ?thesis by (auto intro!: bit_eqI simp: bit_simps)
qed

end
