(* ===== verification/Constants.thy ===== *)
theory Constants
  imports Prelude
begin

text \<open>
  The named constants of the protocol and of the public interface, one definition per
  enumerator or macro, with the width the code uses it at: enumerators of the wire are words,
  sizes and capacities are \<^typ>\<open>nat\<close>. All are rewrite rules, so a goal sees numerals.
\<close>

section \<open>From src/include/keysharp\_input/constants.h\<close>

definition KSI_KEY_STATE_BITMAP_BITS :: nat where [simp]: "KSI_KEY_STATE_BITMAP_BITS = 768"
definition KSI_STATUS_OK :: u32 where [simp]: "KSI_STATUS_OK = 0"
definition KSI_HOOK_KEYBOARD :: u32 where [simp]: "KSI_HOOK_KEYBOARD = 13"
definition KSI_HOOK_MOUSE :: u32 where [simp]: "KSI_HOOK_MOUSE = 14"
definition KSI_INPUT_MOUSE :: u32 where [simp]: "KSI_INPUT_MOUSE = 0"
definition KSI_INPUT_KEYBOARD :: u32 where [simp]: "KSI_INPUT_KEYBOARD = 1"
definition KSI_MOUSE_MOVE :: u32 where [simp]: "KSI_MOUSE_MOVE = 0x1"
definition KSI_MOUSE_LEFT_DOWN :: u32 where [simp]: "KSI_MOUSE_LEFT_DOWN = 0x2"
definition KSI_MOUSE_LEFT_UP :: u32 where [simp]: "KSI_MOUSE_LEFT_UP = 0x4"
definition KSI_MOUSE_RIGHT_DOWN :: u32 where [simp]: "KSI_MOUSE_RIGHT_DOWN = 0x8"
definition KSI_MOUSE_RIGHT_UP :: u32 where [simp]: "KSI_MOUSE_RIGHT_UP = 0x10"
definition KSI_MOUSE_MIDDLE_DOWN :: u32 where [simp]: "KSI_MOUSE_MIDDLE_DOWN = 0x20"
definition KSI_MOUSE_MIDDLE_UP :: u32 where [simp]: "KSI_MOUSE_MIDDLE_UP = 0x40"
definition KSI_MOUSE_X_DOWN :: u32 where [simp]: "KSI_MOUSE_X_DOWN = 0x80"
definition KSI_MOUSE_X_UP :: u32 where [simp]: "KSI_MOUSE_X_UP = 0x100"
definition KSI_MOUSE_WHEEL :: u32 where [simp]: "KSI_MOUSE_WHEEL = 0x800"
definition KSI_MOUSE_HORIZONTAL_WHEEL :: u32 where [simp]: "KSI_MOUSE_HORIZONTAL_WHEEL = 0x1000"
definition KSI_MOUSE_MOVE_NO_COALESCE :: u32 where [simp]: "KSI_MOUSE_MOVE_NO_COALESCE = 0x2000"
definition KSI_MOUSE_VIRTUAL_DESKTOP :: u32 where [simp]: "KSI_MOUSE_VIRTUAL_DESKTOP = 0x4000"
definition KSI_MOUSE_ABSOLUTE :: u32 where [simp]: "KSI_MOUSE_ABSOLUTE = 0x8000"

section \<open>From src/include/keysharp\_input/devices.h\<close>

definition KSI_DEVICE_NAME_CAPACITY :: nat where [simp]: "KSI_DEVICE_NAME_CAPACITY = 256"
definition KSI_DEVICE_PATH_CAPACITY :: nat where [simp]: "KSI_DEVICE_PATH_CAPACITY = 512"
definition KSI_DEVICE_PHYSICAL_CAPACITY :: nat where [simp]: "KSI_DEVICE_PHYSICAL_CAPACITY = 256"
definition KSI_DEVICE_UNIQUE_CAPACITY :: nat where [simp]: "KSI_DEVICE_UNIQUE_CAPACITY = 128"
definition KSI_DEVICE_AXIS_CAPACITY :: nat where [simp]: "KSI_DEVICE_AXIS_CAPACITY = 64"
definition KSI_DEVICE_BUTTON_CAPACITY :: nat where [simp]: "KSI_DEVICE_BUTTON_CAPACITY = 128"

section \<open>From src/src/internal/protocol\_contract.h\<close>

definition KSI_PROTOCOL_MAJOR :: u16 where [simp]: "KSI_PROTOCOL_MAJOR = 3"
definition KSI_PROTOCOL_MINOR :: u16 where [simp]: "KSI_PROTOCOL_MINOR = 0"
definition KSI_FRAME_HEADER_SIZE :: nat where [simp]: "KSI_FRAME_HEADER_SIZE = 24"
definition KSI_MAX_MESSAGE_SIZE :: nat where [simp]: "KSI_MAX_MESSAGE_SIZE = 65536"
definition KSI_FRAME_FLAG_RESPONSE :: u16 where [simp]: "KSI_FRAME_FLAG_RESPONSE = 0x1"
definition KSI_FRAME_FLAG_EVENT :: u16 where [simp]: "KSI_FRAME_FLAG_EVENT = 0x2"
definition KSI_FRAME_FLAG_MORE :: u16 where [simp]: "KSI_FRAME_FLAG_MORE = 0x4"
definition KSI_FRAME_FLAGS_ALL :: u16 where [simp]: "KSI_FRAME_FLAGS_ALL = 0x7"
definition KSI_OPCODE_PING :: u16 where [simp]: "KSI_OPCODE_PING = 0x3"
definition KSI_STATUS_PAYLOAD_SIZE :: nat where [simp]: "KSI_STATUS_PAYLOAD_SIZE = 8"
definition KSI_HELLO_PAYLOAD_SIZE :: nat where [simp]: "KSI_HELLO_PAYLOAD_SIZE = 16"
definition KSI_HELLO_RESULT_PAYLOAD_SIZE :: nat where [simp]: "KSI_HELLO_RESULT_PAYLOAD_SIZE = 32"
definition KSI_AUTHORIZE_PAYLOAD_SIZE :: nat where [simp]: "KSI_AUTHORIZE_PAYLOAD_SIZE = 16"
definition KSI_AUTHORIZE_RESULT_PAYLOAD_SIZE :: nat where [simp]: "KSI_AUTHORIZE_RESULT_PAYLOAD_SIZE = 16"
definition KSI_PERMISSION_HASH_SIZE :: nat where [simp]: "KSI_PERMISSION_HASH_SIZE = 32"
definition KSI_PERMISSIONS_REVOKE_PAYLOAD_SIZE :: nat where [simp]: "KSI_PERMISSIONS_REVOKE_PAYLOAD_SIZE = 48"
definition KSI_HOOK_SUBSCRIPTION_PAYLOAD_SIZE :: nat where [simp]: "KSI_HOOK_SUBSCRIPTION_PAYLOAD_SIZE = 8"
definition KSI_HOOK_EVENT_PREFIX_SIZE :: nat where [simp]: "KSI_HOOK_EVENT_PREFIX_SIZE = 8"
definition KSI_KEYBOARD_HOOK_EVENT_SIZE :: nat where [simp]: "KSI_KEYBOARD_HOOK_EVENT_SIZE = 40"
definition KSI_MOUSE_HOOK_EVENT_SIZE :: nat where [simp]: "KSI_MOUSE_HOOK_EVENT_SIZE = 52"
definition KSI_HOOK_DECISION_PREFIX_SIZE :: nat where [simp]: "KSI_HOOK_DECISION_PREFIX_SIZE = 16"
definition KSI_INPUT_WIRE_SIZE :: nat where [simp]: "KSI_INPUT_WIRE_SIZE = 40"
definition KSI_SYNTHESIZE_PREFIX_SIZE :: nat where [simp]: "KSI_SYNTHESIZE_PREFIX_SIZE = 8"
definition KSI_BLOCK_INPUT_PAYLOAD_SIZE :: nat where [simp]: "KSI_BLOCK_INPUT_PAYLOAD_SIZE = 8"
definition KSI_INDICATOR_STATE_PAYLOAD_SIZE :: nat where [simp]: "KSI_INDICATOR_STATE_PAYLOAD_SIZE = 4"
definition KSI_KEY_STATE_PAYLOAD_SIZE :: nat where [simp]: "KSI_KEY_STATE_PAYLOAD_SIZE = 200"
definition KSI_POINTER_POSITION_PAYLOAD_SIZE :: nat where [simp]: "KSI_POINTER_POSITION_PAYLOAD_SIZE = 28"
definition KSI_POINTER_BUTTONS_PAYLOAD_SIZE :: nat where [simp]: "KSI_POINTER_BUTTONS_PAYLOAD_SIZE = 12"
definition KSI_IDLE_TIME_PAYLOAD_SIZE :: nat where [simp]: "KSI_IDLE_TIME_PAYLOAD_SIZE = 16"
definition KSI_MODIFIER_STATE_PAYLOAD_SIZE :: nat where [simp]: "KSI_MODIFIER_STATE_PAYLOAD_SIZE = 12"
definition KSI_HOOK_QUARANTINED_PAYLOAD_SIZE :: nat where [simp]: "KSI_HOOK_QUARANTINED_PAYLOAD_SIZE = 32"
definition KSI_DEVICE_INFO_WIRE_SIZE :: nat where [simp]: "KSI_DEVICE_INFO_WIRE_SIZE = 2984"
definition KSI_GAMEPAD_STATE_BODY_PREFIX_SIZE :: nat where [simp]: "KSI_GAMEPAD_STATE_BODY_PREFIX_SIZE = 40"
definition KSI_GAMEPAD_AXIS_WIRE_SIZE :: nat where [simp]: "KSI_GAMEPAD_AXIS_WIRE_SIZE = 8"
definition KSI_OBSERVER_PREFIX_SIZE :: nat where [simp]: "KSI_OBSERVER_PREFIX_SIZE = 24"

section \<open>From src/src/internal/protocol.h\<close>

definition KSI_DETAIL_NONE :: u32 where [simp]: "KSI_DETAIL_NONE = 0"

section \<open>Derived sizes\<close>

definition KSI_KEY_STATE_BITMAP_BYTES :: nat where
  [simp]: "KSI_KEY_STATE_BITMAP_BYTES = KSI_KEY_STATE_BITMAP_BITS div 8"

definition KSI_DEVICE_BUTTON_BITMAP_BYTES :: nat where
  [simp]: "KSI_DEVICE_BUTTON_BITMAP_BYTES = KSI_DEVICE_BUTTON_CAPACITY div 8"

definition KSI_MAX_PAYLOAD_SIZE :: nat where
  [simp]: "KSI_MAX_PAYLOAD_SIZE = KSI_MAX_MESSAGE_SIZE - KSI_FRAME_HEADER_SIZE"

end
