(* ===== verification/Wire.thy ===== *)
theory Wire
  imports Constants
begin

text \<open>
  The wire primitives of src/src/internal/protocol.h: little-endian reads and writes at an
  offset of a buffer, the 24-byte frame header and the status prefix of a response. The
  interface \<open>wire_field\<close> states what a field of a buffer promises (what a read returns after a
  write, what a write leaves alone); the integer accessors are its interpretations.
\<close>

section \<open>The interface of a fixed-width field\<close>

locale wire_field =
  fixes rd :: "bytes \<Rightarrow> nat \<Rightarrow> 'v mem"
    and wr :: "bytes \<Rightarrow> nat \<Rightarrow> 'v \<Rightarrow> bytes mem"
    and enc :: "'v \<Rightarrow> bytes"
    and dec :: "bytes \<Rightarrow> 'v"
    and width :: nat
  assumes rd_eq: "rd s off = (if off + width \<le> length s then Some (dec (get_bytes s off width)) else None)"
    and wr_eq: "wr d off v = (if off + width \<le> length d then Some (put_bytes d off (enc v)) else None)"
    and length_enc: "length (enc v) = width"
    and dec_enc: "dec (enc v) = v"
    and enc_dec: "length bs = width \<Longrightarrow> enc (dec bs) = bs"
begin

lemma wr_length: "wr d off v = Some d' \<Longrightarrow> length d' = length d"
  by (auto simp: wr_eq length_enc split: if_splits)

lemma rd_wr_same: "wr d off v = Some d' \<Longrightarrow> rd d' off = Some v"
  by (auto simp: wr_eq rd_eq length_enc dec_enc split: if_splits)

lemma rd_wr_disjoint:
  "wr d off v = Some d' \<Longrightarrow> off' + width \<le> off \<or> off + width \<le> off' \<Longrightarrow> rd d' off' = rd d off'"
  by (auto simp: wr_eq rd_eq length_enc split: if_splits)

lemma wr_frame:
  "wr d off v = Some d' \<Longrightarrow> i < off \<or> off + width \<le> i \<Longrightarrow> rd8 d' i = rd8 d i"
  by (auto simp: wr_eq rd8_def nth_put_bytes length_enc split: if_splits)

lemma wr_rd_noop: "rd d off = Some v \<Longrightarrow> wr d off v = Some d"
  by (auto simp: wr_eq rd_eq enc_dec put_get_bytes split: if_splits)

lemma rd_total: "rd s off \<noteq> None \<longleftrightarrow> off + width \<le> length s"
  by (simp add: rd_eq)

end

section \<open>Integer accessors\<close>

definition ksi_wire_read_u16 :: "bytes \<Rightarrow> nat \<Rightarrow> u16 mem" where
  "ksi_wire_read_u16 source off = do {
     b0 \<leftarrow> rd8 source off;
     b1 \<leftarrow> rd8 source (off + 1);
     Some (ucast b0 OR push_bit 8 (ucast b1))
   }"

definition ksi_wire_read_u32 :: "bytes \<Rightarrow> nat \<Rightarrow> u32 mem" where
  "ksi_wire_read_u32 source off = do {
     b0 \<leftarrow> rd8 source off;
     b1 \<leftarrow> rd8 source (off + 1);
     b2 \<leftarrow> rd8 source (off + 2);
     b3 \<leftarrow> rd8 source (off + 3);
     Some (ucast b0 OR push_bit 8 (ucast b1) OR push_bit 16 (ucast b2) OR push_bit 24 (ucast b3))
   }"

definition ksi_wire_read_u64 :: "bytes \<Rightarrow> nat \<Rightarrow> u64 mem" where
  "ksi_wire_read_u64 source off = do {
     lo \<leftarrow> ksi_wire_read_u32 source off;
     hi \<leftarrow> ksi_wire_read_u32 source (off + 4);
     Some (ucast lo OR push_bit 32 (ucast hi))
   }"

definition ksi_wire_write_u16 :: "bytes \<Rightarrow> nat \<Rightarrow> u16 \<Rightarrow> bytes mem" where
  "ksi_wire_write_u16 destination off value = do {
     d \<leftarrow> wr8 destination off (ucast value);
     wr8 d (off + 1) (ucast (drop_bit 8 value))
   }"

definition ksi_wire_write_u32 :: "bytes \<Rightarrow> nat \<Rightarrow> u32 \<Rightarrow> bytes mem" where
  "ksi_wire_write_u32 destination off value = do {
     d \<leftarrow> wr8 destination off (ucast value);
     d \<leftarrow> wr8 d (off + 1) (ucast (drop_bit 8 value));
     d \<leftarrow> wr8 d (off + 2) (ucast (drop_bit 16 value));
     wr8 d (off + 3) (ucast (drop_bit 24 value))
   }"

definition ksi_wire_write_u64 :: "bytes \<Rightarrow> nat \<Rightarrow> u64 \<Rightarrow> bytes mem" where
  "ksi_wire_write_u64 destination off value = do {
     d \<leftarrow> ksi_wire_write_u32 destination off (ucast value);
     ksi_wire_write_u32 d (off + 4) (ucast (drop_bit 32 value))
   }"

section \<open>The accessors are little-endian fields\<close>

lemma read_u16_eq:
  "ksi_wire_read_u16 s off = (if off + 2 \<le> length s then Some (le_read (get_bytes s off 2)) else None)"
  by (auto simp: ksi_wire_read_u16_def rd8_def get_bytes_Suc numeral_2_eq_2)

lemma read_u32_eq:
  "ksi_wire_read_u32 s off = (if off + 4 \<le> length s then Some (le_read (get_bytes s off 4)) else None)"
proof (cases "off + 4 \<le> length s")
  case True
  then show ?thesis
    by (simp add: ksi_wire_read_u32_def rd8_def push_bit_or get_bytes_4)
qed (auto simp: ksi_wire_read_u32_def rd8_def bind_eq_None_conv)

lemma read_u64_eq:
  "ksi_wire_read_u64 s off = (if off + 8 \<le> length s then Some (le_read (get_bytes s off 8)) else None)"
proof (cases "off + 8 \<le> length s")
  case True
  have "get_bytes s off 8 = get_bytes s off 4 @ get_bytes s (off + 4) 4"
    by (simp add: get_bytes_def take_add [of 4 4, simplified] add.commute)
  with True show ?thesis
    by (simp add: ksi_wire_read_u64_def read_u32_eq le_read_append ucast_le_read)
qed (auto simp: ksi_wire_read_u64_def read_u32_eq bind_eq_None_conv)

lemma write_u16_eq:
  "ksi_wire_write_u16 d off v = (if off + 2 \<le> length d then Some (put_bytes d off (le_write 2 v)) else None)"
  using put_put_bytes [of off "[ucast v]" "[ucast (drop_bit 8 v)]" d]
  by (auto simp: ksi_wire_write_u16_def wr8_def put_bytes_single le_write_2 bind_eq_None_conv)

lemma write_u32_eq:
  "ksi_wire_write_u32 d off v = (if off + 4 \<le> length d then Some (put_bytes d off (le_write 4 v)) else None)"
proof (cases "off + 4 \<le> length d")
  case True
  then show ?thesis
    by (simp add: ksi_wire_write_u32_def mem_simps put_put_fold le_write_4)
qed (auto simp: ksi_wire_write_u32_def wr8_def bind_eq_None_conv)

lemma write_u64_eq:
  "ksi_wire_write_u64 d off v = (if off + 8 \<le> length d then Some (put_bytes d off (le_write 8 v)) else None)"
  using le_write_append [of 4 4 v] put_put_bytes [of off "le_write 4 v" "le_write 4 (drop_bit 32 v)" d]
  by (auto simp: ksi_wire_write_u64_def write_u32_eq le_write_ucast)

interpretation wu16: wire_field ksi_wire_read_u16 ksi_wire_write_u16 "le_write 2" le_read 2
  by unfold_locales (simp_all add: read_u16_eq write_u16_eq le_read_write le_write_read)

interpretation wu32: wire_field ksi_wire_read_u32 ksi_wire_write_u32 "le_write 4" le_read 4
  by unfold_locales (simp_all add: read_u32_eq write_u32_eq le_read_write le_write_read)

interpretation wu64: wire_field ksi_wire_read_u64 ksi_wire_write_u64 "le_write 8" le_read 8
  by unfold_locales (simp_all add: read_u64_eq write_u64_eq le_read_write le_write_read)

lemmas wire_rw =
  read_u16_eq read_u32_eq read_u64_eq write_u16_eq write_u32_eq write_u64_eq
  le_read_write

section \<open>The frame header\<close>

record ksi_message_header =
  mh_major :: u16
  mh_minor :: u16
  mh_opcode :: u16
  mh_flags :: u16
  mh_payload_length :: u32
  mh_request_id :: u64

text \<open>The magic is the bytes of \<open>"KSIP"\<close>.\<close>

definition KSI_FRAME_MAGIC :: bytes where
  "KSI_FRAME_MAGIC = [0x4B, 0x53, 0x49, 0x50]"

lemma length_KSI_FRAME_MAGIC [simp]: "length KSI_FRAME_MAGIC = 4"
  by (simp add: KSI_FRAME_MAGIC_def)

definition ksi_frame_header_decode ::
  "bytes ptr \<Rightarrow> ksi_message_header ptr \<Rightarrow> (bool \<times> ksi_message_header ptr) mem" where
  "ksi_frame_header_decode source header =
    (case (source, header) of
       (Some s, Some h) \<Rightarrow> do {
         bad \<leftarrow> mem_or (do { b \<leftarrow> rd8 s 0; Some (b \<noteq> KSI_FRAME_MAGIC ! 0) })
               (mem_or (do { b \<leftarrow> rd8 s 1; Some (b \<noteq> KSI_FRAME_MAGIC ! 1) })
               (mem_or (do { b \<leftarrow> rd8 s 2; Some (b \<noteq> KSI_FRAME_MAGIC ! 2) })
                       (do { b \<leftarrow> rd8 s 3; Some (b \<noteq> KSI_FRAME_MAGIC ! 3) })));
         if bad then Some (False, header)
         else do {
           maj \<leftarrow> ksi_wire_read_u16 s 4;
           mnr \<leftarrow> ksi_wire_read_u16 s 6;
           opc \<leftarrow> ksi_wire_read_u16 s 8;
           flg \<leftarrow> ksi_wire_read_u16 s 10;
           len \<leftarrow> ksi_wire_read_u32 s 12;
           rid \<leftarrow> ksi_wire_read_u64 s 16;
           Some (True, Some (h\<lparr>mh_major := maj, mh_minor := mnr, mh_opcode := opc, mh_flags := flg,
                               mh_payload_length := len, mh_request_id := rid\<rparr>))
         }
       }
     | _ \<Rightarrow> Some (False, header))"

definition ksi_frame_header_encode :: "bytes \<Rightarrow> ksi_message_header \<Rightarrow> bytes mem" where
  "ksi_frame_header_encode destination h = do {
     d \<leftarrow> wr8 destination 0 (KSI_FRAME_MAGIC ! 0);
     d \<leftarrow> wr8 d 1 (KSI_FRAME_MAGIC ! 1);
     d \<leftarrow> wr8 d 2 (KSI_FRAME_MAGIC ! 2);
     d \<leftarrow> wr8 d 3 (KSI_FRAME_MAGIC ! 3);
     d \<leftarrow> ksi_wire_write_u16 d 4 (mh_major h);
     d \<leftarrow> ksi_wire_write_u16 d 6 (mh_minor h);
     d \<leftarrow> ksi_wire_write_u16 d 8 (mh_opcode h);
     d \<leftarrow> ksi_wire_write_u16 d 10 (mh_flags h);
     d \<leftarrow> ksi_wire_write_u32 d 12 (mh_payload_length h);
     ksi_wire_write_u64 d 16 (mh_request_id h)
   }"

section \<open>The status prefix\<close>

record ksi_status_payload =
  sp_status :: u32
  sp_detail :: u32

definition ksi_status_encode :: "bytes \<Rightarrow> u32 \<Rightarrow> u32 \<Rightarrow> bytes mem" where
  "ksi_status_encode destination st dt = do {
     d \<leftarrow> ksi_wire_write_u32 destination 0 st;
     ksi_wire_write_u32 d 4 dt
   }"

definition ksi_status_decode :: "bytes \<Rightarrow> ksi_status_payload mem" where
  "ksi_status_decode source = do {
     st \<leftarrow> ksi_wire_read_u32 source 0;
     dt \<leftarrow> ksi_wire_read_u32 source 4;
     Some \<lparr>sp_status = st, sp_detail = dt\<rparr>
   }"

section \<open>Round trips\<close>

definition header_bytes :: "ksi_message_header \<Rightarrow> bytes" where
  "header_bytes h = KSI_FRAME_MAGIC @ le_write 2 (mh_major h) @ le_write 2 (mh_minor h) @ le_write 2 (mh_opcode h)
     @ le_write 2 (mh_flags h) @ le_write 4 (mh_payload_length h) @ le_write 8 (mh_request_id h)"

lemma length_header_bytes [simp]: "length (header_bytes h) = 24"
  by (simp add: header_bytes_def KSI_FRAME_MAGIC_def)

lemma header_encode_eq:
  assumes "24 \<le> length d"
  shows "ksi_frame_header_encode d h = Some (put_bytes d 0 (header_bytes h))"
proof -
  from assms have "d \<noteq> []" by auto
  with assms show ?thesis
    by (simp add: ksi_frame_header_encode_def mem_simps wire_rw put_put_fold header_bytes_def
        KSI_FRAME_MAGIC_def)
qed

lemma header_decode_eq:
  assumes "24 \<le> length s"
  shows "ksi_frame_header_decode (Some s) (Some h0) =
    (if get_bytes s 0 4 = KSI_FRAME_MAGIC
     then Some (True, Some (h0\<lparr>mh_major := le_read (get_bytes s 4 2), mh_minor := le_read (get_bytes s 6 2),
            mh_opcode := le_read (get_bytes s 8 2), mh_flags := le_read (get_bytes s 10 2),
            mh_payload_length := le_read (get_bytes s 12 4), mh_request_id := le_read (get_bytes s 16 8)\<rparr>))
     else Some (False, Some h0))"
proof -
  from assms have "s \<noteq> []" by auto
  moreover from assms have "get_bytes s 0 4 = [s ! 0, s ! 1, s ! 2, s ! 3]"
    by (simp add: get_bytes_4 numeral_2_eq_2)
  ultimately show ?thesis
    using assms by (simp add: ksi_frame_header_decode_def mem_simps wire_rw KSI_FRAME_MAGIC_def)
qed

lemma header_decode_encoded:
  assumes "24 \<le> length d"
  shows "ksi_frame_header_decode (Some (put_bytes d 0 (header_bytes h))) (Some h0) = Some (True, Some h)"
proof -
  let ?d = "put_bytes d 0 (header_bytes h)"
  have magic: "get_bytes ?d 0 4 = KSI_FRAME_MAGIC"
    using assms by (simp add: get_put_inside) (simp add: header_bytes_def KSI_FRAME_MAGIC_def get_bytes_def)
  have fields: "get_bytes ?d 4 2 = le_write 2 (mh_major h)" "get_bytes ?d 6 2 = le_write 2 (mh_minor h)"
    "get_bytes ?d 8 2 = le_write 2 (mh_opcode h)" "get_bytes ?d 10 2 = le_write 2 (mh_flags h)"
    "get_bytes ?d 12 4 = le_write 4 (mh_payload_length h)" "get_bytes ?d 16 8 = le_write 8 (mh_request_id h)"
    using assms by (simp_all add: get_put_inside) (simp_all add: header_bytes_def
        get_append_right get_append_left get_bytes_all)
  show ?thesis using assms by (simp add: header_decode_eq magic fields le_read_write)
qed

text \<open>
  C1. Encoding a frame header writes exactly the documented 24 bytes (the magic, then every field
  little-endian), leaves the rest of the buffer alone, and decoding the buffer gives the same
  header back.
\<close>

theorem frame_header_roundtrip:
  assumes "KSI_FRAME_HEADER_SIZE \<le> length d"
  shows "\<exists>d'. ksi_frame_header_encode d h = Some d' \<and> length d' = length d
      \<and> take KSI_FRAME_HEADER_SIZE d' = header_bytes h
      \<and> drop KSI_FRAME_HEADER_SIZE d' = drop KSI_FRAME_HEADER_SIZE d
      \<and> ksi_frame_header_decode (Some d') (Some h0) = Some (True, Some h)"
proof -
  have "take 24 (put_bytes d 0 (header_bytes h)) = header_bytes h" "drop 24 (put_bytes d 0 (header_bytes h)) = drop 24 d"
    by (simp_all add: put_bytes_def)
  with assms show ?thesis by (simp add: header_encode_eq header_decode_encoded)
qed

theorem frame_header_roundtrip_witness:
  "\<exists>d'. ksi_frame_header_encode (replicate 24 0)
        \<lparr>mh_major = 3, mh_minor = 0, mh_opcode = 1, mh_flags = 0, mh_payload_length = 16, mh_request_id = 7\<rparr>
      = Some d' \<and> take KSI_FRAME_HEADER_SIZE d' = header_bytes
        \<lparr>mh_major = 3, mh_minor = 0, mh_opcode = 1, mh_flags = 0, mh_payload_length = 16, mh_request_id = 7\<rparr>"
  using frame_header_roundtrip [of "replicate 24 0"
    "\<lparr>mh_major = 3, mh_minor = 0, mh_opcode = 1, mh_flags = 0, mh_payload_length = 16, mh_request_id = 7\<rparr>"]
  by auto

text \<open>
  A buffer whose header decodes is the encoding of the decoded header: no two byte strings
  decode to the same header, and re-encoding a received header is the identity.
\<close>

theorem frame_header_canonical:
  assumes "KSI_FRAME_HEADER_SIZE \<le> length s"
    and "ksi_frame_header_decode (Some s) (Some h0) = Some (True, Some h)"
  shows "ksi_frame_header_encode s h = Some s"
proof -
  from assms have magic: "get_bytes s 0 4 = KSI_FRAME_MAGIC"
    and h: "h = h0\<lparr>mh_major := le_read (get_bytes s 4 2), mh_minor := le_read (get_bytes s 6 2),
            mh_opcode := le_read (get_bytes s 8 2), mh_flags := le_read (get_bytes s 10 2),
            mh_payload_length := le_read (get_bytes s 12 4), mh_request_id := le_read (get_bytes s 16 8)\<rparr>"
    by (auto simp: header_decode_eq split: if_splits)
  have "header_bytes h = get_bytes s 0 4 @ get_bytes s 4 2 @ get_bytes s 6 2 @ get_bytes s 8 2
      @ get_bytes s 10 2 @ get_bytes s 12 4 @ get_bytes s 16 8"
    using assms(1) by (simp add: header_bytes_def magic h le_write_read)
  also have "\<dots> = get_bytes s 0 24"
    using get_bytes_split [of s 0 4 20] get_bytes_split [of s 4 2 18] get_bytes_split [of s 6 2 16]
      get_bytes_split [of s 8 2 14] get_bytes_split [of s 10 2 12] get_bytes_split [of s 12 4 8] by simp
  finally show ?thesis
    using assms(1) by (simp add: header_encode_eq put_get_bytes)
qed

theorem frame_header_canonical_witness:
  "ksi_frame_header_encode
     ([0x4B, 0x53, 0x49, 0x50, 3, 0, 0, 0, 1, 0, 0, 0, 16, 0, 0, 0, 7, 0, 0, 0, 0, 0, 0, 0])
     \<lparr>mh_major = 3, mh_minor = 0, mh_opcode = 1, mh_flags = 0, mh_payload_length = 16, mh_request_id = 7\<rparr>
   = Some [0x4B, 0x53, 0x49, 0x50, 3, 0, 0, 0, 1, 0, 0, 0, 16, 0, 0, 0, 7, 0, 0, 0, 0, 0, 0, 0]"
  by (rule frame_header_canonical [where ?h0.0 =
      "\<lparr>mh_major = 0, mh_minor = 0, mh_opcode = 0, mh_flags = 0, mh_payload_length = 0, mh_request_id = 0\<rparr>"])
    (simp_all add: header_decode_eq get_bytes_def KSI_FRAME_MAGIC_def)

end
