(* ===== verification/Codec.thy ===== *)
theory Codec
  imports Wire
begin

text \<open>
  The payload codec of the daemon, src/src/protocol_codec.c: the check of a frame header, the
  decoders of requests and the encoders of results and events. A decoder takes the source
  pointer, the announced size and the output parameter with its present contents; an encoder
  takes the destination buffer and returns the number of bytes it reports with the buffer.

  The members of the union in \<open>ksi_input\<close> and in the hook event payload are separate fields of
  the model: the code reads only the member that the type selects.
\<close>

section \<open>Payload structures\<close>

record ksi_keybdinput =
  ki_vk :: u16
  ki_scan :: u16
  ki_flags :: u32
  ki_time :: u32
  ki_extra_info :: u64

record ksi_mouseinput =
  mi_dx :: int32
  mi_dy :: int32
  mi_mouse_data :: u32
  mi_flags :: u32
  mi_time :: u32
  mi_extra_info :: u64

record ksi_input =
  in_type :: u32
  in_reserved :: u32
  in_mouse :: ksi_mouseinput
  in_keyboard :: ksi_keybdinput

record ksi_client_hello_payload =
  hello_role :: u16
  hello_authorization_mode :: u16
  hello_requested_scopes :: u32
  hello_reserved :: u64

record ksi_authorize_payload =
  auth_authorization_mode :: u16
  auth_reserved0 :: u16
  auth_requested_scopes :: u32
  auth_reserved1 :: u64

record ksi_hook_subscription_payload =
  sub_hook_type :: u32
  sub_reserved :: u32

record ksi_block_input_payload =
  block_mask :: u32
  block_reserved :: u32

record ksi_permissions_revoke_payload =
  revoke_target_kind :: u32
  revoke_scopes :: u32
  revoke_pid :: u64
  revoke_hash :: bytes

record ksi_indicator_state_payload =
  ind_caps_lock :: byte
  ind_num_lock :: byte
  ind_scroll_lock :: byte

record ksi_key_state_payload =
  ks_modifiers_lr :: u32
  ks_caps_lock :: byte
  ks_num_lock :: byte
  ks_scroll_lock :: byte
  ks_logical_keys :: bytes
  ks_physical_keys :: bytes

record ksi_pointer_position_payload =
  pp_valid :: byte
  pp_x :: int32
  pp_y :: int32
  pp_x_min :: int32
  pp_x_max :: int32
  pp_y_min :: int32
  pp_y_max :: int32

record ksi_pointer_buttons_payload =
  pb_valid :: byte
  pb_logical_buttons :: u32
  pb_physical_buttons :: u32

record ksi_idle_time_payload =
  idle_valid :: byte
  idle_time_ms :: u64

record ksi_modifier_state_payload =
  ms_logical_modifiers_lr :: u32
  ms_physical_modifiers_lr :: u32
  ms_caps_lock :: byte
  ms_num_lock :: byte
  ms_scroll_lock :: byte

record ksi_keyboard_hook_event =
  kh_message :: u32
  kh_vk_code :: u32
  kh_scan_code :: u32
  kh_flags :: u32
  kh_time_ms :: u64
  kh_extra_info :: u64
  kh_device_id :: u32

record ksi_mouse_hook_event =
  mo_message :: u32
  mo_x :: int32
  mo_y :: int32
  mo_mouse_data :: u32
  mo_flags :: u32
  mo_time_ms :: u64
  mo_extra_info :: u64
  mo_device_id :: u32
  mo_delta_x :: int32
  mo_delta_y :: int32

record ksi_hook_event_payload =
  he_keyboard :: ksi_keyboard_hook_event
  he_mouse :: ksi_mouse_hook_event

record ksi_hook_quarantined_payload =
  hq_hook_type :: u32
  hq_reason :: u32
  hq_event_id :: u64
  hq_generation :: u32
  hq_strike_count :: u32
  hq_retry_after_ms :: u32

section \<open>Frame validity\<close>

definition ksi_protocol_frame_is_valid :: "ksi_message_header ptr \<Rightarrow> bool" where
  "ksi_protocol_frame_is_valid header =
    (case header of
       None \<Rightarrow> False
     | Some h \<Rightarrow>
         if mh_major h \<noteq> KSI_PROTOCOL_MAJOR
            \<or> mh_minor h \<noteq> KSI_PROTOCOL_MINOR
            \<or> unat (mh_payload_length h) > KSI_MAX_PAYLOAD_SIZE
            \<or> mh_flags h AND NOT KSI_FRAME_FLAGS_ALL \<noteq> 0
         then False
         else
           let response = mh_flags h AND KSI_FRAME_FLAG_RESPONSE \<noteq> 0;
               event = mh_flags h AND KSI_FRAME_FLAG_EVENT \<noteq> 0
           in if (response \<and> event) \<or> (mh_flags h AND KSI_FRAME_FLAG_MORE \<noteq> 0 \<and> \<not> response) then False
              else if event then mh_request_id h = 0
              else if response then mh_request_id h \<noteq> 0
              else if mh_flags h \<noteq> 0 then False
              else mh_request_id h \<noteq> 0 \<or> (mh_opcode h = KSI_OPCODE_PING \<and> mh_payload_length h = 0))"

section \<open>Request decoders\<close>

definition ksi_protocol_decode_hello ::
  "bytes ptr \<Rightarrow> nat \<Rightarrow> ksi_client_hello_payload ptr \<Rightarrow> (bool \<times> ksi_client_hello_payload ptr) mem" where
  "ksi_protocol_decode_hello source sz payload =
    (case (source, payload) of
       (Some s, Some p) \<Rightarrow>
         if sz \<noteq> KSI_HELLO_PAYLOAD_SIZE then Some (False, payload)
         else do {
           role \<leftarrow> ksi_wire_read_u16 s 0;
           mode \<leftarrow> ksi_wire_read_u16 s 2;
           scopes \<leftarrow> ksi_wire_read_u32 s 4;
           rsv \<leftarrow> ksi_wire_read_u64 s 8;
           Some (True, Some (p\<lparr>hello_role := role, hello_authorization_mode := mode,
                               hello_requested_scopes := scopes, hello_reserved := rsv\<rparr>))
         }
     | _ \<Rightarrow> Some (False, payload))"

definition ksi_protocol_decode_authorize ::
  "bytes ptr \<Rightarrow> nat \<Rightarrow> ksi_authorize_payload ptr \<Rightarrow> (bool \<times> ksi_authorize_payload ptr) mem" where
  "ksi_protocol_decode_authorize source sz payload =
    (case (source, payload) of
       (Some s, Some p) \<Rightarrow>
         if sz \<noteq> KSI_AUTHORIZE_PAYLOAD_SIZE then Some (False, payload)
         else do {
           mode \<leftarrow> ksi_wire_read_u16 s 0;
           r0 \<leftarrow> ksi_wire_read_u16 s 2;
           scopes \<leftarrow> ksi_wire_read_u32 s 4;
           r1 \<leftarrow> ksi_wire_read_u64 s 8;
           Some (True, Some (p\<lparr>auth_authorization_mode := mode, auth_reserved0 := r0,
                               auth_requested_scopes := scopes, auth_reserved1 := r1\<rparr>))
         }
     | _ \<Rightarrow> Some (False, payload))"

definition ksi_protocol_decode_hook_subscription ::
  "bytes ptr \<Rightarrow> nat \<Rightarrow> ksi_hook_subscription_payload ptr \<Rightarrow> (bool \<times> ksi_hook_subscription_payload ptr) mem" where
  "ksi_protocol_decode_hook_subscription source sz payload =
    (case (source, payload) of
       (Some s, Some p) \<Rightarrow>
         if sz \<noteq> KSI_HOOK_SUBSCRIPTION_PAYLOAD_SIZE then Some (False, payload)
         else do {
           ht \<leftarrow> ksi_wire_read_u32 s 0;
           rsv \<leftarrow> ksi_wire_read_u32 s 4;
           Some (True, Some (p\<lparr>sub_hook_type := ht, sub_reserved := rsv\<rparr>))
         }
     | _ \<Rightarrow> Some (False, payload))"

definition ksi_protocol_decode_block_input ::
  "bytes ptr \<Rightarrow> nat \<Rightarrow> ksi_block_input_payload ptr \<Rightarrow> (bool \<times> ksi_block_input_payload ptr) mem" where
  "ksi_protocol_decode_block_input source sz payload =
    (case (source, payload) of
       (Some s, Some p) \<Rightarrow>
         if sz \<noteq> KSI_BLOCK_INPUT_PAYLOAD_SIZE then Some (False, payload)
         else do {
           m \<leftarrow> ksi_wire_read_u32 s 0;
           rsv \<leftarrow> ksi_wire_read_u32 s 4;
           Some (True, Some (p\<lparr>block_mask := m, block_reserved := rsv\<rparr>))
         }
     | _ \<Rightarrow> Some (False, payload))"

definition ksi_protocol_decode_permissions_revoke ::
  "bytes ptr \<Rightarrow> nat \<Rightarrow> ksi_permissions_revoke_payload ptr \<Rightarrow> (bool \<times> ksi_permissions_revoke_payload ptr) mem" where
  "ksi_protocol_decode_permissions_revoke source sz payload =
    (case (source, payload) of
       (Some s, Some p) \<Rightarrow>
         if sz \<noteq> KSI_PERMISSIONS_REVOKE_PAYLOAD_SIZE then Some (False, payload)
         else do {
           kind \<leftarrow> ksi_wire_read_u32 s 0;
           scopes \<leftarrow> ksi_wire_read_u32 s 4;
           pid \<leftarrow> ksi_wire_read_u64 s 8;
           hash \<leftarrow> mem_read s 16 KSI_PERMISSION_HASH_SIZE;
           Some (True, Some (p\<lparr>revoke_target_kind := kind, revoke_scopes := scopes,
                               revoke_pid := pid, revoke_hash := hash\<rparr>))
         }
     | _ \<Rightarrow> Some (False, payload))"

definition ksi_protocol_decode_synthesize_prefix ::
  "bytes ptr \<Rightarrow> nat \<Rightarrow> u32 ptr \<Rightarrow> u32 ptr \<Rightarrow> (bool \<times> u32 ptr \<times> u32 ptr) mem" where
  "ksi_protocol_decode_synthesize_prefix source sz count flags =
    (case (source, count, flags) of
       (Some s, Some _, Some _) \<Rightarrow>
         if sz < KSI_SYNTHESIZE_PREFIX_SIZE then Some (False, count, flags)
         else do {
           c \<leftarrow> ksi_wire_read_u32 s 0;
           f \<leftarrow> ksi_wire_read_u32 s 4;
           Some (True, Some c, Some f)
         }
     | _ \<Rightarrow> Some (False, count, flags))"

definition ksi_protocol_decode_hook_decision_prefix ::
  "bytes ptr \<Rightarrow> nat \<Rightarrow> u32 ptr \<Rightarrow> u32 ptr \<Rightarrow> (bool \<times> u32 ptr \<times> u32 ptr) mem" where
  "ksi_protocol_decode_hook_decision_prefix source sz decision input_count =
    (case (source, decision, input_count) of
       (Some s, Some _, Some _) \<Rightarrow>
         if sz < KSI_STATUS_PAYLOAD_SIZE + 8 then Some (False, decision, input_count)
         else do {
           d \<leftarrow> ksi_wire_read_u32 s KSI_STATUS_PAYLOAD_SIZE;
           n \<leftarrow> ksi_wire_read_u32 s (KSI_STATUS_PAYLOAD_SIZE + 4);
           Some (True, Some d, Some n)
         }
     | _ \<Rightarrow> Some (False, decision, input_count))"

definition zero_keybdinput :: ksi_keybdinput where
  "zero_keybdinput = \<lparr>ki_vk = 0, ki_scan = 0, ki_flags = 0, ki_time = 0, ki_extra_info = 0\<rparr>"

definition zero_mouseinput :: ksi_mouseinput where
  "zero_mouseinput = \<lparr>mi_dx = 0, mi_dy = 0, mi_mouse_data = 0, mi_flags = 0, mi_time = 0, mi_extra_info = 0\<rparr>"

definition zero_input :: ksi_input where
  "zero_input = \<lparr>in_type = 0, in_reserved = 0, in_mouse = zero_mouseinput, in_keyboard = zero_keybdinput\<rparr>"

definition ksi_protocol_decode_input ::
  "bytes ptr \<Rightarrow> ksi_input ptr \<Rightarrow> (bool \<times> ksi_input ptr) mem" where
  "ksi_protocol_decode_input source input =
    (case (source, input) of
       (Some s, Some _) \<Rightarrow> do {
         type \<leftarrow> ksi_wire_read_u32 s 0;
         rsv \<leftarrow> ksi_wire_read_u32 s 4;
         if rsv \<noteq> 0 then Some (False, input)
         else let i = zero_input\<lparr>in_type := type\<rparr> in
           if type = KSI_INPUT_KEYBOARD then do {
             bad \<leftarrow> mem_or (do { r \<leftarrow> ksi_wire_read_u32 s 20; Some (r \<noteq> 0) })
                           (do { r \<leftarrow> ksi_wire_read_u64 s 32; Some (r \<noteq> 0) });
             if bad then Some (False, Some i)
             else do {
               vk \<leftarrow> ksi_wire_read_u16 s 8;
               scan \<leftarrow> ksi_wire_read_u16 s 10;
               fl \<leftarrow> ksi_wire_read_u32 s 12;
               tm \<leftarrow> ksi_wire_read_u32 s 16;
               ex \<leftarrow> ksi_wire_read_u64 s 24;
               Some (True, Some (i\<lparr>in_keyboard := \<lparr>ki_vk = vk, ki_scan = scan, ki_flags = fl,
                                                   ki_time = tm, ki_extra_info = ex\<rparr>\<rparr>))
             }
           }
           else if type = KSI_INPUT_MOUSE then do {
             r \<leftarrow> ksi_wire_read_u32 s 28;
             if r \<noteq> 0 then Some (False, Some i)
             else do {
               dx \<leftarrow> ksi_wire_read_u32 s 8;
               dy \<leftarrow> ksi_wire_read_u32 s 12;
               md \<leftarrow> ksi_wire_read_u32 s 16;
               fl \<leftarrow> ksi_wire_read_u32 s 20;
               tm \<leftarrow> ksi_wire_read_u32 s 24;
               ex \<leftarrow> ksi_wire_read_u64 s 32;
               Some (True, Some (i\<lparr>in_mouse := \<lparr>mi_dx = dx, mi_dy = dy, mi_mouse_data = md, mi_flags = fl,
                                                mi_time = tm, mi_extra_info = ex\<rparr>\<rparr>))
             }
           }
           else Some (False, Some i)
       }
     | _ \<Rightarrow> Some (False, input))"

section \<open>Encoders\<close>

definition ksi_protocol_encode_input :: "bytes \<Rightarrow> ksi_input \<Rightarrow> bytes mem" where
  "ksi_protocol_encode_input destination input = do {
     d \<leftarrow> mem_zero destination 0 KSI_INPUT_WIRE_SIZE;
     d \<leftarrow> ksi_wire_write_u32 d 0 (in_type input);
     if in_type input = KSI_INPUT_KEYBOARD then do {
       d \<leftarrow> ksi_wire_write_u16 d 8 (ki_vk (in_keyboard input));
       d \<leftarrow> ksi_wire_write_u16 d 10 (ki_scan (in_keyboard input));
       d \<leftarrow> ksi_wire_write_u32 d 12 (ki_flags (in_keyboard input));
       d \<leftarrow> ksi_wire_write_u32 d 16 (ki_time (in_keyboard input));
       ksi_wire_write_u64 d 24 (ki_extra_info (in_keyboard input))
     }
     else if in_type input = KSI_INPUT_MOUSE then do {
       d \<leftarrow> ksi_wire_write_u32 d 8 (mi_dx (in_mouse input));
       d \<leftarrow> ksi_wire_write_u32 d 12 (mi_dy (in_mouse input));
       d \<leftarrow> ksi_wire_write_u32 d 16 (mi_mouse_data (in_mouse input));
       d \<leftarrow> ksi_wire_write_u32 d 20 (mi_flags (in_mouse input));
       d \<leftarrow> ksi_wire_write_u32 d 24 (mi_time (in_mouse input));
       ksi_wire_write_u64 d 32 (mi_extra_info (in_mouse input))
     }
     else Some d
   }"

definition ksi_protocol_encode_status :: "bytes \<Rightarrow> u32 \<Rightarrow> u32 \<Rightarrow> (nat \<times> bytes) mem" where
  "ksi_protocol_encode_status destination status detail = do {
     d \<leftarrow> ksi_status_encode destination status detail;
     Some (KSI_STATUS_PAYLOAD_SIZE, d)
   }"

definition ksi_protocol_encode_hello_result ::
  "bytes \<Rightarrow> u32 \<Rightarrow> u32 \<Rightarrow> u32 \<Rightarrow> u64 \<Rightarrow> (nat \<times> bytes) mem" where
  "ksi_protocol_encode_hello_result destination status detail granted_scopes available_operations = do {
     (n, d) \<leftarrow> ksi_protocol_encode_status destination status detail;
     if status \<noteq> KSI_STATUS_OK then Some (n, d)
     else do {
       d \<leftarrow> ksi_wire_write_u32 d 8 granted_scopes;
       d \<leftarrow> ksi_wire_write_u32 d 12 0;
       d \<leftarrow> ksi_wire_write_u64 d 16 available_operations;
       d \<leftarrow> ksi_wire_write_u64 d 24 0;
       Some (KSI_HELLO_RESULT_PAYLOAD_SIZE, d)
     }
   }"

definition ksi_protocol_encode_authorize_result ::
  "bytes \<Rightarrow> u32 \<Rightarrow> u32 \<Rightarrow> u32 \<Rightarrow> (nat \<times> bytes) mem" where
  "ksi_protocol_encode_authorize_result destination status detail granted_scopes = do {
     (n, d) \<leftarrow> ksi_protocol_encode_status destination status detail;
     if status \<noteq> KSI_STATUS_OK then Some (n, d)
     else do {
       d \<leftarrow> ksi_wire_write_u32 d 8 granted_scopes;
       d \<leftarrow> ksi_wire_write_u32 d 12 0;
       Some (KSI_AUTHORIZE_RESULT_PAYLOAD_SIZE, d)
     }
   }"

definition ksi_protocol_encode_u32_result :: "bytes \<Rightarrow> u32 \<Rightarrow> (nat \<times> bytes) mem" where
  "ksi_protocol_encode_u32_result destination value = do {
     d \<leftarrow> ksi_status_encode destination KSI_STATUS_OK KSI_DETAIL_NONE;
     d \<leftarrow> ksi_wire_write_u32 d 8 value;
     d \<leftarrow> ksi_wire_write_u32 d 12 0;
     Some (16, d)
   }"

definition ksi_protocol_encode_indicator_state ::
  "bytes \<Rightarrow> ksi_indicator_state_payload \<Rightarrow> (nat \<times> bytes) mem" where
  "ksi_protocol_encode_indicator_state destination payload = do {
     d \<leftarrow> wr8 destination 0 (ind_caps_lock payload);
     d \<leftarrow> wr8 d 1 (ind_num_lock payload);
     d \<leftarrow> wr8 d 2 (ind_scroll_lock payload);
     d \<leftarrow> wr8 d 3 0;
     Some (KSI_INDICATOR_STATE_PAYLOAD_SIZE, d)
   }"

definition ksi_protocol_encode_pointer_position ::
  "bytes \<Rightarrow> ksi_pointer_position_payload \<Rightarrow> (nat \<times> bytes) mem" where
  "ksi_protocol_encode_pointer_position destination payload = do {
     d \<leftarrow> wr8 destination 0 (pp_valid payload);
     d \<leftarrow> mem_zero d 1 3;
     d \<leftarrow> ksi_wire_write_u32 d 4 (pp_x payload);
     d \<leftarrow> ksi_wire_write_u32 d 8 (pp_y payload);
     d \<leftarrow> ksi_wire_write_u32 d 12 (pp_x_min payload);
     d \<leftarrow> ksi_wire_write_u32 d 16 (pp_x_max payload);
     d \<leftarrow> ksi_wire_write_u32 d 20 (pp_y_min payload);
     d \<leftarrow> ksi_wire_write_u32 d 24 (pp_y_max payload);
     Some (KSI_POINTER_POSITION_PAYLOAD_SIZE, d)
   }"

text \<open>The bitmaps of a key state are arrays of 96 bytes, copied whole.\<close>

definition ksi_protocol_encode_key_state ::
  "bytes \<Rightarrow> ksi_key_state_payload \<Rightarrow> (nat \<times> bytes) mem" where
  "ksi_protocol_encode_key_state destination payload = do {
     d \<leftarrow> ksi_wire_write_u32 destination 0 (ks_modifiers_lr payload);
     d \<leftarrow> wr8 d 4 (ks_caps_lock payload);
     d \<leftarrow> wr8 d 5 (ks_num_lock payload);
     d \<leftarrow> wr8 d 6 (ks_scroll_lock payload);
     d \<leftarrow> wr8 d 7 0;
     logical \<leftarrow> mem_read (ks_logical_keys payload) 0 KSI_KEY_STATE_BITMAP_BYTES;
     d \<leftarrow> mem_copy d 8 logical;
     physical \<leftarrow> mem_read (ks_physical_keys payload) 0 KSI_KEY_STATE_BITMAP_BYTES;
     d \<leftarrow> mem_copy d (8 + KSI_KEY_STATE_BITMAP_BYTES) physical;
     Some (KSI_KEY_STATE_PAYLOAD_SIZE, d)
   }"

definition ksi_protocol_encode_pointer_buttons ::
  "bytes \<Rightarrow> ksi_pointer_buttons_payload \<Rightarrow> (nat \<times> bytes) mem" where
  "ksi_protocol_encode_pointer_buttons destination payload = do {
     d \<leftarrow> wr8 destination 0 (pb_valid payload);
     d \<leftarrow> mem_zero d 1 3;
     d \<leftarrow> ksi_wire_write_u32 d 4 (pb_logical_buttons payload);
     d \<leftarrow> ksi_wire_write_u32 d 8 (pb_physical_buttons payload);
     Some (KSI_POINTER_BUTTONS_PAYLOAD_SIZE, d)
   }"

definition ksi_protocol_encode_idle_time ::
  "bytes \<Rightarrow> ksi_idle_time_payload \<Rightarrow> (nat \<times> bytes) mem" where
  "ksi_protocol_encode_idle_time destination payload = do {
     d \<leftarrow> wr8 destination 0 (idle_valid payload);
     d \<leftarrow> mem_zero d 1 7;
     d \<leftarrow> ksi_wire_write_u64 d 8 (idle_time_ms payload);
     Some (KSI_IDLE_TIME_PAYLOAD_SIZE, d)
   }"

definition ksi_protocol_encode_modifier_state ::
  "bytes \<Rightarrow> ksi_modifier_state_payload \<Rightarrow> (nat \<times> bytes) mem" where
  "ksi_protocol_encode_modifier_state destination payload = do {
     d \<leftarrow> ksi_wire_write_u32 destination 0 (ms_logical_modifiers_lr payload);
     d \<leftarrow> ksi_wire_write_u32 d 4 (ms_physical_modifiers_lr payload);
     d \<leftarrow> wr8 d 8 (ms_caps_lock payload);
     d \<leftarrow> wr8 d 9 (ms_num_lock payload);
     d \<leftarrow> wr8 d 10 (ms_scroll_lock payload);
     d \<leftarrow> wr8 d 11 0;
     Some (KSI_MODIFIER_STATE_PAYLOAD_SIZE, d)
   }"

definition ksi_protocol_encode_hook_event ::
  "bytes \<Rightarrow> ksi_hook_event_payload \<Rightarrow> u32 \<Rightarrow> (nat \<times> bytes) mem" where
  "ksi_protocol_encode_hook_event destination payload hook_type = do {
     d \<leftarrow> ksi_wire_write_u32 destination 0 hook_type;
     d \<leftarrow> ksi_wire_write_u32 d 4 0;
     if hook_type = KSI_HOOK_KEYBOARD then do {
       d \<leftarrow> ksi_wire_write_u32 d 8 (kh_message (he_keyboard payload));
       d \<leftarrow> ksi_wire_write_u32 d 12 (kh_vk_code (he_keyboard payload));
       d \<leftarrow> ksi_wire_write_u32 d 16 (kh_scan_code (he_keyboard payload));
       d \<leftarrow> ksi_wire_write_u32 d 20 (kh_flags (he_keyboard payload));
       d \<leftarrow> ksi_wire_write_u64 d 24 (kh_time_ms (he_keyboard payload));
       d \<leftarrow> ksi_wire_write_u64 d 32 (kh_extra_info (he_keyboard payload));
       d \<leftarrow> ksi_wire_write_u32 d 40 (kh_device_id (he_keyboard payload));
       d \<leftarrow> ksi_wire_write_u32 d 44 0;
       Some (KSI_HOOK_EVENT_PREFIX_SIZE + KSI_KEYBOARD_HOOK_EVENT_SIZE, d)
     }
     else if hook_type = KSI_HOOK_MOUSE then do {
       d \<leftarrow> ksi_wire_write_u32 d 8 (mo_message (he_mouse payload));
       d \<leftarrow> ksi_wire_write_u32 d 12 (mo_x (he_mouse payload));
       d \<leftarrow> ksi_wire_write_u32 d 16 (mo_y (he_mouse payload));
       d \<leftarrow> ksi_wire_write_u32 d 20 (mo_mouse_data (he_mouse payload));
       d \<leftarrow> ksi_wire_write_u32 d 24 (mo_flags (he_mouse payload));
       d \<leftarrow> ksi_wire_write_u64 d 28 (mo_time_ms (he_mouse payload));
       d \<leftarrow> ksi_wire_write_u64 d 36 (mo_extra_info (he_mouse payload));
       d \<leftarrow> ksi_wire_write_u32 d 44 (mo_device_id (he_mouse payload));
       d \<leftarrow> ksi_wire_write_u32 d 48 0;
       d \<leftarrow> ksi_wire_write_u32 d 52 (mo_delta_x (he_mouse payload));
       d \<leftarrow> ksi_wire_write_u32 d 56 (mo_delta_y (he_mouse payload));
       Some (KSI_HOOK_EVENT_PREFIX_SIZE + KSI_MOUSE_HOOK_EVENT_SIZE, d)
     }
     else Some (0, d)
   }"

definition ksi_protocol_encode_hook_quarantined ::
  "bytes \<Rightarrow> ksi_hook_quarantined_payload \<Rightarrow> (nat \<times> bytes) mem" where
  "ksi_protocol_encode_hook_quarantined destination payload = do {
     d \<leftarrow> ksi_wire_write_u32 destination 0 (hq_hook_type payload);
     d \<leftarrow> ksi_wire_write_u32 d 4 (hq_reason payload);
     d \<leftarrow> ksi_wire_write_u64 d 8 (hq_event_id payload);
     d \<leftarrow> ksi_wire_write_u32 d 16 (hq_generation payload);
     d \<leftarrow> ksi_wire_write_u32 d 20 (hq_strike_count payload);
     d \<leftarrow> ksi_wire_write_u32 d 24 (hq_retry_after_ms payload);
     d \<leftarrow> ksi_wire_write_u32 d 28 0;
     Some (KSI_HOOK_QUARANTINED_PAYLOAD_SIZE, d)
   }"

section \<open>Permission hashes\<close>

text \<open>
  A hash is 32 raw bytes or 64 lower-case hex digits with a terminating zero. Whether a plain
  \<open>char\<close> is signed differs between the supported targets, so it is a parameter.
\<close>

definition char_value :: "bool \<Rightarrow> byte \<Rightarrow> int" where
  "char_value char_signed c = (if char_signed then sint c else uint c)"

definition hex_nibble :: "bool \<Rightarrow> byte \<Rightarrow> u32" where
  "hex_nibble char_signed c =
    (let v = char_value char_signed c
     in word_of_int (if v \<le> 57 then v - 48 else v - 97 + 10))"

definition ksi_protocol_encode_hash :: "bool \<Rightarrow> bytes \<Rightarrow> bytes \<Rightarrow> bytes mem" where
  "ksi_protocol_encode_hash char_signed hex raw =
    mem_for (\<lambda>i raw. do {
      h \<leftarrow> rd8 hex (i * 2);
      l \<leftarrow> rd8 hex (i * 2 + 1);
      wr8 raw i (ucast (push_bit 4 (hex_nibble char_signed h) OR hex_nibble char_signed l))
    }) [0..<32] raw"

definition hash_digits :: bytes where
  "hash_digits = [48, 49, 50, 51, 52, 53, 54, 55, 56, 57, 97, 98, 99, 100, 101, 102]"

definition ksi_protocol_decode_hash :: "bytes ptr \<Rightarrow> bytes ptr \<Rightarrow> (bool \<times> bytes ptr) mem" where
  "ksi_protocol_decode_hash raw hex =
    (case (raw, hex) of
       (Some r, Some h) \<Rightarrow> do {
         h \<leftarrow> mem_for (\<lambda>i h. do {
           b \<leftarrow> rd8 r i;
           hi \<leftarrow> rd8 hash_digits (unat (drop_bit 4 b));
           lo \<leftarrow> rd8 hash_digits (unat (b AND 0x0f));
           h \<leftarrow> wr8 h (i * 2) hi;
           wr8 h (i * 2 + 1) lo
         }) [0..<32] h;
         h \<leftarrow> wr8 h 64 0;
         Some (True, Some h)
       }
     | _ \<Rightarrow> Some (False, hex))"

section \<open>Frame validity\<close>

lemma word_below_8:
  assumes "f AND NOT 7 = (0 :: u16)"
  shows "f \<in> {0, 1, 2, 3, 4, 5, 6, 7}"
proof -
  have "f = (f AND 7) OR (f AND NOT 7)"
    by (rule bit_eqI) (auto simp: bit_simps)
  also have "\<dots> = take_bit 3 f"
    using assms by (simp add: take_bit_eq_mask mask_numeral)
  finally have "unat f = take_bit 3 (unat f)"
    by (metis unsigned_take_bit_eq)
  then have "unat f < 8"
    using take_bit_nat_less_exp [of 3 "unat f"] by simp
  then have "unat f \<in> {0, 1, 2, 3, 4, 5, 6, 7}"
    unfolding insert_iff empty_iff by arith
  then have "(word_of_nat (unat f) :: u16) \<in> word_of_nat ` {0, 1, 2, 3, 4, 5, 6, 7}" by (rule imageI)
  then show ?thesis by simp
qed

text \<open>
  A frame header is accepted exactly when it carries protocol version 3.0 and a payload of at
  most 65512 bytes and is one of: an event (flag EVENT alone) with request id zero, a response
  (RESPONSE, possibly with MORE) with a nonzero id, or a request (no flag) with a nonzero id, the
  one exception being an empty PING with id zero.
\<close>

theorem frame_is_valid_iff:
  "ksi_protocol_frame_is_valid (Some h) \<longleftrightarrow>
     mh_major h = 3 \<and> mh_minor h = 0 \<and> unat (mh_payload_length h) \<le> 65512 \<and>
     (mh_flags h = KSI_FRAME_FLAG_EVENT \<and> mh_request_id h = 0
      \<or> mh_flags h \<in> {KSI_FRAME_FLAG_RESPONSE, KSI_FRAME_FLAG_RESPONSE OR KSI_FRAME_FLAG_MORE}
        \<and> mh_request_id h \<noteq> 0
      \<or> mh_flags h = 0
        \<and> (mh_request_id h \<noteq> 0 \<or> mh_opcode h = KSI_OPCODE_PING \<and> mh_payload_length h = 0))"
proof (cases "mh_flags h AND NOT 7 = 0")
  case True
  show ?thesis
    using word_below_8 [OF True]
    by (auto simp: ksi_protocol_frame_is_valid_def Let_def)
next
  case False
  then have "mh_flags h \<notin> {0, 1, 2, 5}" by auto
  with False show ?thesis
    by (simp add: ksi_protocol_frame_is_valid_def)
qed

theorem frame_is_valid_iff_witness:
  "ksi_protocol_frame_is_valid (Some \<lparr>mh_major = 3, mh_minor = 0, mh_opcode = KSI_OPCODE_PING,
      mh_flags = 0, mh_payload_length = 0, mh_request_id = 0\<rparr>)"
  by (subst frame_is_valid_iff) simp

section \<open>Decoders stay inside the payload\<close>

lemmas decoder_defs =
  ksi_protocol_decode_hello_def ksi_protocol_decode_authorize_def
  ksi_protocol_decode_hook_subscription_def ksi_protocol_decode_block_input_def
  ksi_protocol_decode_permissions_revoke_def ksi_protocol_decode_synthesize_prefix_def
  ksi_protocol_decode_hook_decision_prefix_def

text \<open>
  C16. Given a payload buffer that holds at least the announced number of bytes, no request decoder
  reads outside it, whatever the announced size and whatever the bytes.
\<close>

theorem decoders_stay_in_bounds:
  assumes "sz \<le> length s"
  shows "ksi_protocol_decode_hello (Some s) sz a \<noteq> None
    \<and> ksi_protocol_decode_authorize (Some s) sz b \<noteq> None
    \<and> ksi_protocol_decode_hook_subscription (Some s) sz c \<noteq> None
    \<and> ksi_protocol_decode_block_input (Some s) sz d \<noteq> None
    \<and> ksi_protocol_decode_permissions_revoke (Some s) sz e \<noteq> None
    \<and> ksi_protocol_decode_synthesize_prefix (Some s) sz f g \<noteq> None
    \<and> ksi_protocol_decode_hook_decision_prefix (Some s) sz f g \<noteq> None
    \<and> (sz = KSI_INPUT_WIRE_SIZE \<longrightarrow> ksi_protocol_decode_input (Some s) i \<noteq> None)"
  using assms
  by (intro conjI)
    (simp_all add: decoder_defs ksi_protocol_decode_input_def wire_rw mem_simps Let_def
      del: not_None_eq split: option.split)

theorem decoders_stay_in_bounds_witness:
  "ksi_protocol_decode_hello (Some (replicate 16 0)) 16 None \<noteq> None"
  using decoders_stay_in_bounds [of 16 "replicate 16 0" None None None None None None None None] by simp

section \<open>Input records\<close>

text \<open>
  A well-formed input selects a known type and has zeroes in its reserved field and in the union
  member the type does not select.
\<close>

definition wf_input :: "ksi_input \<Rightarrow> bool" where
  "wf_input i \<longleftrightarrow> in_reserved i = 0 \<and>
     (in_type i = KSI_INPUT_KEYBOARD \<and> in_mouse i = zero_mouseinput
      \<or> in_type i = KSI_INPUT_MOUSE \<and> in_keyboard i = zero_keybdinput)"

lemmas input_codec_defs =
  ksi_protocol_encode_input_def ksi_protocol_decode_input_def zero_input_def Let_def

lemma keyboard_input_roundtrip:
  assumes "40 \<le> length d" "in_type i = 1" "in_reserved i = 0" "in_mouse i = zero_mouseinput"
  shows "\<exists>d'. ksi_protocol_encode_input d i = Some d' \<and> length d' = length d \<and> drop 40 d' = drop 40 d
      \<and> ksi_protocol_decode_input (Some d') (Some x) = Some (True, Some i)"
  using assms by (simp add: input_codec_defs wire_rw mem_simps field_simps_wire)

lemma mouse_input_roundtrip:
  assumes "40 \<le> length d" "in_type i = 0" "in_reserved i = 0" "in_keyboard i = zero_keybdinput"
  shows "\<exists>d'. ksi_protocol_encode_input d i = Some d' \<and> length d' = length d \<and> drop 40 d' = drop 40 d
      \<and> ksi_protocol_decode_input (Some d') (Some x) = Some (True, Some i)"
  using assms by (simp add: input_codec_defs wire_rw mem_simps field_simps_wire)

text \<open>
  C17. Encoding a well-formed keyboard or mouse input writes 40 bytes, leaves the rest of the buffer
  alone, and the decoder gives exactly that input back.
\<close>

theorem input_roundtrip:
  assumes "KSI_INPUT_WIRE_SIZE \<le> length d" and "wf_input i"
  shows "\<exists>d'. ksi_protocol_encode_input d i = Some d' \<and> length d' = length d
      \<and> drop KSI_INPUT_WIRE_SIZE d' = drop KSI_INPUT_WIRE_SIZE d
      \<and> ksi_protocol_decode_input (Some d') (Some x) = Some (True, Some i)"
  using assms keyboard_input_roundtrip [of d i x] mouse_input_roundtrip [of d i x]
  by (auto simp: wf_input_def)

theorem input_roundtrip_witness:
  "\<exists>d'. ksi_protocol_encode_input (replicate 40 7)
        (zero_input\<lparr>in_type := 1, in_keyboard := zero_keybdinput\<lparr>ki_vk := 0x41, ki_flags := 2\<rparr>\<rparr>) = Some d'
      \<and> ksi_protocol_decode_input (Some d') (Some zero_input)
        = Some (True, Some (zero_input\<lparr>in_type := 1, in_keyboard := zero_keybdinput\<lparr>ki_vk := 0x41, ki_flags := 2\<rparr>\<rparr>))"
  using input_roundtrip [of "replicate 40 7"
      "zero_input\<lparr>in_type := 1, in_keyboard := zero_keybdinput\<lparr>ki_vk := 0x41, ki_flags := 2\<rparr>\<rparr>" zero_input]
  by (auto simp: wf_input_def zero_input_def)

lemma decode_input_wf:
  "40 \<le> length s \<Longrightarrow> ksi_protocol_decode_input (Some s) (Some x) = Some (True, Some i) \<Longrightarrow> wf_input i"
  by (auto simp: input_codec_defs wire_rw mem_simps wf_input_def split: if_splits)

lemma keyboard_input_canonical:
  assumes s: "40 \<le> length s" and d: "40 \<le> length d"
    and dec: "ksi_protocol_decode_input (Some s) (Some x) = Some (True, Some i)"
    and ty: "in_type i = 1"
  shows "\<exists>d'. ksi_protocol_encode_input d i = Some d' \<and> get_bytes d' 0 40 = get_bytes s 0 40"
proof -
  from dec s ty
  have z: "le_read (get_bytes s 4 4) = (0::u32)" "le_read (get_bytes s 20 4) = (0::u32)"
      "le_read (get_bytes s 32 8) = (0::u64)"
    and i: "i = zero_input\<lparr>in_type := le_read (get_bytes s 0 4),
      in_keyboard := \<lparr>ki_vk = le_read (get_bytes s 8 2), ki_scan = le_read (get_bytes s 10 2),
        ki_flags = le_read (get_bytes s 12 4), ki_time = le_read (get_bytes s 16 4),
        ki_extra_info = le_read (get_bytes s 24 8)\<rparr>\<rparr>"
    and t: "le_read (get_bytes s 0 4) = (1::u32)"
    by (auto simp: ksi_protocol_decode_input_def Let_def wire_rw mem_simps split: if_splits)
  have z': "get_bytes s 4 4 = replicate 4 0" "get_bytes s 20 4 = replicate 4 0" "get_bytes s 32 8 = replicate 8 0"
    using s by (simp_all add: le_read_eq_0 [OF z(1)] le_read_eq_0 [OF z(2)] le_read_eq_0 [OF z(3)])
  have t': "get_bytes s 0 4 = le_write 4 (1 :: u32)"
    using le_write_read [of "get_bytes s 0 4" 4, where 'a = 32] s by (simp add: t)
  have "\<exists>d'. ksi_protocol_encode_input d i = Some d' \<and> segments_agree d' s 0 [4, 4, 2, 2, 4, 4, 4, 8, 8]"
    using d s by (simp add: ksi_protocol_encode_input_def i t t' wire_rw mem_simps field_simps_wire z' le_write_read)
  then show ?thesis
    using segments_agree_sum [of _ s 0 "[4, 4, 2, 2, 4, 4, 4, 8, 8]"] by (auto simp del: segments_agree.simps)
qed

lemma mouse_input_canonical:
  assumes s: "40 \<le> length s" and d: "40 \<le> length d"
    and dec: "ksi_protocol_decode_input (Some s) (Some x) = Some (True, Some i)"
    and ty: "in_type i = 0"
  shows "\<exists>d'. ksi_protocol_encode_input d i = Some d' \<and> get_bytes d' 0 40 = get_bytes s 0 40"
proof -
  from dec s ty
  have z: "le_read (get_bytes s 4 4) = (0::u32)" "le_read (get_bytes s 28 4) = (0::u32)"
    and i: "i = zero_input\<lparr>in_type := le_read (get_bytes s 0 4),
      in_mouse := \<lparr>mi_dx = le_read (get_bytes s 8 4), mi_dy = le_read (get_bytes s 12 4),
        mi_mouse_data = le_read (get_bytes s 16 4), mi_flags = le_read (get_bytes s 20 4),
        mi_time = le_read (get_bytes s 24 4), mi_extra_info = le_read (get_bytes s 32 8)\<rparr>\<rparr>"
    and t: "le_read (get_bytes s 0 4) = (0::u32)"
    by (auto simp: ksi_protocol_decode_input_def Let_def wire_rw mem_simps split: if_splits)
  have z': "get_bytes s 4 4 = replicate 4 0" "get_bytes s 28 4 = replicate 4 0" "get_bytes s 0 4 = replicate 4 0"
    using s by (simp_all add: le_read_eq_0 [OF z(1)] le_read_eq_0 [OF z(2)] le_read_eq_0 [OF t])
  have "\<exists>d'. ksi_protocol_encode_input d i = Some d' \<and> segments_agree d' s 0 [4, 4, 4, 4, 4, 4, 4, 4, 8]"
    using d s by (simp add: ksi_protocol_encode_input_def i t wire_rw mem_simps field_simps_wire z' le_write_read)
  then show ?thesis
    using segments_agree_sum [of _ s 0 "[4, 4, 4, 4, 4, 4, 4, 4, 8]"] by (auto simp del: segments_agree.simps)
qed

text \<open>
  The wire form of an input is unique: when 40 bytes decode to an input, encoding that input
  gives the same 40 bytes, so every reserved byte that the decoder ignores is zero.
\<close>

theorem input_canonical:
  assumes "KSI_INPUT_WIRE_SIZE \<le> length s" and "KSI_INPUT_WIRE_SIZE \<le> length d"
    and "ksi_protocol_decode_input (Some s) (Some x) = Some (True, Some i)"
  shows "\<exists>d'. ksi_protocol_encode_input d i = Some d'
      \<and> take KSI_INPUT_WIRE_SIZE d' = take KSI_INPUT_WIRE_SIZE s"
proof -
  have "in_type i = 1 \<or> in_type i = 0"
    using decode_input_wf [of s x i] assms by (auto simp: wf_input_def)
  then have "\<exists>d'. ksi_protocol_encode_input d i = Some d' \<and> get_bytes d' 0 40 = get_bytes s 0 40"
    using assms keyboard_input_canonical [of s d x i] mouse_input_canonical [of s d x i] by auto
  then show ?thesis by (simp add: get_bytes_def)
qed

theorem input_canonical_witness:
  "\<exists>d'. ksi_protocol_encode_input (replicate 40 9) (zero_input\<lparr>in_type := 0\<rparr>) = Some d'
      \<and> take KSI_INPUT_WIRE_SIZE d' = take KSI_INPUT_WIRE_SIZE (replicate 40 0)"
  using input_canonical [of "replicate 40 0" "replicate 40 9" zero_input "zero_input\<lparr>in_type := 0\<rparr>"]
  by (simp add: input_codec_defs wire_rw zero_mouseinput_def)

section \<open>The wire layout of results and events\<close>

text \<open>
  The interface of an encoder of a fixed-size payload: it succeeds on a buffer that is large enough,
  reports its size and writes exactly the documented bytes. The layouts below are those of
  src/docs/protocol.md.
\<close>

locale fixed_encoder =
  fixes enc :: "bytes \<Rightarrow> 'p \<Rightarrow> (nat \<times> bytes) mem"
    and layout :: "'p \<Rightarrow> bytes"
    and width :: nat
    and ok :: "'p \<Rightarrow> bool"
  assumes enc_eq: "width \<le> length d \<Longrightarrow> ok p \<Longrightarrow> enc d p = Some (width, put_bytes d 0 (layout p))"
    and length_layout: "ok p \<Longrightarrow> length (layout p) = width"
begin

lemma writes_exactly:
  "width \<le> length d \<Longrightarrow> ok p \<Longrightarrow>
   \<exists>d'. enc d p = Some (width, d') \<and> take width d' = layout p \<and> drop width d' = drop width d"
  by (auto simp: enc_eq length_layout take_put_bytes)

end

definition keyboard_event_bytes :: "ksi_hook_event_payload \<Rightarrow> bytes" where
  "keyboard_event_bytes p = (let k = he_keyboard p in
     le_write 4 KSI_HOOK_KEYBOARD @ replicate 4 0
     @ le_write 4 (kh_message k) @ le_write 4 (kh_vk_code k) @ le_write 4 (kh_scan_code k) @ le_write 4 (kh_flags k)
     @ le_write 8 (kh_time_ms k) @ le_write 8 (kh_extra_info k) @ le_write 4 (kh_device_id k) @ replicate 4 0)"

definition mouse_event_bytes :: "ksi_hook_event_payload \<Rightarrow> bytes" where
  "mouse_event_bytes p = (let m = he_mouse p in
     le_write 4 KSI_HOOK_MOUSE @ replicate 4 0
     @ le_write 4 (mo_message m) @ le_write 4 (mo_x m) @ le_write 4 (mo_y m) @ le_write 4 (mo_mouse_data m)
     @ le_write 4 (mo_flags m) @ le_write 8 (mo_time_ms m) @ le_write 8 (mo_extra_info m)
     @ le_write 4 (mo_device_id m) @ replicate 4 0 @ le_write 4 (mo_delta_x m) @ le_write 4 (mo_delta_y m))"

definition key_state_bytes :: "ksi_key_state_payload \<Rightarrow> bytes" where
  "key_state_bytes p = le_write 4 (ks_modifiers_lr p) @ [ks_caps_lock p, ks_num_lock p, ks_scroll_lock p, 0]
     @ ks_logical_keys p @ ks_physical_keys p"

definition modifier_state_bytes :: "ksi_modifier_state_payload \<Rightarrow> bytes" where
  "modifier_state_bytes p = le_write 4 (ms_logical_modifiers_lr p) @ le_write 4 (ms_physical_modifiers_lr p)
     @ [ms_caps_lock p, ms_num_lock p, ms_scroll_lock p, 0]"

definition quarantined_bytes :: "ksi_hook_quarantined_payload \<Rightarrow> bytes" where
  "quarantined_bytes p = le_write 4 (hq_hook_type p) @ le_write 4 (hq_reason p) @ le_write 8 (hq_event_id p)
     @ le_write 4 (hq_generation p) @ le_write 4 (hq_strike_count p) @ le_write 4 (hq_retry_after_ms p) @ replicate 4 0"

definition pointer_position_bytes :: "ksi_pointer_position_payload \<Rightarrow> bytes" where
  "pointer_position_bytes p = [pp_valid p, 0, 0, 0] @ le_write 4 (pp_x p) @ le_write 4 (pp_y p)
     @ le_write 4 (pp_x_min p) @ le_write 4 (pp_x_max p) @ le_write 4 (pp_y_min p) @ le_write 4 (pp_y_max p)"

definition pointer_buttons_bytes :: "ksi_pointer_buttons_payload \<Rightarrow> bytes" where
  "pointer_buttons_bytes p = [pb_valid p, 0, 0, 0] @ le_write 4 (pb_logical_buttons p) @ le_write 4 (pb_physical_buttons p)"

definition idle_time_bytes :: "ksi_idle_time_payload \<Rightarrow> bytes" where
  "idle_time_bytes p = [idle_valid p, 0, 0, 0, 0, 0, 0, 0] @ le_write 8 (idle_time_ms p)"

lemma replicate_numeral_byte: "replicate 3 (0::byte) = [0,0,0]" "replicate 7 (0::byte) = [0,0,0,0,0,0,0]"
  by (simp_all add: eval_nat_numeral)

interpretation kbd_event: fixed_encoder "\<lambda>d p. ksi_protocol_encode_hook_event d p KSI_HOOK_KEYBOARD"
  keyboard_event_bytes 48 "\<lambda>_. True"
  by unfold_locales (simp_all add: ksi_protocol_encode_hook_event_def wire_rw put_put_fold keyboard_event_bytes_def Let_def)

interpretation mouse_event: fixed_encoder "\<lambda>d p. ksi_protocol_encode_hook_event d p KSI_HOOK_MOUSE"
  mouse_event_bytes 60 "\<lambda>_. True"
  by unfold_locales (simp_all add: ksi_protocol_encode_hook_event_def wire_rw put_put_fold mouse_event_bytes_def Let_def)

interpretation key_state: fixed_encoder ksi_protocol_encode_key_state key_state_bytes 200
  "\<lambda>p. length (ks_logical_keys p) = KSI_KEY_STATE_BITMAP_BYTES \<and> length (ks_physical_keys p) = KSI_KEY_STATE_BITMAP_BYTES"
  by unfold_locales (auto simp: ksi_protocol_encode_key_state_def wire_rw mem_simps put_put_fold key_state_bytes_def get_bytes_all)

interpretation modifier_state: fixed_encoder ksi_protocol_encode_modifier_state modifier_state_bytes 12 "\<lambda>_. True"
  by unfold_locales (simp_all add: ksi_protocol_encode_modifier_state_def wire_rw mem_simps put_put_fold modifier_state_bytes_def)

interpretation quarantined: fixed_encoder ksi_protocol_encode_hook_quarantined quarantined_bytes 32 "\<lambda>_. True"
  by unfold_locales (simp_all add: ksi_protocol_encode_hook_quarantined_def wire_rw mem_simps put_put_fold quarantined_bytes_def)

interpretation pointer_position: fixed_encoder ksi_protocol_encode_pointer_position pointer_position_bytes 28 "\<lambda>_. True"
  by unfold_locales (simp_all add: ksi_protocol_encode_pointer_position_def wire_rw mem_simps put_put_fold pointer_position_bytes_def nonempty_of_length replicate_numeral_byte)

interpretation pointer_buttons: fixed_encoder ksi_protocol_encode_pointer_buttons pointer_buttons_bytes 12 "\<lambda>_. True"
  by unfold_locales (simp_all add: ksi_protocol_encode_pointer_buttons_def wire_rw mem_simps put_put_fold pointer_buttons_bytes_def nonempty_of_length replicate_numeral_byte)

interpretation idle_time: fixed_encoder ksi_protocol_encode_idle_time idle_time_bytes 16 "\<lambda>_. True"
  by unfold_locales (simp_all add: ksi_protocol_encode_idle_time_def wire_rw mem_simps put_put_fold idle_time_bytes_def nonempty_of_length replicate_numeral_byte)

text \<open>
  Every hook event and state result is written exactly as documented: on a buffer that is large
  enough the encoder reports the documented size, the buffer then starts with the documented
  fields in order, little-endian, reserved bytes zero, and everything behind them is untouched.
\<close>

theorem payload_layouts:
  assumes "60 \<le> length d" and "200 \<le> length e"
    and "length (ks_logical_keys ks) = KSI_KEY_STATE_BITMAP_BYTES"
    and "length (ks_physical_keys ks) = KSI_KEY_STATE_BITMAP_BYTES"
  shows "(\<exists>r. ksi_protocol_encode_hook_event d ev KSI_HOOK_KEYBOARD = Some (48, r)
          \<and> take 48 r = keyboard_event_bytes ev \<and> drop 48 r = drop 48 d)
     \<and> (\<exists>r. ksi_protocol_encode_hook_event d ev KSI_HOOK_MOUSE = Some (60, r)
          \<and> take 60 r = mouse_event_bytes ev \<and> drop 60 r = drop 60 d)
     \<and> (\<exists>r. ksi_protocol_encode_key_state e ks = Some (200, r)
          \<and> take 200 r = key_state_bytes ks \<and> drop 200 r = drop 200 e)
     \<and> (\<exists>r. ksi_protocol_encode_modifier_state d ms = Some (12, r)
          \<and> take 12 r = modifier_state_bytes ms \<and> drop 12 r = drop 12 d)
     \<and> (\<exists>r. ksi_protocol_encode_hook_quarantined d hq = Some (32, r)
          \<and> take 32 r = quarantined_bytes hq \<and> drop 32 r = drop 32 d)
     \<and> (\<exists>r. ksi_protocol_encode_pointer_position d pp = Some (28, r)
          \<and> take 28 r = pointer_position_bytes pp \<and> drop 28 r = drop 28 d)
     \<and> (\<exists>r. ksi_protocol_encode_pointer_buttons d pb = Some (12, r)
          \<and> take 12 r = pointer_buttons_bytes pb \<and> drop 12 r = drop 12 d)
     \<and> (\<exists>r. ksi_protocol_encode_idle_time d it = Some (16, r)
          \<and> take 16 r = idle_time_bytes it \<and> drop 16 r = drop 16 d)"
  using assms kbd_event.writes_exactly mouse_event.writes_exactly key_state.writes_exactly
    modifier_state.writes_exactly quarantined.writes_exactly pointer_position.writes_exactly
    pointer_buttons.writes_exactly idle_time.writes_exactly
  by (intro conjI) simp_all

theorem payload_layouts_witness:
  "\<exists>r. ksi_protocol_encode_key_state (replicate 201 7)
        \<lparr>ks_modifiers_lr = 3, ks_caps_lock = 1, ks_num_lock = 0, ks_scroll_lock = 0,
         ks_logical_keys = replicate KSI_KEY_STATE_BITMAP_BYTES 1,
         ks_physical_keys = replicate KSI_KEY_STATE_BITMAP_BYTES 2\<rparr> = Some (200, r) \<and> drop 200 r = [7]"
  using payload_layouts [of "replicate 60 0" "replicate 201 7"
      "\<lparr>ks_modifiers_lr = 3, ks_caps_lock = 1, ks_num_lock = 0, ks_scroll_lock = 0,
         ks_logical_keys = replicate KSI_KEY_STATE_BITMAP_BYTES 1,
         ks_physical_keys = replicate KSI_KEY_STATE_BITMAP_BYTES 2\<rparr>"]
  by fastforce

section \<open>The printed form of a permission hash\<close>

lemma hex_nibble_digit:
  assumes "n < 16"
  shows "hex_nibble sg (hash_digits ! n) = word_of_nat n"
proof -
  have "\<forall>k \<in> {0, 1, 2, 3, 4, 5, 6, 7, 8, 9, 10, 11, 12, 13, 14, 15}.
      hex_nibble sg (hash_digits ! k) = word_of_nat k"
    by (simp add: hash_digits_def hex_nibble_def char_value_def Let_def)
  moreover from assms have "n \<in> {0, 1, 2, 3, 4, 5, 6, 7, 8, 9, 10, 11, 12, 13, 14, 15}"
    unfolding insert_iff empty_iff by arith
  ultimately show ?thesis by (rule bspec)
qed

lemma length_hash_digits [simp]: "length hash_digits = 16"
  by (simp add: hash_digits_def)

lemma decode_hash_spec:
  assumes "32 \<le> length raw" and "65 \<le> length hex"
  shows "\<exists>h. ksi_protocol_decode_hash (Some raw) (Some hex) = Some (True, Some h) \<and> length h = length hex \<and> h ! 64 = 0
    \<and> (\<forall>i < 32. h ! (2 * i) = hash_digits ! unat (drop_bit 4 (raw ! i)) \<and> h ! (2 * i + 1) = hash_digits ! unat (raw ! i AND 15))"
proof -
  let ?body = "\<lambda>i h. do { b \<leftarrow> rd8 raw i; hi \<leftarrow> rd8 hash_digits (unat (drop_bit 4 b));
     lo \<leftarrow> rd8 hash_digits (unat (b AND 15)); h \<leftarrow> wr8 h (i * 2) hi; wr8 h (i * 2 + 1) lo }"
  let ?P = "\<lambda>i h. length h = length hex \<and> (\<forall>j < i. h ! (2 * j) = hash_digits ! unat (drop_bit 4 (raw ! j))
      \<and> h ! (2 * j + 1) = hash_digits ! unat (raw ! j AND 15))"
  have "\<exists>h. mem_for ?body [0..<32] hex = Some h \<and> ?P 32 h"
    using assms by (intro mem_for_invariant) (auto simp: rd8_def wr8_def nth_list_update less_Suc_eq mult.commute)
  then obtain h where h: "mem_for ?body [0..<32] hex = Some h" "?P 32 h" by blast
  with assms have "ksi_protocol_decode_hash (Some raw) (Some hex) = Some (True, Some (h[64 := 0]))"
    by (simp add: ksi_protocol_decode_hash_def wr8_def)
  with h(2) assms show ?thesis by auto
qed

lemma encode_hash_spec:
  assumes "64 \<le> length hex" and "32 \<le> length raw"
  shows "\<exists>r. ksi_protocol_encode_hash sg hex raw = Some r \<and> length r = length raw \<and> drop 32 r = drop 32 raw
    \<and> (\<forall>i < 32. r ! i = ucast (push_bit 4 (hex_nibble sg (hex ! (2 * i))) OR hex_nibble sg (hex ! (2 * i + 1))))"
  unfolding ksi_protocol_encode_hash_def
  by (rule mem_for_invariant [where P = "\<lambda>i r. length r = length raw \<and> drop 32 r = drop 32 raw \<and>
      (\<forall>j < i. r ! j = ucast (push_bit 4 (hex_nibble sg (hex ! (2 * j))) OR hex_nibble sg (hex ! (2 * j + 1))))"])
    (use assms in \<open>auto simp: rd8_def wr8_def nth_list_update less_Suc_eq mult.commute\<close>)

text \<open>
  C30. Printing a 32-byte permission hash gives 64 lower-case hex digits and a terminating zero, and
  reading the digits back gives the same hash, whether or not plain char is signed.
\<close>

theorem hash_roundtrip:
  assumes "length raw = 32" and "65 \<le> length hex" and "length out = 32"
  shows "\<exists>h. ksi_protocol_decode_hash (Some raw) (Some hex) = Some (True, Some h) \<and> h ! 64 = 0
     \<and> set (take 64 h) \<subseteq> set hash_digits
     \<and> ksi_protocol_encode_hash char_signed h out = Some raw"
proof -
  obtain h where h: "ksi_protocol_decode_hash (Some raw) (Some hex) = Some (True, Some h)" "length h = length hex" "h ! 64 = 0"
      "\<And>i. i < 32 \<Longrightarrow> h ! (2 * i) = hash_digits ! unat (drop_bit 4 (raw ! i)) \<and> h ! (2 * i + 1) = hash_digits ! unat (raw ! i AND 15)"
    using decode_hash_spec [of raw hex] assms by auto
  have digit: "h ! k \<in> set hash_digits" if "k < 64" for k
  proof -
    have "k = 2 * (k div 2) \<or> k = 2 * (k div 2) + 1" "k div 2 < 32" using that by auto
    moreover have "hash_digits ! unat (drop_bit 4 b) \<in> set hash_digits" "hash_digits ! unat (b AND 15) \<in> set hash_digits"
      for b :: byte by (simp_all add: nth_mem)
    ultimately show ?thesis using h(4) [of "k div 2"] by metis
  qed
  obtain r where r: "ksi_protocol_encode_hash char_signed h out = Some r" "length r = 32"
      "\<And>i. i < 32 \<Longrightarrow> r ! i = ucast (push_bit 4 (hex_nibble char_signed (h ! (2 * i))) OR hex_nibble char_signed (h ! (2 * i + 1)))"
    using encode_hash_spec [of h out char_signed] assms h(2) by auto
  have "r = raw"
    by (rule nth_equalityI) (use assms r h(4) in \<open>simp_all add: hex_nibble_digit nibbles_join\<close>)
  with h digit r(1) assms show ?thesis by (auto simp: in_set_conv_nth)
qed
theorem hash_roundtrip_witness:
  "\<exists>h. ksi_protocol_decode_hash (Some (replicate 32 0xA5)) (Some (replicate 65 1)) = Some (True, Some h)
     \<and> ksi_protocol_encode_hash True h (replicate 32 0) = Some (replicate 32 0xA5)"
  using hash_roundtrip [of "replicate 32 0xA5" "replicate 65 1" "replicate 32 0" True] by auto

end
