(* ===== verification/Synthetic_Hooks.thy ===== *)
theory Synthetic_Hooks
  imports Codec
begin

text \<open>
  The expansion of one requested mouse input into the primitive events that the low-level hooks
  see, src/src/synthetic_hooks.c: the table of primitives, the count of one input, the count of a
  batch against a limit, and the expansion itself.
\<close>

section \<open>The table and the operations\<close>

record mouse_primitive =
  prim_trigger :: u32
  prim_flags :: u32
  prim_mask_flags :: bool
  prim_keep_motion :: bool

definition KSI_SYNTHETIC_HOOK_MAX_EXPANSION :: nat where
  [simp]: "KSI_SYNTHETIC_HOOK_MAX_EXPANSION = 11"

definition mouse_primitives :: "mouse_primitive list" where
  "mouse_primitives =
    [\<lparr>prim_trigger = KSI_MOUSE_MOVE,
      prim_flags = KSI_MOUSE_MOVE OR KSI_MOUSE_MOVE_NO_COALESCE OR KSI_MOUSE_VIRTUAL_DESKTOP OR KSI_MOUSE_ABSOLUTE,
      prim_mask_flags = True, prim_keep_motion = True\<rparr>,
     \<lparr>prim_trigger = KSI_MOUSE_WHEEL, prim_flags = KSI_MOUSE_WHEEL, prim_mask_flags = False, prim_keep_motion = False\<rparr>,
     \<lparr>prim_trigger = KSI_MOUSE_HORIZONTAL_WHEEL, prim_flags = KSI_MOUSE_HORIZONTAL_WHEEL, prim_mask_flags = False, prim_keep_motion = False\<rparr>,
     \<lparr>prim_trigger = KSI_MOUSE_LEFT_DOWN, prim_flags = KSI_MOUSE_LEFT_DOWN, prim_mask_flags = False, prim_keep_motion = False\<rparr>,
     \<lparr>prim_trigger = KSI_MOUSE_LEFT_UP, prim_flags = KSI_MOUSE_LEFT_UP, prim_mask_flags = False, prim_keep_motion = False\<rparr>,
     \<lparr>prim_trigger = KSI_MOUSE_RIGHT_DOWN, prim_flags = KSI_MOUSE_RIGHT_DOWN, prim_mask_flags = False, prim_keep_motion = False\<rparr>,
     \<lparr>prim_trigger = KSI_MOUSE_RIGHT_UP, prim_flags = KSI_MOUSE_RIGHT_UP, prim_mask_flags = False, prim_keep_motion = False\<rparr>,
     \<lparr>prim_trigger = KSI_MOUSE_MIDDLE_DOWN, prim_flags = KSI_MOUSE_MIDDLE_DOWN, prim_mask_flags = False, prim_keep_motion = False\<rparr>,
     \<lparr>prim_trigger = KSI_MOUSE_MIDDLE_UP, prim_flags = KSI_MOUSE_MIDDLE_UP, prim_mask_flags = False, prim_keep_motion = False\<rparr>,
     \<lparr>prim_trigger = KSI_MOUSE_X_DOWN, prim_flags = KSI_MOUSE_X_DOWN, prim_mask_flags = False, prim_keep_motion = False\<rparr>,
     \<lparr>prim_trigger = KSI_MOUSE_X_UP, prim_flags = KSI_MOUSE_X_UP, prim_mask_flags = False, prim_keep_motion = False\<rparr>]"

fun count_triggers :: "u32 \<Rightarrow> mouse_primitive list \<Rightarrow> nat \<Rightarrow> nat" where
  "count_triggers flags [] count = count"
| "count_triggers flags (p # ps) count =
    count_triggers flags ps (if flags AND prim_trigger p \<noteq> 0 then count + 1 else count)"

definition ksi_synthetic_hook_input_count :: "ksi_input ptr \<Rightarrow> nat" where
  "ksi_synthetic_hook_input_count input =
    (case input of None \<Rightarrow> 0
     | Some i \<Rightarrow>
         if in_type i \<noteq> KSI_INPUT_MOUSE then 1
         else let count = count_triggers (mi_flags (in_mouse i)) mouse_primitives 0
              in if count = 0 then 1 else count)"

text \<open>The loop of the batch count; \<open>limit - tot\<close> is a \<open>size_t\<close> and wraps.\<close>

fun batch_loop :: "ksi_input list \<Rightarrow> nat list \<Rightarrow> nat \<Rightarrow> nat \<Rightarrow> nat option mem" where
  "batch_loop inputs [] limit tot = Some (Some tot)"
| "batch_loop inputs (i # is) limit tot = do {
    input \<leftarrow> arr_get inputs i;
    let input_count = ksi_synthetic_hook_input_count (Some input);
    if input_count > size_t_sub limit tot then Some None
    else batch_loop inputs is limit (size_t_add tot input_count)
  }"

definition ksi_synthetic_hook_batch_count ::
  "ksi_input list ptr \<Rightarrow> u32 \<Rightarrow> nat \<Rightarrow> nat ptr \<Rightarrow> (bool \<times> nat ptr) mem" where
  "ksi_synthetic_hook_batch_count inputs count limit expanded_count =
    (if expanded_count = None \<or> (count \<noteq> 0 \<and> inputs = None) then Some (False, expanded_count)
     else do {
       r \<leftarrow> batch_loop (case inputs of None \<Rightarrow> [] | Some is \<Rightarrow> is) [0..<unat count] limit 0;
       case r of None \<Rightarrow> Some (False, expanded_count) | Some tot \<Rightarrow> Some (True, Some tot)
     })"

definition mouse_primitive_of :: "ksi_input \<Rightarrow> mouse_primitive \<Rightarrow> ksi_input" where
  "mouse_primitive_of input p =
    (let mouse = in_mouse input;
         flagged = mouse\<lparr>mi_flags := if prim_mask_flags p then mi_flags mouse AND prim_flags p else prim_flags p\<rparr>
     in input\<lparr>in_mouse := if prim_keep_motion p then flagged else flagged\<lparr>mi_dx := 0, mi_dy := 0\<rparr>\<rparr>)"

fun expand_loop :: "ksi_input \<Rightarrow> mouse_primitive list \<Rightarrow> nat \<Rightarrow> ksi_input list \<Rightarrow> (nat \<times> ksi_input list) mem" where
  "expand_loop input [] count outputs = Some (count, outputs)"
| "expand_loop input (p # ps) count outputs =
    (if mi_flags (in_mouse input) AND prim_trigger p = 0 then expand_loop input ps count outputs
     else do {
       outputs \<leftarrow> arr_set outputs count (mouse_primitive_of input p);
       expand_loop input ps (count + 1) outputs
     })"

definition ksi_synthetic_hook_expand_input ::
  "ksi_input ptr \<Rightarrow> ksi_input list ptr \<Rightarrow> (nat \<times> ksi_input list ptr) mem" where
  "ksi_synthetic_hook_expand_input input outputs =
    (case (input, outputs) of
       (Some i, Some out) \<Rightarrow>
         if in_type i \<noteq> KSI_INPUT_MOUSE then do {
           out \<leftarrow> arr_set out 0 i;
           Some (1, Some out)
         }
         else do {
           (count, out) \<leftarrow> expand_loop i mouse_primitives 0 out;
           if count = 0 then do {
             out \<leftarrow> arr_set out 0 i;
             Some (1, Some out)
           }
           else Some (count, Some out)
         }
     | _ \<Rightarrow> Some (0, outputs))"

section \<open>The list of primitives of an input\<close>

definition expansion :: "ksi_input \<Rightarrow> ksi_input list" where
  "expansion i =
    (let ps = map (mouse_primitive_of i) (filter (\<lambda>p. mi_flags (in_mouse i) AND prim_trigger p \<noteq> 0) mouse_primitives)
     in if in_type i \<noteq> KSI_INPUT_MOUSE \<or> ps = [] then [i] else ps)"

lemma length_mouse_primitives [simp]: "length mouse_primitives = 11"
  by (simp add: mouse_primitives_def)

lemma count_triggers_filter:
  "count_triggers flags ps n = n + length (filter (\<lambda>p. flags AND prim_trigger p \<noteq> 0) ps)"
  by (induction ps arbitrary: n) auto

lemma expansion_length: "ksi_synthetic_hook_input_count (Some i) = length (expansion i)"
  by (simp add: ksi_synthetic_hook_input_count_def expansion_def count_triggers_filter Let_def)

lemma expansion_bounds: "0 < length (expansion i) \<and> length (expansion i) \<le> KSI_SYNTHETIC_HOOK_MAX_EXPANSION"
proof -
  have "length (filter (\<lambda>p. mi_flags (in_mouse i) AND prim_trigger p \<noteq> 0) mouse_primitives) \<le> 11"
    by (metis length_filter_le length_mouse_primitives)
  then show ?thesis by (auto simp: expansion_def Let_def)
qed

lemma put_bytes_snoc:
  "n < length out \<Longrightarrow> n = length xs \<Longrightarrow> (xs @ drop n out)[n := x] = (xs @ [x]) @ drop (Suc n) out"
  by (simp add: list_update_append Cons_nth_drop_Suc [symmetric])

lemma expand_loop_eq:
  assumes "length front + length ps \<le> length outputs"
  shows "expand_loop i ps (length front) (front @ drop (length front) outputs) =
    (let new = map (mouse_primitive_of i) (filter (\<lambda>p. mi_flags (in_mouse i) AND prim_trigger p \<noteq> 0) ps)
     in Some (length (front @ new), (front @ new) @ drop (length (front @ new)) outputs))"
  using assms
proof (induction ps arbitrary: "front")
  case Nil
  then show ?case by simp
next
  case (Cons p ps)
  show ?case
  proof (cases "mi_flags (in_mouse i) AND prim_trigger p = 0")
    case True
    with Cons show ?thesis by simp
  next
    case False
    with Cons.prems Cons.IH [of "front @ [mouse_primitive_of i p]"] show ?thesis
      by (simp add: mem_simps put_bytes_snoc Let_def)
  qed
qed

text \<open>
  C26. Expanding an input into an array with room for the documented maximum of 11 elements stays
  inside the array, reports the count that the counting function announces, between 1 and 11, stores the
  primitives of the input in table order, and leaves the rest of the array alone.
\<close>

theorem expand_input_correct:
  assumes "KSI_SYNTHETIC_HOOK_MAX_EXPANSION \<le> length outputs"
  shows "ksi_synthetic_hook_expand_input (Some i) (Some outputs) =
      Some (length (expansion i), Some (expansion i @ drop (length (expansion i)) outputs))
    \<and> ksi_synthetic_hook_input_count (Some i) = length (expansion i)
    \<and> 1 \<le> length (expansion i) \<and> length (expansion i) \<le> KSI_SYNTHETIC_HOOK_MAX_EXPANSION"
proof -
  have "outputs \<noteq> []" using assms by auto
  then have first: "outputs[0 := x] = x # drop 1 outputs" for x :: ksi_input
    by (cases outputs) auto
  have "ksi_synthetic_hook_expand_input (Some i) (Some outputs) =
      Some (length (expansion i), Some (expansion i @ drop (length (expansion i)) outputs))"
    using expand_loop_eq [of "[]" mouse_primitives outputs i] assms \<open>outputs \<noteq> []\<close>
    by (simp add: ksi_synthetic_hook_expand_input_def expansion_def Let_def mem_simps first)
  then show ?thesis
    using expansion_length [of i] expansion_bounds [of i] by (simp add: Suc_le_eq)
qed

theorem expand_input_correct_witness:
  "\<exists>n out. ksi_synthetic_hook_expand_input
      (Some (zero_input\<lparr>in_mouse := zero_mouseinput\<lparr>mi_flags := KSI_MOUSE_MOVE OR KSI_MOUSE_LEFT_DOWN\<rparr>\<rparr>))
      (Some (replicate 11 zero_input)) = Some (n, Some out) \<and> 1 \<le> n \<and> n \<le> 11"
  using expand_input_correct [of "replicate 11 zero_input"] by simp

section \<open>What the primitives mean\<close>

lemma table_flags:
  "\<forall>p \<in> set mouse_primitives. \<forall>q \<in> set mouse_primitives.
     prim_flags p AND prim_trigger q = (if p = q then prim_trigger q else 0)"
  by (simp add: mouse_primitives_def)

lemma table_masked: "\<forall>p \<in> set mouse_primitives. prim_mask_flags p \<longrightarrow> prim_trigger p = KSI_MOUSE_MOVE"
  by (simp add: mouse_primitives_def)

lemma primitive_trigger:
  assumes "p \<in> set mouse_primitives" and "q \<in> set mouse_primitives"
    and "mi_flags (in_mouse i) AND prim_trigger p \<noteq> 0"
  shows "mi_flags (in_mouse (mouse_primitive_of i p)) AND prim_trigger q = (if p = q then prim_trigger q else 0)"
proof (cases "prim_mask_flags p")
  case True
  then have "prim_trigger p = 1" using assms(1) table_masked by simp
  moreover from this assms(3) have "mi_flags (in_mouse i) AND 1 = 1"
    by (simp add: and_one_eq mod2_eq_if split: if_splits)
  ultimately show ?thesis
    using True assms(1,2) table_flags by (auto simp: mouse_primitive_of_def Let_def and.assoc)
next
  case False
  then show ?thesis
    using assms(1,2) table_flags by (simp add: mouse_primitive_of_def Let_def)
qed

lemma distinct_mouse_primitives: "distinct mouse_primitives"
  by (simp add: mouse_primitives_def)

lemma filter_eq_single: "distinct xs \<Longrightarrow> p \<in> set xs \<Longrightarrow> filter (\<lambda>q. p = q) xs = [p]"
  by (induction xs) (auto simp: filter_empty_conv)

lemma triggers_nonzero: "\<forall>p \<in> set mouse_primitives. prim_trigger p \<noteq> 0"
  by (simp add: mouse_primitives_def)

lemma primitive_again:
  assumes "p \<in> set mouse_primitives" and "mi_flags (in_mouse i) AND prim_trigger p \<noteq> 0"
  shows "mouse_primitive_of (mouse_primitive_of i p) p = mouse_primitive_of i p"
  by (simp add: mouse_primitive_of_def Let_def and.assoc)

lemma expansion_primitive:
  assumes "in_type i = KSI_INPUT_MOUSE" and "p \<in> set mouse_primitives"
    and "mi_flags (in_mouse i) AND prim_trigger p \<noteq> 0"
  shows "expansion (mouse_primitive_of i p) = [mouse_primitive_of i p]"
proof -
  have "filter (\<lambda>q. mi_flags (in_mouse (mouse_primitive_of i p)) AND prim_trigger q \<noteq> 0) mouse_primitives
      = filter (\<lambda>q. p = q) mouse_primitives"
    using assms(2,3) primitive_trigger triggers_nonzero by (intro filter_cong) auto
  also have "\<dots> = [p]" using assms(2) distinct_mouse_primitives by (rule filter_eq_single [rotated])
  finally show ?thesis
    using primitive_again [OF assms(2,3)] assms(1)
    by (simp add: expansion_def Let_def mouse_primitive_of_def)
qed

text \<open>
  C27. The primitives of a mouse input mean what the input means: when the input asks for any
  action, its primitives carry exactly one requested action each, in table order and without
  repetition; only the motion primitive keeps the displacement, and type, wheel or button
  data, time and extra information are the input's. Expanding a primitive again changes nothing.
\<close>

theorem expansion_meaning:
  assumes "in_type i = KSI_INPUT_MOUSE"
    and "requested = filter (\<lambda>p. mi_flags (in_mouse i) AND prim_trigger p \<noteq> 0) mouse_primitives"
    and "requested \<noteq> []"
  shows "length (expansion i) = length requested
    \<and> (\<forall>k < length requested. \<forall>p \<in> set mouse_primitives.
         (mi_flags (in_mouse (expansion i ! k)) AND prim_trigger p \<noteq> 0 \<longleftrightarrow> p = requested ! k))
    \<and> (\<forall>e \<in> set (expansion i). in_type e = in_type i
         \<and> mi_mouse_data (in_mouse e) = mi_mouse_data (in_mouse i)
         \<and> mi_time (in_mouse e) = mi_time (in_mouse i)
         \<and> mi_extra_info (in_mouse e) = mi_extra_info (in_mouse i)
         \<and> (if mi_flags (in_mouse e) AND KSI_MOUSE_MOVE \<noteq> 0
             then mi_dx (in_mouse e) = mi_dx (in_mouse i) \<and> mi_dy (in_mouse e) = mi_dy (in_mouse i)
             else mi_dx (in_mouse e) = 0 \<and> mi_dy (in_mouse e) = 0)
         \<and> expansion e = [e])"
proof -
  have eq: "expansion i = map (mouse_primitive_of i) requested"
    using assms by (simp add: expansion_def Let_def)
  have sub: "p \<in> set mouse_primitives \<and> mi_flags (in_mouse i) AND prim_trigger p \<noteq> 0" if "p \<in> set requested" for p
    using that assms(2) by auto
  have one: "mi_flags (in_mouse (mouse_primitive_of i (requested ! k))) AND prim_trigger p \<noteq> 0 \<longleftrightarrow> p = requested ! k"
    if "k < length requested" "p \<in> set mouse_primitives" for k p
    using sub [of "requested ! k"] primitive_trigger [of "requested ! k" p i] that triggers_nonzero by auto
  have move: "hd mouse_primitives \<in> set mouse_primitives" "prim_trigger (hd mouse_primitives) = 1"
    by (simp_all add: mouse_primitives_def)
  have motion: "\<forall>p \<in> set mouse_primitives. prim_keep_motion p \<longleftrightarrow> p = hd mouse_primitives"
    by (simp add: mouse_primitives_def)
  have moved: "mi_flags (in_mouse (mouse_primitive_of i p)) AND 1 \<noteq> 0 \<longleftrightarrow> prim_keep_motion p" if "p \<in> set requested" for p
    using primitive_trigger [of p "hd mouse_primitives" i] sub [OF that] move motion by simp
  have "in_type e = in_type i \<and> mi_mouse_data (in_mouse e) = mi_mouse_data (in_mouse i)
      \<and> mi_time (in_mouse e) = mi_time (in_mouse i) \<and> mi_extra_info (in_mouse e) = mi_extra_info (in_mouse i)
      \<and> (if mi_flags (in_mouse e) AND KSI_MOUSE_MOVE \<noteq> 0
          then mi_dx (in_mouse e) = mi_dx (in_mouse i) \<and> mi_dy (in_mouse e) = mi_dy (in_mouse i)
          else mi_dx (in_mouse e) = 0 \<and> mi_dy (in_mouse e) = 0)
      \<and> expansion e = [e]" if e: "e \<in> set (expansion i)" for e
  proof -
    obtain p where p: "p \<in> set requested" "e = mouse_primitive_of i p" using e eq by auto
    have "expansion e = [e]" using expansion_primitive [OF assms(1)] sub [OF p(1)] p(2) by simp
    with moved [OF p(1)] show ?thesis
      unfolding p(2) KSI_MOUSE_MOVE_def by (simp add: mouse_primitive_of_def Let_def)
  qed
  moreover have "\<forall>k < length requested. \<forall>p \<in> set mouse_primitives.
      (mi_flags (in_mouse (expansion i ! k)) AND prim_trigger p \<noteq> 0 \<longleftrightarrow> p = requested ! k)"
    using one by (simp add: eq)
  moreover have "length (expansion i) = length requested" by (simp add: eq)
  ultimately show ?thesis by blast
qed

theorem expansion_meaning_witness:
  "length (expansion (zero_input\<lparr>in_mouse := zero_mouseinput\<lparr>mi_dx := 17,
      mi_flags := KSI_MOUSE_MOVE OR KSI_MOUSE_LEFT_DOWN OR KSI_MOUSE_LEFT_UP OR KSI_MOUSE_WHEEL\<rparr>\<rparr>)) = 4"
  using conjunct1 [OF expansion_meaning [OF _ refl, of "zero_input\<lparr>in_mouse := zero_mouseinput\<lparr>mi_dx := 17,
      mi_flags := KSI_MOUSE_MOVE OR KSI_MOUSE_LEFT_DOWN OR KSI_MOUSE_LEFT_UP OR KSI_MOUSE_WHEEL\<rparr>\<rparr>"]]
  by (simp add: zero_input_def mouse_primitives_def)

section \<open>Batches\<close>

lemma batch_loop_eq:
  assumes "tot \<le> limit" and "limit < size_t_mod" and "\<forall>k \<in> set is. k < length inputs"
  shows "batch_loop inputs is limit tot =
    (let s = tot + sum_list (map (\<lambda>k. length (expansion (inputs ! k))) is)
     in Some (if s \<le> limit then Some s else None))"
  using assms
proof (induction "is" arbitrary: tot)
  case Nil
  then show ?case by simp
next
  case (Cons k ks)
  define n where "n = length (expansion (inputs ! k))"
  have item: "arr_get inputs k = Some (inputs ! k)" "ksi_synthetic_hook_input_count (Some (inputs ! k)) = n"
    using Cons.prems by (auto simp: mem_simps expansion_length n_def)
  show ?case
  proof (cases "n \<le> limit - tot")
    case True
    with Cons.prems have "tot + n \<le> limit" "size_t_add tot n = tot + n" by auto
    then show ?thesis
      using Cons.IH [of "tot + n"] Cons.prems True
      by (simp add: item Let_def n_def [symmetric] add.assoc)
  next
    case False
    with Cons.prems show ?thesis
      by (auto simp add: item Let_def n_def [symmetric])
  qed
qed

text \<open>
  C28. A batch is accepted exactly when its inputs expand to at most \<open>limit\<close> primitives in total, and
  then that total is stored; a refused batch stores nothing. No subtraction or sum wraps.
\<close>

theorem batch_count_correct:
  assumes "unat count \<le> length inputs" and "limit < size_t_mod"
    and "s = sum_list (map (\<lambda>i. length (expansion i)) (take (unat count) inputs))"
  shows "ksi_synthetic_hook_batch_count (Some inputs) count limit (Some old) =
    Some (if s \<le> limit then (True, Some s) else (False, Some old))"
proof -
  have "map (\<lambda>k. length (expansion (inputs ! k))) [0..<unat count]
      = map (\<lambda>i. length (expansion i)) (take (unat count) inputs)"
    using assms(1) by (intro nth_equalityI) auto
  then show ?thesis
    using assms batch_loop_eq [of 0 limit "[0..<unat count]" inputs]
    by (simp add: ksi_synthetic_hook_batch_count_def Let_def)
qed

theorem batch_count_correct_witness:
  "ksi_synthetic_hook_batch_count (Some (replicate 3 zero_input)) 3 2 (Some 99) = Some (False, Some 99)
   \<and> ksi_synthetic_hook_batch_count (Some (replicate 3 zero_input)) 3 3 (Some 99) = Some (True, Some 3)"
proof -
  have "length (expansion zero_input) = 1"
    by (simp add: expansion_def zero_input_def zero_mouseinput_def)
  then show ?thesis
    using batch_count_correct [of 3 "replicate 3 zero_input" 2 3 99]
      batch_count_correct [of 3 "replicate 3 zero_input" 3 3 99]
    by (simp add: size_t_mod_def sum_list_replicate)
qed

end
