(* ===== verification/Wake_Pipe.thy ===== *)
theory Wake_Pipe
  imports Prelude
begin

text \<open>
  The non-blocking self-pipe that wakes a polling thread, src/src/wake_pipe.c, over the part of
  the operating system it uses: a table of open descriptors and, per pipe, the number of bytes
  that wait in it. A write of one byte to a full pipe fails and is ignored by the code; a read
  returns what is there, up to the size of the buffer, and fails on an empty pipe.
\<close>

section \<open>Descriptors and pipes\<close>

datatype pipe_end = Read_End nat | Write_End nat

record os =
  os_fds :: "int \<Rightarrow> pipe_end option"
  os_bytes :: "nat \<Rightarrow> nat"
  os_capacity :: nat

text \<open>
  The kernel's answer to \<open>pipe2\<close>: failure, or two descriptors and the pipe behind them.
\<close>

definition os_pipe2 :: "(int \<times> int \<times> nat) option \<Rightarrow> os \<Rightarrow> os" where
  "os_pipe2 answer s =
    (case answer of None \<Rightarrow> s
     | Some (r, w, p) \<Rightarrow> s\<lparr>os_fds := (os_fds s)(r \<mapsto> Read_End p, w \<mapsto> Write_End p),
                          os_bytes := (os_bytes s)(p := 0)\<rparr>)"

definition pipe2_fresh :: "(int \<times> int \<times> nat) option \<Rightarrow> os \<Rightarrow> bool" where
  "pipe2_fresh answer s =
    (case answer of None \<Rightarrow> True
     | Some (r, w, p) \<Rightarrow> 0 \<le> r \<and> 0 \<le> w \<and> r \<noteq> w \<and> os_fds s r = None \<and> os_fds s w = None)"

definition os_write_byte :: "int \<Rightarrow> os \<Rightarrow> os" where
  "os_write_byte fd s =
    (case os_fds s fd of
       Some (Write_End p) \<Rightarrow>
         if os_bytes s p < os_capacity s then s\<lparr>os_bytes := (os_bytes s)(p := os_bytes s p + 1)\<rparr> else s
     | _ \<Rightarrow> s)"

definition os_read :: "int \<Rightarrow> nat \<Rightarrow> os \<Rightarrow> int \<times> os" where
  "os_read fd n s =
    (case os_fds s fd of
       Some (Read_End p) \<Rightarrow>
         if os_bytes s p = 0 then (-1, s)
         else (int (min n (os_bytes s p)), s\<lparr>os_bytes := (os_bytes s)(p := os_bytes s p - min n (os_bytes s p))\<rparr>)
     | _ \<Rightarrow> (-1, s))"

definition os_close :: "int \<Rightarrow> os \<Rightarrow> os" where
  "os_close fd s = s\<lparr>os_fds := (os_fds s)(fd := None)\<rparr>"

fun pending :: "int \<Rightarrow> os \<Rightarrow> nat" where
  "pending fd s = (case os_fds s fd of Some (Read_End p) \<Rightarrow> os_bytes s p | _ \<Rightarrow> 0)"

section \<open>The wake pipe\<close>

definition ksi_wake_pipe_open ::
  "(int \<times> int \<times> nat) option \<Rightarrow> int ptr \<Rightarrow> int ptr \<Rightarrow> os \<Rightarrow> int \<times> int ptr \<times> int ptr \<times> os" where
  "ksi_wake_pipe_open answer read_fd write_fd s =
    (if read_fd = None \<or> write_fd = None then (-1, read_fd, write_fd, s)
     else case answer of
       None \<Rightarrow> (-1, Some (-1), Some (-1), os_pipe2 answer s)
     | Some (r, w, p) \<Rightarrow> (0, Some r, Some w, os_pipe2 answer s))"

function drain_loop :: "int \<Rightarrow> os \<Rightarrow> os" where
  "drain_loop fd s = (let (n, s') = os_read fd 64 s in if n > 0 then drain_loop fd s' else s')"
  by pat_completeness auto

termination
  by (relation "measure (\<lambda>(fd, s). pending fd s)")
    (auto simp: os_read_def split: option.splits pipe_end.splits if_splits)

definition ksi_wake_pipe_drain :: "int \<Rightarrow> os \<Rightarrow> os" where
  "ksi_wake_pipe_drain fd s = (if 0 \<le> fd then drain_loop fd s else s)"

definition ksi_wake_pipe_close :: "int ptr \<Rightarrow> int ptr \<Rightarrow> os \<Rightarrow> int ptr \<times> int ptr \<times> os" where
  "ksi_wake_pipe_close read_fd write_fd s =
    (let (read_fd, s) = (case read_fd of Some r \<Rightarrow> if 0 \<le> r then (Some (-1), os_close r s) else (read_fd, s) | None \<Rightarrow> (read_fd, s));
         (write_fd, s) = (case write_fd of Some w \<Rightarrow> if 0 \<le> w then (Some (-1), os_close w s) else (write_fd, s) | None \<Rightarrow> (write_fd, s))
     in (read_fd, write_fd, s))"

declare drain_loop.simps [simp del]

section \<open>What draining and waking do\<close>

lemma drain_loop_eq:
  "drain_loop fd s = (case os_fds s fd of Some (Read_End p) \<Rightarrow> s\<lparr>os_bytes := (os_bytes s)(p := 0)\<rparr> | _ \<Rightarrow> s)"
proof (induction fd s rule: drain_loop.induct)
  case (1 fd s)
  show ?case
  proof (cases "\<exists>p. os_fds s fd = Some (Read_End p) \<and> os_bytes s p \<noteq> 0")
    case True
    then obtain p where p: "os_fds s fd = Some (Read_End p)" "os_bytes s p \<noteq> 0" by auto
    define s' where "s' = s\<lparr>os_bytes := (os_bytes s)(p := os_bytes s p - min 64 (os_bytes s p))\<rparr>"
    have rd: "os_read fd 64 s = (int (min 64 (os_bytes s p)), s')" using p by (simp add: os_read_def s'_def)
    then have "drain_loop fd s' = (case os_fds s' fd of Some (Read_End p) \<Rightarrow> s'\<lparr>os_bytes := (os_bytes s')(p := 0)\<rparr> | _ \<Rightarrow> s')"
      using "1.IH" [OF refl rd [symmetric]] p(2) by simp
    then show ?thesis using p by (subst drain_loop.simps) (simp add: rd s'_def)
  next
    case False
    then show ?thesis
      by (subst drain_loop.simps) (auto simp: os_read_def Let_def fun_upd_idem split: option.splits pipe_end.splits)
  qed
qed

lemma os_write_byte_fds [simp]: "os_fds (os_write_byte fd s) = os_fds s"
  "os_capacity (os_write_byte fd s) = os_capacity s"
  by (auto simp: os_write_byte_def split: option.splits pipe_end.splits)

lemma drain_loop_fds [simp]: "os_fds (drain_loop fd s) = os_fds s"
  "os_capacity (drain_loop fd s) = os_capacity s"
  by (auto simp: drain_loop_eq split: option.splits pipe_end.splits)

lemma wake_then_pending:
  assumes "os_fds s r = Some (Read_End p)" and "os_fds s w = Some (Write_End p)" and "0 < os_capacity s"
  shows "0 < pending r (os_write_byte w s)"
  using assms by (auto simp: os_write_byte_def)

lemma drain_pending [simp]: "pending fd (drain_loop fd s) = 0"
  by (auto simp: drain_loop_eq split: option.splits pipe_end.splits)

text \<open>
  C29. The life of a wake pipe: after a successful open, a wake makes the read end readable
  however many wakes came before, a drain empties it, and closing closes exactly its two descriptors and
  forgets them, so that closing again closes nothing.
\<close>

theorem wake_pipe_lifecycle:
  assumes "pipe2_fresh (Some (r, w, p)) s" and "0 < os_capacity s"
    and "ksi_wake_pipe_open (Some (r, w, p)) (Some x) (Some y) s = (rc, rd, wr, s1)"
    and "(rd', wr', s3) = ksi_wake_pipe_close rd wr s2" and "os_fds s2 = os_fds s1" and "os_capacity s2 = os_capacity s1"
  shows "rc = 0 \<and> rd = Some r \<and> wr = Some w \<and> 0 < pending r (os_write_byte w s2)
    \<and> pending r (ksi_wake_pipe_drain r s2) = 0
    \<and> rd' = Some (-1) \<and> wr' = Some (-1) \<and> os_fds s3 = os_fds s
    \<and> ksi_wake_pipe_close rd' wr' s4 = (rd', wr', s4)"
proof -
  have s1: "rc = 0" "rd = Some r" "wr = Some w" "os_fds s1 = (os_fds s)(r \<mapsto> Read_End p, w \<mapsto> Write_End p)"
    "os_capacity s1 = os_capacity s"
    using assms(3) by (auto simp: ksi_wake_pipe_open_def os_pipe2_def)
  have fresh: "0 \<le> r" "0 \<le> w" "r \<noteq> w" "os_fds s r = None" "os_fds s w = None"
    using assms(1) by (auto simp: pipe2_fresh_def)
  have "0 < pending r (os_write_byte w s2)"
    using s1 fresh assms by (intro wake_then_pending [of _ _ p]) auto
  moreover have "pending r (ksi_wake_pipe_drain r s2) = 0"
    using fresh(1) by (simp only: ksi_wake_pipe_drain_def if_True drain_pending)
  moreover have "rd' = Some (-1)" "wr' = Some (-1)" "os_fds s3 = os_fds s"
    using assms(4,5) s1 fresh by (auto simp: ksi_wake_pipe_close_def os_close_def)
  ultimately show ?thesis
    using s1(1-3) by (simp add: ksi_wake_pipe_close_def)
qed

theorem wake_pipe_lifecycle_witness:
  "\<exists>s1. ksi_wake_pipe_open (Some (3, 4, 0)) (Some 7) (Some 8)
      \<lparr>os_fds = (\<lambda>_. None), os_bytes = (\<lambda>_. 0), os_capacity = 2\<rparr> = (0, Some 3, Some 4, s1)
    \<and> pending 3 (os_write_byte 4 (os_write_byte 4 (os_write_byte 4 s1))) > 0
    \<and> (\<exists>s3. ksi_wake_pipe_close (Some 3) (Some 4) s1 = (Some (-1), Some (-1), s3) \<and> os_fds s3 = (\<lambda>_. None))"
proof -
  define s where "s = \<lparr>os_fds = (\<lambda>_. None), os_bytes = (\<lambda>_. 0), os_capacity = 2\<rparr>"
  obtain rc rd wr s1 where o: "ksi_wake_pipe_open (Some (3, 4, 0)) (Some 7) (Some 8) s = (rc, rd, wr, s1)"
    by (metis prod.exhaust)
  define s2 where "s2 = os_write_byte 4 (os_write_byte 4 s1)"
  obtain rd' wr' s3 where c: "ksi_wake_pipe_close rd wr s1 = (rd', wr', s3)" by (metis prod.exhaust)
  obtain rd'' wr'' s3' where c2: "ksi_wake_pipe_close rd wr s2 = (rd'', wr'', s3')" by (metis prod.exhaust)
  have fresh: "pipe2_fresh (Some (3, 4, 0)) s" "0 < os_capacity s" by (simp_all add: s_def pipe2_fresh_def)
  note here = wake_pipe_lifecycle [OF fresh o]
  from here [OF c [symmetric] refl refl] here [OF c2 [symmetric]] c o show ?thesis
    by (simp add: s_def s2_def)
qed

end
