(* ===== verification/Ring.thy ===== *)
theory Ring
  imports Prelude
begin

text \<open>
  Circular buffers and the contract of a bounded queue. A ring is an array of slots, the index of
  the oldest element and the number of elements; \<open>ring_items\<close> reads the queue off it. The locale
  \<open>bounded_queue\<close> is what the daemon relies on when it hands work between threads; it is
  interpreted for the byte ring of src/src/pipe_ring.c in theory Pipe\_Ring and for the job ring
  of src/src/worker_pool.c in theory Worker\_Pool.
\<close>

section \<open>Reading the queue off a ring\<close>

definition ring_items :: "'a list \<Rightarrow> nat \<Rightarrow> nat \<Rightarrow> 'a list" where
  "ring_items slots head count = map (\<lambda>i. slots ! ((head + i) mod length slots)) [0..<count]"

lemma length_ring_items [simp]: "length (ring_items slots head count) = count"
  by (simp add: ring_items_def)

lemma ring_items_0 [simp]: "ring_items slots head 0 = []"
  by (simp add: ring_items_def)

lemma ring_index_inj:
  assumes "i < n" and "j < n" and "(h + i) mod n = (h + j) mod (n :: nat)"
  shows "i = j"
proof -
  have gap: "k = l" if "k \<le> l" "l < n" "(h + k) mod n = (h + l) mod n" for k l
  proof -
    have "n dvd (h + l) - (h + k)" using that mod_eq_dvd_iff_nat [of "h + k" "h + l" n] by auto
    moreover have "l - k < n" using that by simp
    ultimately have "\<not> 0 < l - k" using nat_dvd_not_less [of "l - k" n] by auto
    with that(1) show ?thesis by simp
  qed
  show ?thesis using gap [of i j] gap [of j i] assms by (cases "i \<le> j") auto
qed

lemma ring_push:
  assumes "count < length slots"
  shows "ring_items (slots[(head + count) mod length slots := x]) head (Suc count) = ring_items slots head count @ [x]"
proof -
  have "slots[(head + count) mod length slots := x] ! ((head + i) mod length slots) = slots ! ((head + i) mod length slots)"
    if "i < count" for i
    using ring_index_inj [of i "length slots" count head] that assms by (intro nth_list_update_neq) auto
  moreover have "(head + count) mod length slots < length slots" using assms by (intro mod_less_divisor) auto
  ultimately show ?thesis by (simp add: ring_items_def)
qed

lemma ring_pop:
  assumes "0 < count" and "count \<le> length slots" and "head < length slots"
  shows "ring_items slots head count
    = slots ! head # ring_items (slots[head := z]) ((head + 1) mod length slots) (count - 1)"
proof -
  have "[0..<count] = 0 # map Suc [0..<count - 1]"
    using assms(1) by (simp add: upt_conv_Cons map_Suc_upt)
  moreover have "slots[head := z] ! (((head + 1) mod length slots + i) mod length slots) = slots ! ((head + Suc i) mod length slots)"
    if "i < count - 1" for i
  proof -
    have "((head + 1) mod length slots + i) mod length slots = (head + Suc i) mod length slots"
      by (simp add: mod_add_left_eq)
    moreover have "(head + Suc i) mod length slots \<noteq> head"
    proof
      assume "(head + Suc i) mod length slots = head"
      then have "(head + Suc i) mod length slots = (head + 0) mod length slots" using assms(3) by simp
      moreover have "Suc i < length slots" "0 < length slots" using that assms(1,2) by linarith+
      ultimately show False
        using ring_index_inj [of "Suc i" "length slots" 0 head] by blast
    qed
    ultimately show ?thesis by simp
  qed
  ultimately show ?thesis using assms(3) by (simp add: ring_items_def)
qed

section \<open>The contract of a bounded queue\<close>

datatype 'a queue_op = Push 'a | Pop

datatype 'a queue_answer = Pushed bool | Popped "'a option"

text \<open>The abstract queue: a list of at most \<open>cap\<close> elements, possibly closed for pushes.\<close>

fun list_step :: "nat \<Rightarrow> bool \<Rightarrow> 'a list \<Rightarrow> 'a queue_op \<Rightarrow> 'a queue_answer \<times> 'a list" where
  "list_step cap closed xs (Push a) =
    (if closed \<or> length xs \<ge> cap then (Pushed False, xs) else (Pushed True, xs @ [a]))"
| "list_step cap closed [] Pop = (Popped None, [])"
| "list_step cap closed (x # xs) Pop = (Popped (Some x), xs)"

fun list_run :: "nat \<Rightarrow> bool \<Rightarrow> 'a list \<Rightarrow> 'a queue_op list \<Rightarrow> 'a queue_answer list \<times> 'a list" where
  "list_run cap closed xs [] = ([], xs)"
| "list_run cap closed xs (op # ops) =
    (let (a, ys) = list_step cap closed xs op; (as, zs) = list_run cap closed ys ops in (a # as, zs))"

text \<open>A queue is run through its two operations, which answer \<^const>\<open>None\<close> when they refuse.\<close>

fun queue_step :: "('q \<Rightarrow> 'a \<Rightarrow> 'q option) \<Rightarrow> ('q \<Rightarrow> ('a \<times> 'q) option) \<Rightarrow> 'q \<Rightarrow> 'a queue_op \<Rightarrow> 'a queue_answer \<times> 'q" where
  "queue_step push pop q (Push a) = (case push q a of None \<Rightarrow> (Pushed False, q) | Some q' \<Rightarrow> (Pushed True, q'))"
| "queue_step push pop q Pop = (case pop q of None \<Rightarrow> (Popped None, q) | Some (a, q') \<Rightarrow> (Popped (Some a), q'))"

fun queue_run :: "('q \<Rightarrow> 'a \<Rightarrow> 'q option) \<Rightarrow> ('q \<Rightarrow> ('a \<times> 'q) option) \<Rightarrow> 'q \<Rightarrow> 'a queue_op list \<Rightarrow> 'a queue_answer list \<times> 'q" where
  "queue_run push pop q [] = ([], q)"
| "queue_run push pop q (op # ops) =
    (let (a, q') = queue_step push pop q op; (as, q'') = queue_run push pop q' ops in (a # as, q''))"

fun op_item_ok :: "('a \<Rightarrow> bool) \<Rightarrow> 'a queue_op \<Rightarrow> bool" where
  "op_item_ok ok (Push a) = ok a"
| "op_item_ok ok Pop = True"

locale bounded_queue =
  fixes wf :: "'q \<Rightarrow> bool"
    and items :: "'q \<Rightarrow> 'a list"
    and capacity :: "'q \<Rightarrow> nat"
    and closed :: "'q \<Rightarrow> bool"
    and item_ok :: "'q \<Rightarrow> 'a \<Rightarrow> bool"
    and push :: "'q \<Rightarrow> 'a \<Rightarrow> 'q option"
    and pop :: "'q \<Rightarrow> ('a \<times> 'q) option"
  assumes bounded: "wf q \<Longrightarrow> length (items q) \<le> capacity q"
    and push_refused: "wf q \<Longrightarrow> item_ok q a \<Longrightarrow> push q a = None \<longleftrightarrow> closed q \<or> length (items q) = capacity q"
    and push_accepted: "wf q \<Longrightarrow> item_ok q a \<Longrightarrow> push q a = Some q' \<Longrightarrow>
      wf q' \<and> items q' = items q @ [a] \<and> capacity q' = capacity q \<and> closed q' = closed q \<and> item_ok q' = item_ok q"
    and pop_refused: "wf q \<Longrightarrow> pop q = None \<longleftrightarrow> items q = []"
    and pop_accepted: "wf q \<Longrightarrow> pop q = Some (a, q') \<Longrightarrow>
      wf q' \<and> items q = a # items q' \<and> capacity q' = capacity q \<and> closed q' = closed q \<and> item_ok q' = item_ok q"
begin

lemma step_refines:
  assumes "wf q" and "op_item_ok (item_ok q) op"
  shows "\<exists>q'. queue_step push pop q op = (fst (list_step (capacity q) (closed q) (items q) op), q')
    \<and> items q' = snd (list_step (capacity q) (closed q) (items q) op)
    \<and> wf q' \<and> capacity q' = capacity q \<and> closed q' = closed q \<and> item_ok q' = item_ok q"
proof (cases op)
  case (Push a)
  then have ok: "item_ok q a" using assms(2) by simp
  note bound = bounded [OF assms(1)] push_refused [OF assms(1) ok]
  show ?thesis
  proof (cases "push q a")
    case None
    with bound show ?thesis using assms(1) by (auto simp: Push)
  next
    case (Some q')
    with bound push_accepted [OF assms(1) ok Some] show ?thesis by (simp add: Push)
  qed
next
  case Pop
  show ?thesis
  proof (cases "pop q")
    case None
    then have "items q = []" using pop_refused [OF assms(1)] by simp
    with None assms(1) show ?thesis by (simp add: Pop)
  next
    case (Some r)
    then obtain a q' where r: "pop q = Some (a, q')" by (cases r) auto
    with pop_accepted [OF assms(1) r] show ?thesis by (simp add: Pop)
  qed
qed

lemma run_refines:
  assumes "wf q" and "list_all (op_item_ok (item_ok q)) ops"
  shows "\<exists>q'. queue_run push pop q ops = (fst (list_run (capacity q) (closed q) (items q) ops), q')
    \<and> items q' = snd (list_run (capacity q) (closed q) (items q) ops) \<and> wf q' \<and> length (items q') \<le> capacity q"
  using assms
proof (induction ops arbitrary: q)
  case Nil
  then show ?case using bounded by simp
next
  case (Cons op ops)
  obtain q1 where q1: "queue_step push pop q op = (fst (list_step (capacity q) (closed q) (items q) op), q1)"
      "items q1 = snd (list_step (capacity q) (closed q) (items q) op)"
      "wf q1" "capacity q1 = capacity q" "closed q1 = closed q" "item_ok q1 = item_ok q"
    using step_refines [of q op] Cons.prems by auto
  have "list_all (op_item_ok (item_ok q1)) ops" using Cons.prems q1(6) by simp
  from Cons.IH [OF q1(3) this] q1(2,4,5) show ?case
    by (auto simp: q1(1) Let_def case_prod_beta)
qed

end

end
