(* ===== verification/Pipe_Ring.thy ===== *)
theory Pipe_Ring
  imports Wake_Pipe Ring
begin

text \<open>
  The byte ring that hands fixed-size items from any thread to one polling thread,
  src/src/pipe_ring.c. Every operation runs under the ring's mutex, so each is one atomic step on
  the structure; only the wake-up byte is written after the mutex is released, which the
  last section treats as a step of its own. Offsets and counters are \<open>size_t\<close> and wrap.
\<close>

section \<open>State and operations\<close>

record ksi_pipe_ring_implementation =
  pr_buffer :: bytes
  pr_element_size :: nat
  pr_capacity :: nat
  pr_head :: nat
  pr_count :: nat
  pr_wake_read_fd :: int
  pr_wake_write_fd :: int

record ksi_pipe_ring =
  ring_implementation :: "ksi_pipe_ring_implementation ptr"

text \<open>
  The answers of the environment to \<open>ksi_pipe_ring_init\<close>: whether the two allocations and the
  mutex initialisation succeed, and what \<open>pipe2\<close> returns.
\<close>

record ring_init_answers =
  ans_structure :: bool
  ans_buffer :: bool
  ans_mutex :: bool
  ans_pipe :: "(int \<times> int \<times> nat) option"

definition ksi_pipe_ring_init ::
  "ring_init_answers \<Rightarrow> ksi_pipe_ring ptr \<Rightarrow> nat \<Rightarrow> nat \<Rightarrow> os \<Rightarrow> int \<times> ksi_pipe_ring ptr \<times> os" where
  "ksi_pipe_ring_init ans ring element_size capacity s =
    (case ring of None \<Rightarrow> (-1, None, s)
     | Some r \<Rightarrow>
         if element_size = 0 \<or> capacity = 0 then (-1, Some r, s)
         else let r = r\<lparr>ring_implementation := None\<rparr> in
           if \<not> ans_structure ans then (-1, Some r, s)
           else if \<not> ans_buffer ans then (-1, Some r, s)
           else if \<not> ans_mutex ans then (-1, Some r, s)
           else case ans_pipe ans of
             None \<Rightarrow> (-1, Some r, os_pipe2 None s)
           | Some (rd, wr, p) \<Rightarrow>
               (0, Some (r\<lparr>ring_implementation := Some
                  \<lparr>pr_buffer = replicate (capacity * element_size) 0, pr_element_size = element_size,
                   pr_capacity = capacity, pr_head = 0, pr_count = 0,
                   pr_wake_read_fd = rd, pr_wake_write_fd = wr\<rparr>\<rparr>),
                os_pipe2 (Some (rd, wr, p)) s))"

definition ksi_pipe_ring_close :: "ksi_pipe_ring ptr \<Rightarrow> os \<Rightarrow> ksi_pipe_ring ptr \<times> os" where
  "ksi_pipe_ring_close ring s =
    (case ring of None \<Rightarrow> (ring, s)
     | Some r \<Rightarrow>
         case ring_implementation r of None \<Rightarrow> (ring, s)
         | Some implementation \<Rightarrow>
             let s = (if 0 \<le> pr_wake_read_fd implementation then os_close (pr_wake_read_fd implementation) s else s);
                 s = (if 0 \<le> pr_wake_write_fd implementation then os_close (pr_wake_write_fd implementation) s else s)
             in (Some (r\<lparr>ring_implementation := None\<rparr>), s))"

text \<open>The critical section of a push.\<close>

definition push_locked :: "ksi_pipe_ring_implementation \<Rightarrow> bytes \<Rightarrow> nat \<Rightarrow> (bool \<times> ksi_pipe_ring_implementation) mem" where
  "push_locked implementation item reserve =
    (if size_t_add (pr_count implementation) reserve < pr_capacity implementation then do {
       let tail = size_t_add (pr_head implementation) (pr_count implementation) mod pr_capacity implementation;
       bs \<leftarrow> mem_read item 0 (pr_element_size implementation);
       buffer \<leftarrow> mem_copy (pr_buffer implementation) (size_t_mul tail (pr_element_size implementation)) bs;
       Some (True, implementation\<lparr>pr_buffer := buffer, pr_count := size_t_add (pr_count implementation) 1\<rparr>)
     }
     else Some (False, implementation))"

definition ksi_pipe_ring_push_reserved ::
  "ksi_pipe_ring ptr \<Rightarrow> bytes ptr \<Rightarrow> nat \<Rightarrow> os \<Rightarrow> (bool \<times> ksi_pipe_ring ptr \<times> os) mem" where
  "ksi_pipe_ring_push_reserved ring item reserve s =
    (case (ring, item) of
       (Some r, Some bs) \<Rightarrow>
         (case ring_implementation r of None \<Rightarrow> Some (False, ring, s)
          | Some implementation \<Rightarrow> do {
              (pushed, implementation) \<leftarrow> push_locked implementation bs reserve;
              Some (pushed, Some (r\<lparr>ring_implementation := Some implementation\<rparr>),
                if pushed then os_write_byte (pr_wake_write_fd implementation) s else s)
            })
     | _ \<Rightarrow> Some (False, ring, s))"

definition ksi_pipe_ring_push :: "ksi_pipe_ring ptr \<Rightarrow> bytes ptr \<Rightarrow> os \<Rightarrow> (bool \<times> ksi_pipe_ring ptr \<times> os) mem" where
  "ksi_pipe_ring_push ring item s = ksi_pipe_ring_push_reserved ring item 0 s"

text \<open>The critical section of a pop, on a ring that may be empty.\<close>

definition pop_locked :: "ksi_pipe_ring_implementation \<Rightarrow> bytes \<Rightarrow> (bool \<times> ksi_pipe_ring_implementation \<times> bytes) mem" where
  "pop_locked implementation item =
    (if pr_count implementation = 0 then Some (False, implementation, item)
     else do {
       let at = size_t_mul (pr_head implementation) (pr_element_size implementation);
       bs \<leftarrow> mem_read (pr_buffer implementation) at (pr_element_size implementation);
       item \<leftarrow> mem_copy item 0 bs;
       buffer \<leftarrow> mem_zero (pr_buffer implementation) at (pr_element_size implementation);
       Some (True,
         implementation\<lparr>pr_buffer := buffer,
           pr_head := size_t_add (pr_head implementation) 1 mod pr_capacity implementation,
           pr_count := size_t_sub (pr_count implementation) 1\<rparr>, item)
     })"

definition ksi_pipe_ring_pop :: "ksi_pipe_ring ptr \<Rightarrow> bytes ptr \<Rightarrow> (bool \<times> ksi_pipe_ring ptr \<times> bytes ptr) mem" where
  "ksi_pipe_ring_pop ring item =
    (case (ring, item) of
       (Some r, Some bs) \<Rightarrow>
         (case ring_implementation r of None \<Rightarrow> Some (False, ring, item)
          | Some implementation \<Rightarrow> do {
              (popped, implementation, bs) \<leftarrow> pop_locked implementation bs;
              Some (popped, Some (r\<lparr>ring_implementation := Some implementation\<rparr>), Some bs)
            })
     | _ \<Rightarrow> Some (False, ring, item))"

definition ksi_pipe_ring_wake_fd :: "ksi_pipe_ring ptr \<Rightarrow> int" where
  "ksi_pipe_ring_wake_fd ring =
    (case ring of None \<Rightarrow> -1
     | Some r \<Rightarrow> case ring_implementation r of None \<Rightarrow> -1 | Some implementation \<Rightarrow> pr_wake_read_fd implementation)"

definition ksi_pipe_ring_wake :: "ksi_pipe_ring ptr \<Rightarrow> os \<Rightarrow> os" where
  "ksi_pipe_ring_wake ring s =
    (case ring of None \<Rightarrow> s
     | Some r \<Rightarrow> case ring_implementation r of None \<Rightarrow> s | Some implementation \<Rightarrow> os_write_byte (pr_wake_write_fd implementation) s)"

definition ksi_pipe_ring_drain_wake :: "ksi_pipe_ring ptr \<Rightarrow> os \<Rightarrow> os" where
  "ksi_pipe_ring_drain_wake ring s =
    (case ring of None \<Rightarrow> s
     | Some r \<Rightarrow> case ring_implementation r of None \<Rightarrow> s | Some implementation \<Rightarrow> drain_loop (pr_wake_read_fd implementation) s)"

section \<open>The ring as a queue of items\<close>

definition slots :: "ksi_pipe_ring_implementation \<Rightarrow> bytes list" where
  "slots r = map (\<lambda>i. get_bytes (pr_buffer r) (i * pr_element_size r) (pr_element_size r)) [0..<pr_capacity r]"

definition ring_queue :: "ksi_pipe_ring_implementation \<Rightarrow> bytes list" where
  "ring_queue r = ring_items (slots r) (pr_head r) (pr_count r)"

text \<open>
  The buffer is an object in memory, so its size is at most \<open>PTRDIFF_MAX\<close>.
\<close>

definition ring_wf :: "ksi_pipe_ring_implementation \<Rightarrow> bool" where
  "ring_wf r \<longleftrightarrow> 0 < pr_element_size r \<and> 0 < pr_capacity r
    \<and> length (pr_buffer r) = pr_capacity r * pr_element_size r \<and> length (pr_buffer r) < 2 ^ 63
    \<and> pr_head r < pr_capacity r \<and> pr_count r \<le> pr_capacity r"

lemma length_slots [simp]: "length (slots r) = pr_capacity r"
  by (simp add: slots_def)

lemma slot_room:
  assumes "i < (c :: nat)"
  shows "i * n + n \<le> c * n"
proof -
  have "Suc i * n \<le> c * n" using assms by (intro mult_le_mono1) simp
  then show ?thesis by simp
qed

lemma slots_put:
  assumes "ring_wf r" and "i < pr_capacity r" and "length bs = pr_element_size r"
  shows "slots (r\<lparr>pr_buffer := put_bytes (pr_buffer r) (i * pr_element_size r) bs\<rparr>) = (slots r)[i := bs]"
proof (rule nth_equalityI)
  fix j assume j: "j < length (slots (r\<lparr>pr_buffer := put_bytes (pr_buffer r) (i * pr_element_size r) bs\<rparr>))"
  have len: "length (pr_buffer r) = pr_capacity r * pr_element_size r" using assms(1) by (simp add: ring_wf_def)
  have room: "k * pr_element_size r + pr_element_size r \<le> length (pr_buffer r)" if "k < pr_capacity r" for k
    using slot_room [OF that] len by simp
  consider "j = i" | "j < i" | "i < j" by arith
  then show "slots (r\<lparr>pr_buffer := put_bytes (pr_buffer r) (i * pr_element_size r) bs\<rparr>) ! j = (slots r)[i := bs] ! j"
  proof cases
    case 1
    then show ?thesis using j room [OF assms(2)] assms(3) by (simp add: slots_def get_put_same)
  next
    case 2
    then show ?thesis
      using j slot_room [OF 2, of "pr_element_size r"] room [OF assms(2)] by (simp add: slots_def get_put_before)
  next
    case 3
    then show ?thesis
      using j slot_room [OF 3, of "pr_element_size r"] assms(3) room [of j] room [OF assms(2)]
      by (simp add: slots_def get_put_after)
  qed
qed simp

lemma ring_wf_sizes:
  assumes "ring_wf r"
  shows "pr_capacity r < 2 ^ 63" and "i < pr_capacity r \<Longrightarrow> i * pr_element_size r < size_t_mod"
    and "i < pr_capacity r \<Longrightarrow> i * pr_element_size r + pr_element_size r \<le> length (pr_buffer r)"
    and "size_t_add (pr_head r) (pr_count r) = pr_head r + pr_count r"
    and "size_t_add (pr_head r) 1 = pr_head r + 1"
    and "pr_count r < size_t_mod" and "size_t_add (pr_count r) 1 = pr_count r + 1"
proof -
  have len: "pr_capacity r * pr_element_size r < 2 ^ 63" "0 < pr_element_size r" "pr_head r < pr_capacity r" "pr_count r \<le> pr_capacity r"
    using assms by (auto simp: ring_wf_def)
  have "pr_capacity r \<le> pr_capacity r * pr_element_size r" using len(2) by simp
  then show cap: "pr_capacity r < 2 ^ 63" using len(1) by (rule le_less_trans)
  show room: "i < pr_capacity r \<Longrightarrow> i * pr_element_size r + pr_element_size r \<le> length (pr_buffer r)"
    using slot_room assms by (simp add: ring_wf_def)
  show "i < pr_capacity r \<Longrightarrow> i * pr_element_size r < size_t_mod"
    using room len assms by (simp add: size_t_mod_def ring_wf_def)
  show "size_t_add (pr_head r) (pr_count r) = pr_head r + pr_count r" "size_t_add (pr_head r) 1 = pr_head r + 1"
    "pr_count r < size_t_mod" "size_t_add (pr_count r) 1 = pr_count r + 1"
    using cap len by (simp_all add: size_t_mod_def)
qed

lemma push_locked_full:
  "size_t_add (pr_count r) reserve \<ge> pr_capacity r \<Longrightarrow> push_locked r item reserve = Some (False, r)"
  by (simp add: push_locked_def)

lemma push_locked_room:
  assumes "ring_wf r" and "length item = pr_element_size r"
    and "size_t_add (pr_count r) reserve < pr_capacity r" and "pr_count r < pr_capacity r"
  shows "\<exists>r'. push_locked r item reserve = Some (True, r') \<and> ring_wf r' \<and> ring_queue r' = ring_queue r @ [item]
    \<and> pr_capacity r' = pr_capacity r \<and> pr_element_size r' = pr_element_size r \<and> pr_count r' = pr_count r + 1
    \<and> pr_wake_read_fd r' = pr_wake_read_fd r \<and> pr_wake_write_fd r' = pr_wake_write_fd r"
proof -
  define tail where "tail = (pr_head r + pr_count r) mod pr_capacity r"
  have tail: "tail < pr_capacity r" using assms(1) by (simp add: tail_def ring_wf_def)
  define buf where "buf = put_bytes (pr_buffer r) (tail * pr_element_size r) item"
  have fits: "tail * pr_element_size r + length item \<le> length (pr_buffer r)"
    using ring_wf_sizes(3) [OF assms(1) tail] assms(2) by simp
  have "push_locked r item reserve = Some (True, r\<lparr>pr_buffer := buf, pr_count := pr_count r + 1\<rparr>)"
    using assms ring_wf_sizes [OF assms(1)] tail fits
    by (simp add: push_locked_def Let_def tail_def [symmetric] mem_read_in mem_copy_in get_bytes_all buf_def)
  moreover have "slots (r\<lparr>pr_buffer := buf, pr_count := pr_count r + 1\<rparr>) = (slots r)[tail := item]"
    using slots_put [OF assms(1) tail assms(2)] by (simp add: buf_def slots_def)
  then have "ring_queue (r\<lparr>pr_buffer := buf, pr_count := pr_count r + 1\<rparr>) = ring_queue r @ [item]"
    using ring_push [of "pr_count r" "slots r" "pr_head r" item] assms(4) by (simp add: ring_queue_def tail_def)
  moreover have "ring_wf (r\<lparr>pr_buffer := buf, pr_count := pr_count r + 1\<rparr>)"
    using assms(1,4) fits by (auto simp: ring_wf_def buf_def)
  ultimately show ?thesis by simp
qed

lemma pop_locked_empty: "pr_count r = 0 \<Longrightarrow> pop_locked r item = Some (False, r, item)"
  by (simp add: pop_locked_def)

lemma pop_locked_some:
  assumes "ring_wf r" and "pr_count r \<noteq> 0" and "pr_element_size r \<le> length item"
  shows "\<exists>r' x. pop_locked r item = Some (True, r', put_bytes item 0 x) \<and> length x = pr_element_size r
    \<and> ring_wf r' \<and> ring_queue r = x # ring_queue r'
    \<and> pr_capacity r' = pr_capacity r \<and> pr_element_size r' = pr_element_size r \<and> pr_count r' = pr_count r - 1
    \<and> pr_wake_read_fd r' = pr_wake_read_fd r \<and> pr_wake_write_fd r' = pr_wake_write_fd r"
proof -
  define n h where "n = pr_element_size r" and "h = pr_head r"
  have h: "h < pr_capacity r" "h * n + n \<le> length (pr_buffer r)" "size_t_mul h n = h * n"
    using assms(1) ring_wf_sizes(2,3) [OF assms(1), of h] by (auto simp: ring_wf_def h_def n_def)
  define x where "x = get_bytes (pr_buffer r) (h * n) n"
  define r' where "r' = r\<lparr>pr_buffer := put_bytes (pr_buffer r) (h * n) (replicate n 0),
      pr_head := (h + 1) mod pr_capacity r, pr_count := pr_count r - 1\<rparr>"
  have len: "length x = n" using h(2) by (simp add: x_def)
  have "pop_locked r item = Some (True, r', put_bytes item 0 x)"
    using assms(2,3) h len ring_wf_sizes(5,6) [OF assms(1)]
    by (simp add: pop_locked_def Let_def n_def [symmetric] h_def [symmetric] mem_simps x_def [symmetric] r'_def)
  moreover have "slots r' = (slots r)[h := replicate n 0]"
    using slots_put [OF assms(1) h(1), of "replicate n 0"] by (simp add: r'_def slots_def n_def)
  then have "ring_queue r = x # ring_queue r'"
    using ring_pop [of "pr_count r" "slots r" h "replicate n 0"] assms(1,2) h(1)
    by (simp add: ring_queue_def ring_wf_def r'_def h_def [symmetric]) (simp add: slots_def x_def n_def)
  moreover have "ring_wf r'" using assms(1,2) h(2) by (auto simp: ring_wf_def r'_def n_def [symmetric])
  ultimately show ?thesis using len by (simp add: r'_def n_def)
qed

section \<open>The bounded-queue contract\<close>

lemma put_bytes_whole: "length bs = length d \<Longrightarrow> put_bytes d 0 bs = bs"
  by (simp add: put_bytes_def)

definition ring_try_push :: "ksi_pipe_ring_implementation \<times> os \<Rightarrow> bytes \<Rightarrow> (ksi_pipe_ring_implementation \<times> os) option" where
  "ring_try_push q item =
    (case ksi_pipe_ring_push (Some \<lparr>ring_implementation = Some (fst q)\<rparr>) (Some item) (snd q) of
       Some (True, Some r, s) \<Rightarrow> map_option (\<lambda>i. (i, s)) (ring_implementation r)
     | _ \<Rightarrow> None)"

definition ring_try_pop :: "ksi_pipe_ring_implementation \<times> os \<Rightarrow> (bytes \<times> ksi_pipe_ring_implementation \<times> os) option" where
  "ring_try_pop q =
    (case ksi_pipe_ring_pop (Some \<lparr>ring_implementation = Some (fst q)\<rparr>) (Some (replicate (pr_element_size (fst q)) 0)) of
       Some (True, Some r, Some item) \<Rightarrow> map_option (\<lambda>i. (item, i, snd q)) (ring_implementation r)
     | _ \<Rightarrow> None)"

interpretation pipe_queue: bounded_queue "\<lambda>q. ring_wf (fst q)" "\<lambda>q. ring_queue (fst q)" "\<lambda>q. pr_capacity (fst q)"
  "\<lambda>q. False" "\<lambda>q item. length item = pr_element_size (fst q)" ring_try_push ring_try_pop
proof
  fix q :: "ksi_pipe_ring_implementation \<times> os"
  assume wf: "ring_wf (fst q)"
  then show "length (ring_queue (fst q)) \<le> pr_capacity (fst q)"
    by (simp add: ring_queue_def ring_wf_def)
  have push: "if pr_count (fst q) < pr_capacity (fst q)
      then \<exists>r'. ring_try_push q item = Some (r', os_write_byte (pr_wake_write_fd r') (snd q)) \<and> ring_wf r' \<and> ring_queue r' = ring_queue (fst q) @ [item]
        \<and> pr_capacity r' = pr_capacity (fst q) \<and> pr_element_size r' = pr_element_size (fst q)
      else ring_try_push q item = None" if "length item = pr_element_size (fst q)" for item
    using push_locked_room [OF wf that, of 0] push_locked_full [of "fst q" 0 item] ring_wf_sizes(6) [OF wf]
    by (auto simp: ring_try_push_def ksi_pipe_ring_push_def ksi_pipe_ring_push_reserved_def)
  {
    fix item :: bytes assume "length item = pr_element_size (fst q)"
    from push [OF this] wf show "(ring_try_push q item = None) = (False \<or> length (ring_queue (fst q)) = pr_capacity (fst q))"
      by (auto simp: ring_queue_def ring_wf_def split: if_splits)
  next
    fix item :: bytes and q' assume "length item = pr_element_size (fst q)" "ring_try_push q item = Some q'"
    with push [OF this(1)] show "ring_wf (fst q') \<and> ring_queue (fst q') = ring_queue (fst q) @ [item]
        \<and> pr_capacity (fst q') = pr_capacity (fst q) \<and> False = False
        \<and> (\<lambda>item. length item = pr_element_size (fst q')) = (\<lambda>item. length item = pr_element_size (fst q))"
      by (auto split: if_splits)
  }
  have pop: "if pr_count (fst q) = 0 then ring_try_pop q = None
      else \<exists>x r'. ring_try_pop q = Some (x, r', snd q) \<and> ring_wf r' \<and> ring_queue (fst q) = x # ring_queue r'
        \<and> pr_capacity r' = pr_capacity (fst q) \<and> pr_element_size r' = pr_element_size (fst q)"
    using pop_locked_empty [of "fst q" "replicate (pr_element_size (fst q)) 0"]
      pop_locked_some [OF wf, of "replicate (pr_element_size (fst q)) 0"]
    by (auto simp: ring_try_pop_def ksi_pipe_ring_pop_def put_bytes_whole)
  then show "(ring_try_pop q = None) = (ring_queue (fst q) = [])"
    by (auto simp: ring_queue_def ring_items_def split: if_splits)
  fix x q' assume "ring_try_pop q = Some (x, q')"
  with pop show "ring_wf (fst q') \<and> ring_queue (fst q) = x # ring_queue (fst q')
      \<and> pr_capacity (fst q') = pr_capacity (fst q) \<and> False = False
      \<and> (\<lambda>item. length item = pr_element_size (fst q')) = (\<lambda>item. length item = pr_element_size (fst q))"
    by (auto split: if_splits)
qed

text \<open>
  C18. The ring is a bounded FIFO queue: run any sequence of pushes and pops on a ring in a valid
  state, with items of the ring's element size, and every answer is the answer of a list of at
  most \<open>capacity\<close> items that is appended to at one end and taken from at the other. No access
  leaves the buffer, and the final ring holds the final list.
\<close>

theorem pipe_ring_fifo:
  assumes "ring_wf r" and "list_all (op_item_ok (\<lambda>item. length item = pr_element_size r)) ops"
  shows "\<exists>q. queue_run ring_try_push ring_try_pop (r, s) ops = (fst (list_run (pr_capacity r) False (ring_queue r) ops), q)
    \<and> ring_queue (fst q) = snd (list_run (pr_capacity r) False (ring_queue r) ops)
    \<and> ring_wf (fst q) \<and> length (ring_queue (fst q)) \<le> pr_capacity r"
  using pipe_queue.run_refines [of "(r, s)" ops] assms by simp

text \<open>
  Initialisation succeeds exactly when the arguments are not zero and the environment grants
  memory, mutex and pipe; then the ring is valid and empty and its wake pipe is empty. A failed
  initialisation opens no descriptor. Closing a ring closes exactly the descriptors it opened.
\<close>

theorem pipe_ring_init_close:
  assumes "pipe2_fresh (ans_pipe ans) s" and "ans_buffer ans \<Longrightarrow> capacity * element_size < 2 ^ 63"
    and "ksi_pipe_ring_init ans (Some ring) element_size capacity s = (rc, ring', s')"
  shows "if element_size \<noteq> 0 \<and> capacity \<noteq> 0 \<and> ans_structure ans \<and> ans_buffer ans \<and> ans_mutex ans \<and> ans_pipe ans \<noteq> None
     then rc = 0 \<and> (\<exists>r i. ring' = Some r \<and> ring_implementation r = Some i \<and> ring_wf i \<and> ring_queue i = []
        \<and> pr_capacity i = capacity \<and> pr_element_size i = element_size \<and> pending (ksi_pipe_ring_wake_fd ring') s' = 0
        \<and> (\<forall>t. os_fds t = os_fds s' \<longrightarrow> os_fds (snd (ksi_pipe_ring_close ring' t)) = os_fds s))
     else rc = -1 \<and> s' = s"
proof (cases "element_size \<noteq> 0 \<and> capacity \<noteq> 0 \<and> ans_structure ans \<and> ans_buffer ans \<and> ans_mutex ans \<and> ans_pipe ans \<noteq> None")
  case True
  then obtain rd wr p where p: "ans_pipe ans = Some (rd, wr, p)" by auto
  with assms(1) have fresh: "0 \<le> rd" "0 \<le> wr" "rd \<noteq> wr" "os_fds s rd = None" "os_fds s wr = None"
    by (auto simp: pipe2_fresh_def)
  define i where "i = \<lparr>pr_buffer = replicate (capacity * element_size) 0, pr_element_size = element_size,
      pr_capacity = capacity, pr_head = 0, pr_count = 0, pr_wake_read_fd = rd, pr_wake_write_fd = wr\<rparr>"
  have res: "rc = 0" "ring' = Some (ring\<lparr>ring_implementation := Some i\<rparr>)" "s' = os_pipe2 (Some (rd, wr, p)) s"
    using assms(3) True p by (auto simp: ksi_pipe_ring_init_def i_def)
  have "ring_wf i" "ring_queue i = []" using True assms(2) by (auto simp: ring_wf_def i_def ring_queue_def)
  moreover have "pending (ksi_pipe_ring_wake_fd ring') s' = 0"
    using fresh(3) by (simp add: res ksi_pipe_ring_wake_fd_def i_def os_pipe2_def)
  moreover have "os_fds (snd (ksi_pipe_ring_close ring' t)) = os_fds s" if "os_fds t = os_fds s'" for t
    using that fresh by (auto simp: res ksi_pipe_ring_close_def i_def os_pipe2_def os_close_def)
  ultimately show ?thesis using True res by (simp add: i_def)
next
  case False
  then show ?thesis using assms(3) by (auto simp: ksi_pipe_ring_init_def os_pipe2_def Let_def split: if_splits option.splits)
qed

definition granting :: ring_init_answers where
  "granting = \<lparr>ans_structure = True, ans_buffer = True, ans_mutex = True, ans_pipe = Some (5, 6, 0)\<rparr>"

definition fresh_os :: os where
  "fresh_os = \<lparr>os_fds = (\<lambda>_. None), os_bytes = (\<lambda>_. 0), os_capacity = 65536\<rparr>"

theorem pipe_ring_init_close_witness:
  "\<exists>r s i. ksi_pipe_ring_init granting (Some \<lparr>ring_implementation = None\<rparr>) 4 64 fresh_os = (0, Some r, s)
     \<and> ring_implementation r = Some i \<and> ring_wf i \<and> ring_queue i = []"
proof -
  obtain rc ring' s' where e: "ksi_pipe_ring_init granting (Some \<lparr>ring_implementation = None\<rparr>) 4 64 fresh_os = (rc, ring', s')"
    by (metis prod.exhaust)
  have fresh: "pipe2_fresh (ans_pipe granting) fresh_os" by (simp add: granting_def fresh_os_def pipe2_fresh_def)
  have "rc = 0 \<and> (\<exists>r i. ring' = Some r \<and> ring_implementation r = Some i \<and> ring_wf i \<and> ring_queue i = [])"
    using pipe_ring_init_close [OF fresh _ e] by (auto simp: granting_def)
  with e show ?thesis by auto
qed

definition example_ring :: ksi_pipe_ring_implementation where
  "example_ring = \<lparr>pr_buffer = [0, 0, 7, 8], pr_element_size = 2, pr_capacity = 2, pr_head = 1, pr_count = 1,
     pr_wake_read_fd = 5, pr_wake_write_fd = 6\<rparr>"

theorem pipe_ring_fifo_witness:
  "fst (queue_run ring_try_push ring_try_pop (example_ring, fresh_os) [Push [1, 2], Push [3, 4], Pop, Pop, Pop])
     = [Pushed True, Pushed False, Popped (Some [7, 8]), Popped (Some [1, 2]), Popped None]"
proof -
  have "ring_queue example_ring = [[7, 8]]"
    by (simp add: ring_queue_def ring_items_def slots_def example_ring_def get_bytes_def eval_nat_numeral)
  moreover have "ring_wf example_ring" by (simp add: ring_wf_def example_ring_def)
  ultimately show ?thesis
    using pipe_ring_fifo [of example_ring "[Push [1, 2], Push [3, 4], Pop, Pop, Pop]" fresh_os]
    by (auto simp: example_ring_def)
qed

text \<open>
  A push that keeps a reserve succeeds exactly while more than \<open>reserve\<close> slots are free, as the
  header promises; the sum does not wrap for any reserve below \<open>2 ^ 63\<close>. A successful push appends
  the item and wakes the reader; a refused one changes nothing.
\<close>

theorem push_reserved_correct:
  assumes "ring_wf r" and "length item = pr_element_size r" and "reserve < 2 ^ 63"
    and "os_fds s (pr_wake_read_fd r) = Some (Read_End p)" and "os_fds s (pr_wake_write_fd r) = Some (Write_End p)"
    and "0 < os_capacity s"
  shows "if reserve + 1 \<le> pr_capacity r - length (ring_queue r)
     then \<exists>r' s'. ksi_pipe_ring_push_reserved (Some \<lparr>ring_implementation = Some r\<rparr>) (Some item) reserve s
            = Some (True, Some \<lparr>ring_implementation = Some r'\<rparr>, s')
          \<and> ring_wf r' \<and> ring_queue r' = ring_queue r @ [item] \<and> 0 < pending (pr_wake_read_fd r) s'
     else ksi_pipe_ring_push_reserved (Some \<lparr>ring_implementation = Some r\<rparr>) (Some item) reserve s
            = Some (False, Some \<lparr>ring_implementation = Some r\<rparr>, s)"
proof -
  have count: "length (ring_queue r) = pr_count r" by (simp add: ring_queue_def)
  have "pr_count r \<le> pr_capacity r" using assms(1) by (simp add: ring_wf_def)
  then have sum: "size_t_add (pr_count r) reserve = pr_count r + reserve"
    using ring_wf_sizes(1) [OF assms(1)] assms(3) by (intro size_t_add_small) (simp add: size_t_mod_def)
  show ?thesis
  proof (cases "pr_count r + reserve < pr_capacity r")
    case True
    then obtain r' where r': "push_locked r item reserve = Some (True, r')" "ring_wf r'" "ring_queue r' = ring_queue r @ [item]"
        "pr_wake_read_fd r' = pr_wake_read_fd r" "pr_wake_write_fd r' = pr_wake_write_fd r"
      using push_locked_room [OF assms(1,2), of reserve] sum by auto
    moreover have "0 < pending (pr_wake_read_fd r) (os_write_byte (pr_wake_write_fd r) s)"
      using assms(4-6) by (rule wake_then_pending)
    ultimately show ?thesis using True
      by (simp add: count ksi_pipe_ring_push_reserved_def del: pending.simps)
  next
    case False
    then show ?thesis
      using push_locked_full [of r reserve item] sum by (simp add: count ksi_pipe_ring_push_reserved_def)
  qed
qed

theorem push_reserved_correct_witness:
  "\<exists>r' s'. ksi_pipe_ring_push_reserved (Some \<lparr>ring_implementation = Some example_ring\<rparr>) (Some [3, 4]) 0
       (os_pipe2 (Some (5, 6, 0)) fresh_os) = Some (True, Some \<lparr>ring_implementation = Some r'\<rparr>, s') \<and> 0 < pending 5 s'"
proof -
  have "ring_wf example_ring" "length (ring_queue example_ring) = 1"
    by (simp_all add: ring_wf_def example_ring_def ring_queue_def)
  then show ?thesis
    using push_reserved_correct [of example_ring "[3, 4]" 0 "os_pipe2 (Some (5, 6, 0)) fresh_os" 0]
    by (auto simp: example_ring_def os_pipe2_def fresh_os_def simp del: pending.simps)
qed

section \<open>Wake-ups are not lost\<close>

text \<open>
  The lane thread of src/src/daemon/hook_lanes.inc pops items until the ring is empty, then polls
  the wake descriptor and drains it. Producers push under the mutex and write the wake byte after
  releasing it, so between the two steps any other step may happen; \<open>rs_unsent\<close> counts the
  producers in between.
\<close>

datatype consumer_phase = Popping | Polling

record ring_system =
  rs_ring :: ksi_pipe_ring_implementation
  rs_os :: os
  rs_unsent :: nat
  rs_phase :: consumer_phase

inductive ring_step :: "ring_system \<Rightarrow> ring_system \<Rightarrow> bool" where
  produce: "push_locked (rs_ring t) item reserve = Some (True, ring') \<Longrightarrow>
    length item = pr_element_size (rs_ring t) \<Longrightarrow> reserve < 2 ^ 63 \<Longrightarrow>
    ring_step t (t\<lparr>rs_ring := ring', rs_unsent := rs_unsent t + 1\<rparr>)"
| wake: "0 < rs_unsent t \<Longrightarrow>
    ring_step t (t\<lparr>rs_os := os_write_byte (pr_wake_write_fd (rs_ring t)) (rs_os t), rs_unsent := rs_unsent t - 1\<rparr>)"
| stray_wake: "ring_step t (t\<lparr>rs_os := os_write_byte (pr_wake_write_fd (rs_ring t)) (rs_os t)\<rparr>)"
| consume: "rs_phase t = Popping \<Longrightarrow> pr_element_size (rs_ring t) \<le> length item \<Longrightarrow>
    pop_locked (rs_ring t) item = Some (True, ring', item') \<Longrightarrow> ring_step t (t\<lparr>rs_ring := ring'\<rparr>)"
| found_empty: "rs_phase t = Popping \<Longrightarrow> pr_element_size (rs_ring t) \<le> length item \<Longrightarrow>
    pop_locked (rs_ring t) item = Some (False, ring', item') \<Longrightarrow> ring_step t (t\<lparr>rs_ring := ring', rs_phase := Polling\<rparr>)"
| poll_returns: "rs_phase t = Polling \<Longrightarrow>
    ring_step t (t\<lparr>rs_os := drain_loop (pr_wake_read_fd (rs_ring t)) (rs_os t), rs_phase := Popping\<rparr>)"

definition wake_inv :: "ring_system \<Rightarrow> bool" where
  "wake_inv t \<longleftrightarrow> ring_wf (rs_ring t) \<and> 0 < os_capacity (rs_os t)
    \<and> (\<exists>p. os_fds (rs_os t) (pr_wake_read_fd (rs_ring t)) = Some (Read_End p)
         \<and> os_fds (rs_os t) (pr_wake_write_fd (rs_ring t)) = Some (Write_End p))
    \<and> (rs_phase t = Polling \<longrightarrow> ring_queue (rs_ring t) \<noteq> [] \<longrightarrow>
        0 < rs_unsent t \<or> 0 < pending (pr_wake_read_fd (rs_ring t)) (rs_os t))"

lemma push_locked_wf:
  assumes "ring_wf r" and "length item = pr_element_size r" and "reserve < 2 ^ 63"
    and "push_locked r item reserve = Some (True, r')"
  shows "ring_wf r' \<and> pr_wake_read_fd r' = pr_wake_read_fd r \<and> pr_wake_write_fd r' = pr_wake_write_fd r"
proof -
  have "pr_count r \<le> pr_capacity r" using assms(1) by (simp add: ring_wf_def)
  then have sum: "size_t_add (pr_count r) reserve = pr_count r + reserve"
    using ring_wf_sizes(1) [OF assms(1)] assms(3) by (intro size_t_add_small) (simp add: size_t_mod_def)
  then have "pr_count r + reserve < pr_capacity r"
    using assms(4) push_locked_full [of r reserve item] by (cases "pr_count r + reserve < pr_capacity r") auto
  with push_locked_room [OF assms(1,2), of reserve] sum assms(4) show ?thesis by auto
qed

lemma wake_inv_step: "ring_step t u \<Longrightarrow> wake_inv t \<Longrightarrow> wake_inv u"
proof (induction rule: ring_step.induct)
  case (produce t item reserve ring')
  then show ?case using push_locked_wf [of "rs_ring t" item reserve ring'] by (auto simp: wake_inv_def)
next
  case (wake t)
  then obtain p where "os_fds (rs_os t) (pr_wake_read_fd (rs_ring t)) = Some (Read_End p)"
      "os_fds (rs_os t) (pr_wake_write_fd (rs_ring t)) = Some (Write_End p)" "0 < os_capacity (rs_os t)"
    by (auto simp: wake_inv_def)
  from wake_then_pending [OF this] this wake show ?case by (auto simp: wake_inv_def)
next
  case (stray_wake t)
  then obtain p where "os_fds (rs_os t) (pr_wake_read_fd (rs_ring t)) = Some (Read_End p)"
      "os_fds (rs_os t) (pr_wake_write_fd (rs_ring t)) = Some (Write_End p)" "0 < os_capacity (rs_os t)"
    by (auto simp: wake_inv_def)
  from wake_then_pending [OF this] this stray_wake show ?case by (auto simp: wake_inv_def)
next
  case (consume t item ring' item')
  then have "pr_count (rs_ring t) \<noteq> 0" using pop_locked_empty [of "rs_ring t" item] by auto
  with consume pop_locked_some [of "rs_ring t" item] show ?case by (auto simp: wake_inv_def)
next
  case (found_empty t item ring' item')
  then have "pr_count (rs_ring t) = 0" using pop_locked_some [of "rs_ring t" item] by (auto simp: wake_inv_def)
  with found_empty pop_locked_empty [of "rs_ring t" item] show ?case by (auto simp: wake_inv_def ring_queue_def)
next
  case (poll_returns t)
  then show ?case by (auto simp: wake_inv_def)
qed

lemma wake_inv_reachable: "ring_step\<^sup>*\<^sup>* t u \<Longrightarrow> wake_inv t \<Longrightarrow> wake_inv u"
  by (induction rule: rtranclp_induct) (auto intro: wake_inv_step)

text \<open>
  C19. No wake-up is lost: from a ring that was just initialised, however the steps of producers and consumer
  interleave, whenever the consumer polls while the ring holds an item, the wake pipe is readable
  or a producer is about to write to it. The consumer therefore never sleeps on a filled ring.
\<close>

theorem no_lost_wakeup:
  assumes "ring_wf r" and "ring_queue r = []" and "0 < os_capacity s"
    and "os_fds s (pr_wake_read_fd r) = Some (Read_End p)" and "os_fds s (pr_wake_write_fd r) = Some (Write_End p)"
    and "ring_step\<^sup>*\<^sup>* \<lparr>rs_ring = r, rs_os = s, rs_unsent = 0, rs_phase = Popping\<rparr> t"
    and "rs_phase t = Polling" and "ring_queue (rs_ring t) \<noteq> []"
  shows "0 < pending (pr_wake_read_fd (rs_ring t)) (rs_os t) \<or> 0 < rs_unsent t"
proof -
  have "wake_inv \<lparr>rs_ring = r, rs_os = s, rs_unsent = 0, rs_phase = Popping\<rparr>"
    using assms(1-5) by (auto simp: wake_inv_def)
  from wake_inv_reachable [OF assms(6) this] assms(7,8) show ?thesis by (auto simp: wake_inv_def)
qed

theorem no_lost_wakeup_witness:
  "\<exists>t. ring_step\<^sup>*\<^sup>* \<lparr>rs_ring = example_ring\<lparr>pr_count := 0\<rparr>, rs_os = os_pipe2 (Some (5, 6, 0)) fresh_os,
         rs_unsent = 0, rs_phase = Popping\<rparr> t
     \<and> rs_phase t = Polling \<and> ring_queue (rs_ring t) = [[1, 2]]
     \<and> (0 < pending (pr_wake_read_fd (rs_ring t)) (rs_os t) \<or> 0 < rs_unsent t)"
proof -
  define r where "r = example_ring\<lparr>pr_count := 0\<rparr>"
  define s where "s = os_pipe2 (Some (5, 6, 0)) fresh_os"
  define t0 where "t0 = \<lparr>rs_ring = r, rs_os = s, rs_unsent = 0, rs_phase = Popping\<rparr>"
  have r: "ring_wf r" "ring_queue r = []" "pr_element_size r = 2" "pr_count r = 0" "pr_capacity r = 2"
    by (simp_all add: r_def ring_wf_def example_ring_def ring_queue_def)
  have fds: "0 < os_capacity s" "os_fds s (pr_wake_read_fd r) = Some (Read_End 0)" "os_fds s (pr_wake_write_fd r) = Some (Write_End 0)"
    by (simp_all add: s_def r_def example_ring_def os_pipe2_def fresh_os_def)
  obtain r' where r': "push_locked r [1, 2] 0 = Some (True, r')" "ring_queue r' = [[1, 2]]"
    using push_locked_room [of r "[1, 2]" 0] r by (auto simp: size_t_mod_def)
  have "ring_step t0 (t0\<lparr>rs_ring := r, rs_phase := Polling\<rparr>)"
    using r by (intro found_empty [of _ "[0, 0]" r "[0, 0]"]) (simp_all add: t0_def pop_locked_empty)
  moreover have "ring_step (t0\<lparr>rs_ring := r, rs_phase := Polling\<rparr>) (t0\<lparr>rs_ring := r', rs_phase := Polling, rs_unsent := 1\<rparr>)"
    using produce [of "t0\<lparr>rs_ring := r, rs_phase := Polling\<rparr>" "[1, 2]" 0 r'] r r'(1) by (simp add: t0_def)
  ultimately have run: "ring_step\<^sup>*\<^sup>* t0 (t0\<lparr>rs_ring := r', rs_phase := Polling, rs_unsent := 1\<rparr>)" by simp
  from no_lost_wakeup [OF r(1,2) fds run [unfolded t0_def]] run r'(2) show ?thesis
    by (auto simp: t0_def r_def s_def)
qed

end
