(* ===== verification/Worker_Pool.thy ===== *)
theory Worker_Pool
  imports Ring "HOL-Library.Multiset"
begin

text \<open>
  The pool of worker threads that runs privileged jobs off the daemon's main loop,
  src/src/worker_pool.c: the job ring, the operations of its owner, the critical sections of a
  worker thread, and a step relation that interleaves owner and workers, with the condition
  variable they wait on. Function pointers and contexts are addresses.
\<close>

section \<open>State and operations\<close>

definition KSI_WORKER_POOL_MAX_THREADS :: nat where [simp]: "KSI_WORKER_POOL_MAX_THREADS = 2"
definition KSI_WORKER_POOL_MAX_JOBS :: nat where [simp]: "KSI_WORKER_POOL_MAX_JOBS = 128"

record ksi_worker_job =
  job_run :: "nat ptr"
  job_destroy :: "nat ptr"
  job_context :: "nat ptr"

definition zero_job :: ksi_worker_job where
  "zero_job = \<lparr>job_run = None, job_destroy = None, job_context = None\<rparr>"

record ksi_worker_pool_implementation =
  wp_stopping :: bool
  wp_threads :: "nat list"
  wp_thread_count :: nat
  wp_jobs :: "ksi_worker_job list"
  wp_head :: nat
  wp_count :: nat
  wp_active :: nat

record ksi_worker_pool =
  pool_implementation :: "ksi_worker_pool_implementation ptr"

subsection \<open>Waiting for a thread to end\<close>

text \<open>
  Clock readings are the answers of \<open>clock_gettime\<close>, \<^const>\<open>None\<close> when it fails.
\<close>

definition monotonic_ms :: "(int \<times> int) option \<Rightarrow> u64" where
  "monotonic_ms clock =
    (case clock of None \<Rightarrow> 0
     | Some (tv_sec, tv_nsec) \<Rightarrow> word_of_int tv_sec * 1000 + word_of_int tv_nsec div 1000000)"

text \<open>The absolute time that the timed join waits for.\<close>

definition join_until :: "int \<times> int \<Rightarrow> u64 \<Rightarrow> int \<times> int" where
  "join_until absolute remaining_ms =
    (let tv_sec = fst absolute + uint (remaining_ms div 1000);
         tv_nsec = snd absolute + uint (remaining_ms mod 1000 * 1000000)
     in if tv_nsec \<ge> 1000000000 then (tv_sec + 1, tv_nsec - 1000000000) else (tv_sec, tv_nsec))"

definition join_thread_before ::
  "(nat \<Rightarrow> bool) \<Rightarrow> (nat \<Rightarrow> int \<times> int \<Rightarrow> bool) \<Rightarrow> (int \<times> int) option \<Rightarrow> (int \<times> int) option \<Rightarrow> nat \<Rightarrow> u64 \<Rightarrow> bool" where
  "join_thread_before join timedjoin monotonic realtime thread deadline_ms =
    (let now = monotonic_ms monotonic in
     if deadline_ms = 0 then join thread
     else if now \<ge> deadline_ms then False
     else case realtime of None \<Rightarrow> False
       | Some absolute \<Rightarrow> timedjoin thread (join_until absolute (deadline_ms - now)))"

subsection \<open>The owner's operations\<close>

text \<open>
  Whether the allocation, the mutex, the condition variable and each thread creation
  succeed is the environment's answer; \<open>create i\<close> is the handle of the \<open>i\<close>-th thread.
  When a creation fails the threads made so far are stopped and joined and the memory is freed.
\<close>

fun create_threads :: "(nat \<Rightarrow> nat option) \<Rightarrow> nat list \<Rightarrow> ksi_worker_pool_implementation \<Rightarrow> ksi_worker_pool_implementation option" where
  "create_threads create [] implementation = Some implementation"
| "create_threads create (i # is) implementation =
    (case create i of
       None \<Rightarrow> None
     | Some handle \<Rightarrow> create_threads create is
         (implementation\<lparr>wp_threads := (wp_threads implementation)[i := handle],
            wp_thread_count := wp_thread_count implementation + 1\<rparr>))"

definition ksi_worker_pool_init ::
  "bool \<Rightarrow> bool \<Rightarrow> bool \<Rightarrow> (nat \<Rightarrow> nat option) \<Rightarrow> ksi_worker_pool ptr \<Rightarrow> int \<times> ksi_worker_pool ptr" where
  "ksi_worker_pool_init alloc mutex condition create pool =
    (case pool of None \<Rightarrow> (-1, pool)
     | Some p \<Rightarrow>
         if pool_implementation p \<noteq> None then (-1, pool)
         else if \<not> alloc then (-1, pool)
         else if \<not> mutex then (-1, pool)
         else if \<not> condition then (-1, pool)
         else case create_threads create [0..<KSI_WORKER_POOL_MAX_THREADS]
             \<lparr>wp_stopping = False, wp_threads = replicate KSI_WORKER_POOL_MAX_THREADS 0, wp_thread_count = 0,
              wp_jobs = replicate KSI_WORKER_POOL_MAX_JOBS zero_job, wp_head = 0, wp_count = 0, wp_active = 0\<rparr> of
           None \<Rightarrow> (-1, pool)
         | Some implementation \<Rightarrow> (0, Some (p\<lparr>pool_implementation := Some implementation\<rparr>)))"

definition submit_locked ::
  "ksi_worker_pool_implementation \<Rightarrow> ksi_worker_job \<Rightarrow> (bool \<times> ksi_worker_pool_implementation) mem" where
  "submit_locked implementation job =
    (if wp_stopping implementation \<or> wp_count implementation \<ge> KSI_WORKER_POOL_MAX_JOBS then Some (False, implementation)
     else do {
       let tail = size_t_add (wp_head implementation) (wp_count implementation) mod KSI_WORKER_POOL_MAX_JOBS;
       jobs \<leftarrow> arr_set (wp_jobs implementation) tail job;
       Some (True, implementation\<lparr>wp_jobs := jobs, wp_count := size_t_add (wp_count implementation) 1\<rparr>)
     })"

definition ksi_worker_pool_submit ::
  "ksi_worker_pool ptr \<Rightarrow> nat ptr \<Rightarrow> nat ptr \<Rightarrow> nat ptr \<Rightarrow> (bool \<times> ksi_worker_pool ptr) mem" where
  "ksi_worker_pool_submit pool run destroy ctx =
    (case pool of None \<Rightarrow> Some (False, pool)
     | Some p \<Rightarrow>
         if run = None \<or> ctx = None then Some (False, pool)
         else case pool_implementation p of None \<Rightarrow> Some (False, pool)
           | Some implementation \<Rightarrow> do {
               (ok, implementation) \<leftarrow> submit_locked implementation \<lparr>job_run = run, job_destroy = destroy, job_context = ctx\<rparr>;
               Some (ok, Some (p\<lparr>pool_implementation := Some implementation\<rparr>))
             })"

definition ksi_worker_pool_has_work :: "ksi_worker_pool ptr \<Rightarrow> bool" where
  "ksi_worker_pool_has_work pool =
    (case pool of None \<Rightarrow> False
     | Some p \<Rightarrow> case pool_implementation p of None \<Rightarrow> False
         | Some implementation \<Rightarrow> wp_count implementation \<noteq> 0 \<or> wp_active implementation \<noteq> 0)"

definition ksi_worker_pool_request_stop :: "ksi_worker_pool ptr \<Rightarrow> ksi_worker_pool ptr" where
  "ksi_worker_pool_request_stop pool =
    (case pool of None \<Rightarrow> None
     | Some p \<Rightarrow> case pool_implementation p of None \<Rightarrow> pool
         | Some implementation \<Rightarrow> Some (p\<lparr>pool_implementation := Some (implementation\<lparr>wp_stopping := True\<rparr>)\<rparr>))"

text \<open>
  \<open>monotonic i\<close> and \<open>realtime i\<close> are the clock readings before the join of the \<open>i\<close>-th thread.
\<close>

fun join_loop :: "(nat \<Rightarrow> bool) \<Rightarrow> nat list \<Rightarrow> bool" where
  "join_loop joins [] = True"
| "join_loop joins (i # is) = (if \<not> joins i then False else join_loop joins is)"

definition ksi_worker_pool_join_before ::
  "(nat \<Rightarrow> bool) \<Rightarrow> (nat \<Rightarrow> int \<times> int \<Rightarrow> bool) \<Rightarrow> (nat \<Rightarrow> (int \<times> int) option) \<Rightarrow> (nat \<Rightarrow> (int \<times> int) option)
    \<Rightarrow> ksi_worker_pool ptr \<Rightarrow> u64 \<Rightarrow> bool \<times> ksi_worker_pool ptr" where
  "ksi_worker_pool_join_before join timedjoin monotonic realtime pool deadline_ms =
    (case pool of None \<Rightarrow> (True, pool)
     | Some p \<Rightarrow> case pool_implementation p of None \<Rightarrow> (True, pool)
         | Some implementation \<Rightarrow>
             if join_loop (\<lambda>i. join_thread_before join timedjoin (monotonic i) (realtime i) (wp_threads implementation ! i) deadline_ms)
                  [0..<wp_thread_count implementation]
             then (True, Some (p\<lparr>pool_implementation := Some (implementation\<lparr>wp_thread_count := 0\<rparr>)\<rparr>))
             else (False, pool))"

text \<open>Destroying the pool calls the destructor of every job that is still queued.\<close>

fun destroy_loop :: "ksi_worker_pool_implementation \<Rightarrow> nat list \<Rightarrow> (nat \<times> nat ptr) list mem" where
  "destroy_loop implementation [] = Some []"
| "destroy_loop implementation (i # is) = do {
    job \<leftarrow> arr_get (wp_jobs implementation) (size_t_add (wp_head implementation) i mod KSI_WORKER_POOL_MAX_JOBS);
    calls \<leftarrow> destroy_loop implementation is;
    Some (case job_destroy job of None \<Rightarrow> calls | Some f \<Rightarrow> (f, job_context job) # calls)
  }"

definition ksi_worker_pool_destroy :: "ksi_worker_pool ptr \<Rightarrow> ((nat \<times> nat ptr) list \<times> ksi_worker_pool ptr) mem" where
  "ksi_worker_pool_destroy pool =
    (case pool of None \<Rightarrow> Some ([], pool)
     | Some p \<Rightarrow> case pool_implementation p of None \<Rightarrow> Some ([], pool)
         | Some implementation \<Rightarrow> do {
             calls \<leftarrow> destroy_loop implementation [0..<wp_count implementation];
             Some (calls, Some (p\<lparr>pool_implementation := None\<rparr>))
           })"

subsection \<open>The critical sections of a worker thread\<close>

text \<open>
  With the mutex held: the thread waits while the queue is empty and the pool is not stopping,
  ends when it is stopping, and otherwise takes the oldest job.
\<close>

datatype worker_verdict = Wait | Leave | Take ksi_worker_job

definition worker_locked :: "ksi_worker_pool_implementation \<Rightarrow> (worker_verdict \<times> ksi_worker_pool_implementation) mem" where
  "worker_locked pool =
    (if wp_count pool = 0 \<and> \<not> wp_stopping pool then Some (Wait, pool)
     else if wp_stopping pool then Some (Leave, pool)
     else do {
       job \<leftarrow> arr_get (wp_jobs pool) (wp_head pool);
       jobs \<leftarrow> arr_set (wp_jobs pool) (wp_head pool) zero_job;
       Some (Take job, pool\<lparr>wp_jobs := jobs, wp_head := size_t_add (wp_head pool) 1 mod KSI_WORKER_POOL_MAX_JOBS,
         wp_count := size_t_sub (wp_count pool) 1, wp_active := size_t_add (wp_active pool) 1\<rparr>)
     })"

definition worker_done_locked :: "ksi_worker_pool_implementation \<Rightarrow> ksi_worker_pool_implementation" where
  "worker_done_locked pool = pool\<lparr>wp_active := size_t_sub (wp_active pool) 1\<rparr>"

section \<open>The job ring as a queue\<close>

definition job_queue :: "ksi_worker_pool_implementation \<Rightarrow> ksi_worker_job list" where
  "job_queue p = ring_items (wp_jobs p) (wp_head p) (wp_count p)"

definition pool_wf :: "ksi_worker_pool_implementation \<Rightarrow> bool" where
  "pool_wf p \<longleftrightarrow> length (wp_jobs p) = KSI_WORKER_POOL_MAX_JOBS \<and> wp_head p < KSI_WORKER_POOL_MAX_JOBS
     \<and> wp_count p \<le> KSI_WORKER_POOL_MAX_JOBS \<and> wp_active p < size_t_mod - 1"

lemma length_job_queue [simp]: "length (job_queue p) = wp_count p"
  by (simp add: job_queue_def)

lemma job_queue_Nil: "job_queue p = [] \<longleftrightarrow> wp_count p = 0"
  by (simp add: job_queue_def ring_items_def)

lemma job_queue_cong:
  "job_queue (p\<lparr>wp_stopping := b, wp_active := a\<rparr>) = job_queue p"
  "job_queue (p\<lparr>wp_stopping := b\<rparr>) = job_queue p" "job_queue (p\<lparr>wp_active := a\<rparr>) = job_queue p"
  by (simp_all add: job_queue_def)

lemma submit_locked_refused:
  "wp_stopping p \<or> wp_count p \<ge> 128 \<Longrightarrow> submit_locked p job = Some (False, p)"
  by (simp add: submit_locked_def)

lemma submit_locked_accepted:
  assumes "pool_wf p" and "\<not> wp_stopping p" and "wp_count p < 128"
  shows "\<exists>p'. submit_locked p job = Some (True, p') \<and> pool_wf p' \<and> job_queue p' = job_queue p @ [job]
    \<and> wp_count p' = wp_count p + 1 \<and> wp_stopping p' = wp_stopping p \<and> wp_active p' = wp_active p"
proof -
  define jobs where "jobs = (wp_jobs p)[(wp_head p + wp_count p) mod 128 := job]"
  have "size_t_add (wp_head p) (wp_count p) = wp_head p + wp_count p" "size_t_add (wp_count p) 1 = wp_count p + 1"
    using assms by (simp_all add: pool_wf_def size_t_mod_def)
  then have "submit_locked p job = Some (True, p\<lparr>wp_jobs := jobs, wp_count := wp_count p + 1\<rparr>)"
    using assms by (simp add: submit_locked_def Let_def mem_simps pool_wf_def jobs_def)
  moreover have "job_queue (p\<lparr>wp_jobs := jobs, wp_count := wp_count p + 1\<rparr>) = job_queue p @ [job]"
    using ring_push [of "wp_count p" "wp_jobs p" "wp_head p" job] assms
    by (simp add: job_queue_def jobs_def pool_wf_def)
  moreover have "pool_wf (p\<lparr>wp_jobs := jobs, wp_count := wp_count p + 1\<rparr>)"
    using assms by (simp add: pool_wf_def jobs_def)
  ultimately show ?thesis by simp
qed

lemma worker_locked_take:
  assumes "pool_wf p" and "\<not> wp_stopping p" and "wp_count p \<noteq> 0"
  shows "\<exists>job p'. worker_locked p = Some (Take job, p') \<and> job_queue p = job # job_queue p'
    \<and> length (wp_jobs p') = 128 \<and> wp_head p' < 128
    \<and> wp_count p' = wp_count p - 1 \<and> wp_stopping p' = wp_stopping p \<and> wp_active p' = wp_active p + 1"
proof -
  define p' where "p' = p\<lparr>wp_jobs := (wp_jobs p)[wp_head p := zero_job], wp_head := (wp_head p + 1) mod 128,
      wp_count := wp_count p - 1, wp_active := wp_active p + 1\<rparr>"
  have "size_t_add (wp_head p) 1 = wp_head p + 1" "size_t_add (wp_active p) 1 = wp_active p + 1"
    "size_t_sub (wp_count p) 1 = wp_count p - 1"
    using assms by (simp_all add: pool_wf_def size_t_mod_def)
  then have "worker_locked p = Some (Take (wp_jobs p ! wp_head p), p')"
    using assms by (simp add: worker_locked_def pool_wf_def mem_simps p'_def)
  moreover have "job_queue p = wp_jobs p ! wp_head p # job_queue p'"
    using ring_pop [of "wp_count p" "wp_jobs p" "wp_head p" zero_job] assms
    by (simp add: job_queue_def pool_wf_def p'_def)
  ultimately show ?thesis using assms by (simp add: p'_def pool_wf_def)
qed

text \<open>
  The active count of a pool in use is bounded by its threads, so the queue laws are stated for
  pools with few active jobs.
\<close>

definition pool_try_submit :: "ksi_worker_pool_implementation \<Rightarrow> ksi_worker_job \<Rightarrow> ksi_worker_pool_implementation option" where
  "pool_try_submit p job =
    (case ksi_worker_pool_submit (Some \<lparr>pool_implementation = Some p\<rparr>) (job_run job) (job_destroy job) (job_context job) of
       Some (True, Some r) \<Rightarrow> pool_implementation r
     | _ \<Rightarrow> None)"

definition pool_try_take :: "ksi_worker_pool_implementation \<Rightarrow> (ksi_worker_job \<times> ksi_worker_pool_implementation) option" where
  "pool_try_take p =
    (case worker_locked p of Some (Take job, p') \<Rightarrow> Some (job, worker_done_locked p') | _ \<Rightarrow> None)"

lemma pool_try_submit_eq:
  "job_run job \<noteq> None \<and> job_context job \<noteq> None \<Longrightarrow>
   pool_try_submit p job = (case submit_locked p job of Some (True, p') \<Rightarrow> Some p' | _ \<Rightarrow> None)"
  by (cases job) (auto simp: pool_try_submit_def ksi_worker_pool_submit_def split: option.splits bool.splits bind_splits)

interpretation job_queue_law: bounded_queue "\<lambda>p. pool_wf p \<and> \<not> wp_stopping p" job_queue "\<lambda>_. KSI_WORKER_POOL_MAX_JOBS"
  "\<lambda>_. False" "\<lambda>_ job. job_run job \<noteq> None \<and> job_context job \<noteq> None" pool_try_submit pool_try_take
proof
  fix p assume wf: "pool_wf p \<and> \<not> wp_stopping p"
  show "length (job_queue p) \<le> KSI_WORKER_POOL_MAX_JOBS" using wf by (simp add: pool_wf_def)
  have sub: "if wp_count p < 128
      then \<exists>p'. pool_try_submit p job = Some p' \<and> pool_wf p' \<and> job_queue p' = job_queue p @ [job] \<and> \<not> wp_stopping p'
      else pool_try_submit p job = None" if "job_run job \<noteq> None \<and> job_context job \<noteq> None" for job
    using submit_locked_accepted [of p job] submit_locked_refused [of p job] wf that
    by (auto simp: pool_try_submit_eq)
  {
    fix job :: ksi_worker_job assume "job_run job \<noteq> None \<and> job_context job \<noteq> None"
    from sub [OF this] wf show "(pool_try_submit p job = None) = (False \<or> length (job_queue p) = KSI_WORKER_POOL_MAX_JOBS)"
      by (auto simp: pool_wf_def split: if_splits)
  next
    fix job :: ksi_worker_job and p' assume "job_run job \<noteq> None \<and> job_context job \<noteq> None" "pool_try_submit p job = Some p'"
    with sub [OF this(1)] show "(pool_wf p' \<and> \<not> wp_stopping p') \<and> job_queue p' = job_queue p @ [job]
        \<and> KSI_WORKER_POOL_MAX_JOBS = KSI_WORKER_POOL_MAX_JOBS \<and> False = False
        \<and> (\<lambda>job. job_run job \<noteq> None \<and> job_context job \<noteq> None) = (\<lambda>job. job_run job \<noteq> None \<and> job_context job \<noteq> None)"
      by (auto split: if_splits)
  }
  have take: "if wp_count p = 0 then pool_try_take p = None
      else \<exists>job p'. pool_try_take p = Some (job, p') \<and> pool_wf p' \<and> \<not> wp_stopping p' \<and> job_queue p = job # job_queue p'"
  proof (cases "wp_count p = 0")
    case True
    then show ?thesis using wf by (simp add: pool_try_take_def worker_locked_def)
  next
    case False
    then obtain job p' where "worker_locked p = Some (Take job, p')" "job_queue p = job # job_queue p'"
        "length (wp_jobs p') = 128" "wp_head p' < 128" "wp_count p' = wp_count p - 1" "\<not> wp_stopping p'" "wp_active p' = wp_active p + 1"
      using worker_locked_take [of p] wf by auto
    moreover from this wf have "pool_wf (worker_done_locked p')"
      by (auto simp: pool_wf_def worker_done_locked_def)
    ultimately show ?thesis using False wf
      by (simp add: pool_try_take_def) (simp add: worker_done_locked_def job_queue_cong)
  qed
  then show "(pool_try_take p = None) = (job_queue p = [])"
    by (auto simp: job_queue_Nil split: if_splits)
  fix job p' assume "pool_try_take p = Some (job, p')"
  with take show "(pool_wf p' \<and> \<not> wp_stopping p') \<and> job_queue p = job # job_queue p'
      \<and> KSI_WORKER_POOL_MAX_JOBS = KSI_WORKER_POOL_MAX_JOBS \<and> False = False
      \<and> (\<lambda>job. job_run job \<noteq> None \<and> job_context job \<noteq> None) = (\<lambda>job. job_run job \<noteq> None \<and> job_context job \<noteq> None)"
    by (auto split: if_splits)
qed

section \<open>Owner and workers interleaved\<close>

text \<open>
  A worker is ready to take the mutex, asleep on the condition variable, running a job, or gone.
  \<open>sys_submitted\<close>, \<open>sys_started\<close> and \<open>sys_finished\<close> record the jobs accepted, taken and run.
  A signal wakes one sleeping worker if there is one; a sleeper may also wake by itself.
\<close>

datatype worker_state = Ready | Asleep | Running ksi_worker_job | Gone

record pool_system =
  sys_pool :: ksi_worker_pool_implementation
  sys_workers :: "worker_state list"
  sys_submitted :: "ksi_worker_job list"
  sys_started :: "ksi_worker_job list"
  sys_finished :: "ksi_worker_job list"

definition signalled :: "worker_state list \<Rightarrow> worker_state list \<Rightarrow> bool" where
  "signalled ws ws' \<longleftrightarrow> (\<exists>i < length ws. ws ! i = Asleep \<and> ws' = ws[i := Ready]) \<or> (Asleep \<notin> set ws \<and> ws' = ws)"

definition broadcast :: "worker_state list \<Rightarrow> worker_state list" where
  "broadcast ws = map (\<lambda>w. if w = Asleep then Ready else w) ws"

inductive pool_step :: "pool_system \<Rightarrow> pool_system \<Rightarrow> bool" where
  submit: "submit_locked (sys_pool t) job = Some (True, p') \<Longrightarrow> signalled (sys_workers t) ws \<Longrightarrow>
    pool_step t (t\<lparr>sys_pool := p', sys_workers := ws, sys_submitted := sys_submitted t @ [job]\<rparr>)"
| sleep: "i < length (sys_workers t) \<Longrightarrow> sys_workers t ! i = Ready \<Longrightarrow> worker_locked (sys_pool t) = Some (Wait, p') \<Longrightarrow>
    pool_step t (t\<lparr>sys_pool := p', sys_workers := (sys_workers t)[i := Asleep]\<rparr>)"
| spurious: "i < length (sys_workers t) \<Longrightarrow> sys_workers t ! i = Asleep \<Longrightarrow>
    pool_step t (t\<lparr>sys_workers := (sys_workers t)[i := Ready]\<rparr>)"
| take: "i < length (sys_workers t) \<Longrightarrow> sys_workers t ! i = Ready \<Longrightarrow> worker_locked (sys_pool t) = Some (Take job, p') \<Longrightarrow>
    pool_step t (t\<lparr>sys_pool := p', sys_workers := (sys_workers t)[i := Running job], sys_started := sys_started t @ [job]\<rparr>)"
| leave: "i < length (sys_workers t) \<Longrightarrow> sys_workers t ! i = Ready \<Longrightarrow> worker_locked (sys_pool t) = Some (Leave, p') \<Longrightarrow>
    pool_step t (t\<lparr>sys_pool := p', sys_workers := (sys_workers t)[i := Gone]\<rparr>)"
| finish: "i < length (sys_workers t) \<Longrightarrow> sys_workers t ! i = Running job \<Longrightarrow>
    pool_step t (t\<lparr>sys_pool := worker_done_locked (sys_pool t), sys_workers := (sys_workers t)[i := Ready],
                    sys_finished := sys_finished t @ [job]\<rparr>)"
| stop: "pool_step t (t\<lparr>sys_pool := (sys_pool t)\<lparr>wp_stopping := True\<rparr>, sys_workers := broadcast (sys_workers t)\<rparr>)"

fun running :: "worker_state \<Rightarrow> ksi_worker_job list" where
  "running (Running job) = [job]"
| "running _ = []"

definition in_hand :: "worker_state list \<Rightarrow> ksi_worker_job list" where
  "in_hand ws = concat (map running ws)"

definition ready_count :: "worker_state list \<Rightarrow> nat" where
  "ready_count ws = length (filter (\<lambda>w. w = Ready) ws)"

definition pool_inv :: "pool_system \<Rightarrow> bool" where
  "pool_inv t \<longleftrightarrow> pool_wf (sys_pool t) \<and> length (sys_workers t) = KSI_WORKER_POOL_MAX_THREADS
    \<and> wp_active (sys_pool t) = length (in_hand (sys_workers t))
    \<and> sys_submitted t = sys_started t @ job_queue (sys_pool t)
    \<and> mset (sys_started t) = mset (sys_finished t) + mset (in_hand (sys_workers t))
    \<and> (Asleep \<in> set (sys_workers t) \<longrightarrow> \<not> wp_stopping (sys_pool t) \<and> wp_count (sys_pool t) \<le> ready_count (sys_workers t))
    \<and> (Gone \<in> set (sys_workers t) \<longrightarrow> wp_stopping (sys_pool t))"

lemma worker_split: "i < length ws \<Longrightarrow> ws = take i ws @ ws ! i # drop (Suc i) ws"
  by (rule id_take_nth_drop)

lemma in_hand_update:
  "i < length ws \<Longrightarrow> mset (in_hand (ws[i := w])) + mset (running (ws ! i)) = mset (in_hand ws) + mset (running w)"
  using worker_split [of i ws] by (simp add: in_hand_def upd_conv_take_nth_drop) (metis add.assoc add.commute concat_append concat.simps(2) map_append list.simps(9) mset_append)

lemma ready_count_update:
  "i < length ws \<Longrightarrow> ready_count (ws[i := w]) + (if ws ! i = Ready then 1 else 0) = ready_count ws + (if w = Ready then 1 else 0)"
  unfolding ready_count_def
  by (subst (2) worker_split [of i ws]) (auto simp: upd_conv_take_nth_drop)

lemma in_hand_bound: "length (in_hand ws) \<le> length ws"
proof (induction ws)
  case (Cons w ws)
  then show ?case by (cases w) (auto simp: in_hand_def)
qed (simp add: in_hand_def)

lemma length_in_hand: "length (in_hand ws) = size (mset (in_hand ws))"
  by simp

lemma pool_wf_active:
  "pool_wf p \<Longrightarrow> a < 1000 \<Longrightarrow> pool_wf (p\<lparr>wp_active := a\<rparr>)"
  by (simp add: pool_wf_def size_t_mod_def)

lemma set_update_cases: "x \<in> set (ws[i := w]) \<Longrightarrow> x = w \<or> x \<in> set ws"
  using set_update_subset_insert [of ws i w] by auto

lemma inv_submit:
  assumes "pool_inv t" and "submit_locked (sys_pool t) job = Some (True, p')" and "signalled (sys_workers t) ws"
  shows "pool_inv (t\<lparr>sys_pool := p', sys_workers := ws, sys_submitted := sys_submitted t @ [job]\<rparr>)"
proof -
  have "\<not> wp_stopping (sys_pool t)" "wp_count (sys_pool t) < 128"
    using assms(2) by (auto simp: submit_locked_def split: if_splits)
  then have p': "pool_wf p'" "job_queue p' = job_queue (sys_pool t) @ [job]" "wp_count p' = wp_count (sys_pool t) + 1"
      "wp_stopping p' = wp_stopping (sys_pool t)" "wp_active p' = wp_active (sys_pool t)"
    using submit_locked_accepted [of "sys_pool t" job] assms(1,2) by (auto simp: pool_inv_def)
  show ?thesis
  proof (cases "Asleep \<in> set (sys_workers t)")
    case True
    then obtain i where i: "i < length (sys_workers t)" "sys_workers t ! i = Asleep" "ws = (sys_workers t)[i := Ready]"
      using assms(3) by (auto simp: signalled_def)
    with in_hand_update [OF i(1), of Ready] ready_count_update [OF i(1), of Ready] p' assms(1) True show ?thesis
      by (auto simp: pool_inv_def length_in_hand simp del: size_mset dest: set_update_cases)
  next
    case False
    then have "ws = sys_workers t" using assms(3) by (auto simp: signalled_def in_set_conv_nth)
    with p' assms(1) False show ?thesis by (auto simp: pool_inv_def)
  qed
qed

lemma inv_take:
  assumes "pool_inv t" and "i < length (sys_workers t)" and "sys_workers t ! i = Ready"
    and "worker_locked (sys_pool t) = Some (Take job, p')"
  shows "pool_inv (t\<lparr>sys_pool := p', sys_workers := (sys_workers t)[i := Running job], sys_started := sys_started t @ [job]\<rparr>)"
proof -
  have live: "\<not> wp_stopping (sys_pool t)" "wp_count (sys_pool t) \<noteq> 0"
    using assms(4) by (auto simp: worker_locked_def split: if_splits)
  with assms(1,4) have p': "job_queue (sys_pool t) = job # job_queue p'" "length (wp_jobs p') = 128" "wp_head p' < 128"
      "wp_count p' = wp_count (sys_pool t) - 1" "\<not> wp_stopping p'" "wp_active p' = wp_active (sys_pool t) + 1"
    using worker_locked_take [of "sys_pool t"] by (auto simp: pool_inv_def)
  have "wp_active (sys_pool t) \<le> 2" using assms(1) in_hand_bound [of "sys_workers t"] by (simp add: pool_inv_def)
  then have "pool_wf p'" using p' assms(1) by (auto simp: pool_wf_def pool_inv_def size_t_mod_def)
  moreover note in_hand_update [OF assms(2), of "Running job"] ready_count_update [OF assms(2), of "Running job"]
  ultimately show ?thesis using p' assms live(1)
    by (auto simp: pool_inv_def length_in_hand simp del: size_mset dest: set_update_cases)
qed

lemma inv_finish:
  assumes "pool_inv t" and "i < length (sys_workers t)" and "sys_workers t ! i = Running job"
  shows "pool_inv (t\<lparr>sys_pool := worker_done_locked (sys_pool t), sys_workers := (sys_workers t)[i := Ready],
      sys_finished := sys_finished t @ [job]\<rparr>)"
proof -
  have hand: "mset (in_hand ((sys_workers t)[i := Ready])) + {#job#} = mset (in_hand (sys_workers t))"
    using in_hand_update [OF assms(2), of Ready] assms(3) by simp
  then have n: "length (in_hand (sys_workers t)) = length (in_hand ((sys_workers t)[i := Ready])) + 1"
    by (metis size_mset size_single size_union)
  have "wp_active (sys_pool t) \<le> 2" using assms(1) in_hand_bound [of "sys_workers t"] by (simp add: pool_inv_def)
  then have act: "size_t_sub (wp_active (sys_pool t)) 1 = wp_active (sys_pool t) - 1"
    using assms(1) n by (intro size_t_sub_small) (auto simp: pool_inv_def size_t_mod_def)
  show ?thesis
    using ready_count_update [OF assms(2), of Ready] hand n assms act pool_wf_active [of "sys_pool t" "wp_active (sys_pool t) - 1"] \<open>wp_active (sys_pool t) \<le> 2\<close>
    by (auto simp: pool_inv_def worker_done_locked_def job_queue_cong dest: set_update_cases)
qed

lemma worker_locked_same:
  "worker_locked p = Some (Wait, p') \<Longrightarrow> p' = p \<and> wp_count p = 0 \<and> \<not> wp_stopping p"
  "worker_locked p = Some (Leave, p') \<Longrightarrow> p' = p \<and> wp_stopping p"
  by (auto simp: worker_locked_def split: if_splits bind_splits)

lemma in_hand_broadcast [simp]: "in_hand (broadcast ws) = in_hand ws"
proof (induction ws)
  case (Cons w ws)
  then show ?case by (cases w) (auto simp: in_hand_def broadcast_def)
qed (simp add: in_hand_def broadcast_def)

lemma pool_inv_step: "pool_step t u \<Longrightarrow> pool_inv t \<Longrightarrow> pool_inv u"
proof (induction rule: pool_step.induct)
  case (submit t job p' ws)
  then show ?case by (rule inv_submit [rotated])
next
  case (sleep i t p')
  with worker_locked_same(1) [of "sys_pool t" p'] in_hand_update [of i "sys_workers t" Asleep]
    ready_count_update [of i "sys_workers t" Asleep]
  show ?case by (auto simp: pool_inv_def length_in_hand simp del: size_mset dest: set_update_cases)
next
  case (spurious i t)
  with in_hand_update [of i "sys_workers t" Ready] ready_count_update [of i "sys_workers t" Ready]
  show ?case by (auto simp: pool_inv_def length_in_hand simp del: size_mset dest: set_update_cases)
next
  case (take i t job p')
  then show ?case by (intro inv_take)
next
  case (leave i t p')
  with worker_locked_same(2) [of "sys_pool t" p'] in_hand_update [of i "sys_workers t" Gone]
    ready_count_update [of i "sys_workers t" Gone]
  show ?case by (auto simp: pool_inv_def length_in_hand simp del: size_mset dest: set_update_cases)
next
  case (finish i t job)
  then show ?case by (intro inv_finish)
next
  case (stop t)
  then show ?case by (auto simp: pool_inv_def pool_wf_def job_queue_cong) (auto simp: broadcast_def split: if_splits)
qed

lemma pool_inv_reachable: "pool_step\<^sup>*\<^sup>* t u \<Longrightarrow> pool_inv t \<Longrightarrow> pool_inv u"
  by (induction rule: rtranclp_induct) (auto intro: pool_inv_step)

definition started_pool :: "ksi_worker_pool_implementation \<Rightarrow> pool_system" where
  "started_pool p = \<lparr>sys_pool = p, sys_workers = replicate (wp_thread_count p) Ready,
     sys_submitted = [], sys_started = [], sys_finished = []\<rparr>"

lemma create_threads_fields:
  "create_threads create is p = Some q \<Longrightarrow>
   wp_thread_count q = wp_thread_count p + length is \<and> wp_stopping q = wp_stopping p \<and> wp_jobs q = wp_jobs p
   \<and> wp_head q = wp_head p \<and> wp_count q = wp_count p \<and> wp_active q = wp_active p"
  by (induction "is" arbitrary: p) (auto split: option.splits)

lemma init_inv:
  assumes "ksi_worker_pool_init alloc mutex condition create pool = (0, Some r)"
    and "pool_implementation r = Some p"
  shows "pool_inv (started_pool p)"
proof -
  have "wp_thread_count p = 2 \<and> \<not> wp_stopping p \<and> wp_jobs p = replicate 128 zero_job
      \<and> wp_head p = 0 \<and> wp_count p = 0 \<and> wp_active p = 0"
    using assms by (auto simp: ksi_worker_pool_init_def dest!: create_threads_fields split: option.splits if_splits)
  then show ?thesis
    by (simp add: started_pool_def pool_inv_def pool_wf_def job_queue_def in_hand_def size_t_mod_def)
qed

fun destructor_call :: "ksi_worker_job \<Rightarrow> (nat \<times> nat ptr) list" where
  "destructor_call job = (case job_destroy job of None \<Rightarrow> [] | Some f \<Rightarrow> [(f, job_context job)])"

lemma destroy_loop_eq:
  assumes "pool_wf p" and "\<forall>i \<in> set is. i < 128"
  shows "destroy_loop p is = Some (concat (map (\<lambda>i. destructor_call (wp_jobs p ! ((wp_head p + i) mod 128))) is))"
  using assms(2)
proof (induction "is")
  case (Cons i "is")
  have "size_t_add (wp_head p) i = wp_head p + i"
    using assms(1) Cons.prems by (simp add: pool_wf_def size_t_mod_def)
  with Cons assms(1) show ?case by (auto simp: pool_wf_def mem_simps split: option.splits)
qed simp

lemma destroy_calls:
  assumes "pool_wf p"
  shows "ksi_worker_pool_destroy (Some \<lparr>pool_implementation = Some p\<rparr>) =
    Some (concat (map destructor_call (job_queue p)), Some \<lparr>pool_implementation = None\<rparr>)"
proof -
  have "\<forall>i \<in> set [0..<wp_count p]. i < 128" using assms by (auto simp: pool_wf_def)
  from destroy_loop_eq [OF assms this] assms show ?thesis
    by (simp add: ksi_worker_pool_destroy_def job_queue_def ring_items_def pool_wf_def o_def)
qed

definition example_job :: ksi_worker_job where
  "example_job = \<lparr>job_run = Some 4096, job_destroy = Some 8192, job_context = Some 7\<rparr>"

lemma example_run:
  "\<exists>r p t. ksi_worker_pool_init True True True Some (Some \<lparr>pool_implementation = None\<rparr>) = (0, Some r)
     \<and> pool_implementation r = Some p \<and> pool_step\<^sup>*\<^sup>* (started_pool p) t
     \<and> sys_submitted t = [example_job] \<and> job_queue (sys_pool t) = [example_job] \<and> \<not> wp_stopping (sys_pool t)"
proof -
  obtain r p where i: "ksi_worker_pool_init True True True Some (Some \<lparr>pool_implementation = None\<rparr>) = (0, Some r)"
      "pool_implementation r = Some p"
    by (simp add: ksi_worker_pool_init_def upt_conv_Cons numeral_2_eq_2)
  have inv: "pool_inv (started_pool p)" by (rule init_inv [OF i])
  have p: "pool_wf p" "job_queue p = []" "wp_count p = 0" "\<not> wp_stopping p"
    using inv i by (auto simp: pool_inv_def started_pool_def ksi_worker_pool_init_def job_queue_Nil dest!: create_threads_fields split: option.splits)
  then obtain p' where p': "submit_locked p example_job = Some (True, p')" "job_queue p' = [example_job]" "\<not> wp_stopping p'"
    using submit_locked_accepted [of p example_job] by auto
  define t where "t = (started_pool p)\<lparr>sys_pool := p', sys_workers := sys_workers (started_pool p),
      sys_submitted := sys_submitted (started_pool p) @ [example_job]\<rparr>"
  have "pool_step (started_pool p) t"
    unfolding t_def using p'(1) by (intro pool_step.submit) (auto simp: started_pool_def signalled_def)
  then have "pool_step\<^sup>*\<^sup>* (started_pool p) t" by simp
  moreover have "sys_submitted t = [example_job]" "sys_pool t = p'" by (simp_all add: t_def started_pool_def)
  ultimately show ?thesis using i p' by (intro exI [of _ r] exI [of _ p] exI [of _ t]) simp
qed

text \<open>
  C20. However owner and workers interleave, no job is lost, duplicated or reordered: the jobs
  accepted so far are, in order, the jobs taken by workers followed by the queue; each taken job
  is finished or in the hands of exactly one worker; the pool reports work exactly while a job is
  queued or in hand. Once every worker has left, destroying the pool calls the destructor of
  exactly the queued jobs, in order, so every accepted job was run or destroyed, and no job both.
\<close>

theorem worker_pool_jobs_once:
  assumes "ksi_worker_pool_init alloc mutex condition create pool = (0, Some r)" and "pool_implementation r = Some p"
    and "pool_step\<^sup>*\<^sup>* (started_pool p) t"
  shows "sys_submitted t = sys_started t @ job_queue (sys_pool t)
    \<and> mset (sys_started t) = mset (sys_finished t) + mset (in_hand (sys_workers t))
    \<and> (ksi_worker_pool_has_work (Some \<lparr>pool_implementation = Some (sys_pool t)\<rparr>)
        \<longleftrightarrow> job_queue (sys_pool t) \<noteq> [] \<or> in_hand (sys_workers t) \<noteq> [])
    \<and> (set (sys_workers t) = {Gone} \<longrightarrow>
        ksi_worker_pool_destroy (Some \<lparr>pool_implementation = Some (sys_pool t)\<rparr>)
          = Some (concat (map destructor_call (job_queue (sys_pool t))), Some \<lparr>pool_implementation = None\<rparr>)
        \<and> mset (sys_submitted t) = mset (sys_finished t) + mset (job_queue (sys_pool t)))"
proof -
  have inv: "pool_inv t" using pool_inv_reachable [OF assms(3) init_inv [OF assms(1,2)]] .
  have "in_hand (sys_workers t) = []" if "set (sys_workers t) = {Gone}"
    using that by (auto simp: in_hand_def)
  moreover have "ksi_worker_pool_has_work (Some \<lparr>pool_implementation = Some (sys_pool t)\<rparr>)
      \<longleftrightarrow> job_queue (sys_pool t) \<noteq> [] \<or> in_hand (sys_workers t) \<noteq> []"
    using inv by (auto simp: pool_inv_def ksi_worker_pool_has_work_def job_queue_Nil)
  ultimately show ?thesis
    using inv destroy_calls [of "sys_pool t"] unfolding pool_inv_def by auto
qed

theorem worker_pool_jobs_once_witness:
  "\<exists>t :: pool_system. sys_submitted t = [example_job] \<and> sys_submitted t = sys_started t @ job_queue (sys_pool t)
     \<and> ksi_worker_pool_has_work (Some \<lparr>pool_implementation = Some (sys_pool t)\<rparr>)"
proof -
  obtain r p t where "ksi_worker_pool_init True True True Some (Some \<lparr>pool_implementation = None\<rparr>) = (0, Some r)"
      "pool_implementation r = Some p" "pool_step\<^sup>*\<^sup>* (started_pool p) t" "sys_submitted t = [example_job]"
      "job_queue (sys_pool t) = [example_job]"
    using example_run by blast
  with worker_pool_jobs_once [OF this(1-3)] show ?thesis by (intro exI [of _ t]) simp
qed

text \<open>
  C21. Workers do not oversleep: as long as the pool is not stopping and a job is queued, some
  worker is awake, ready for the mutex or running a job; and once a stop is requested no
  worker is asleep any more, so every worker ends after the job in its hands.
\<close>

theorem worker_pool_progress:
  assumes "ksi_worker_pool_init alloc mutex condition create pool = (0, Some r)" and "pool_implementation r = Some p"
    and "pool_step\<^sup>*\<^sup>* (started_pool p) t"
  shows "(\<not> wp_stopping (sys_pool t) \<and> job_queue (sys_pool t) \<noteq> [] \<longrightarrow>
        (\<exists>w \<in> set (sys_workers t). w = Ready \<or> (\<exists>job. w = Running job)))
    \<and> (wp_stopping (sys_pool t) \<longrightarrow> Asleep \<notin> set (sys_workers t))"
proof -
  have inv: "pool_inv t" using pool_inv_reachable [OF assms(3) init_inv [OF assms(1,2)]] .
  have "\<exists>w \<in> set (sys_workers t). w = Ready \<or> (\<exists>job. w = Running job)"
    if "\<not> wp_stopping (sys_pool t)" "job_queue (sys_pool t) \<noteq> []"
  proof (rule ccontr)
    assume none: "\<not> (\<exists>w \<in> set (sys_workers t). w = Ready \<or> (\<exists>job. w = Running job))"
    have "sys_workers t \<noteq> []" using inv by (auto simp: pool_inv_def)
    then obtain w where w: "w \<in> set (sys_workers t)" by (cases "sys_workers t") auto
    with none inv that(1) have "w = Asleep" by (cases w) (auto simp: pool_inv_def)
    moreover have "ready_count (sys_workers t) = 0"
      using none by (auto simp: ready_count_def filter_empty_conv)
    ultimately have "wp_count (sys_pool t) = 0" using inv w by (auto simp: pool_inv_def)
    with that(2) show False by (simp add: job_queue_def)
  qed
  with inv show ?thesis by (auto simp: pool_inv_def)
qed

theorem worker_pool_progress_witness:
  "\<exists>t :: pool_system. job_queue (sys_pool t) = [example_job] \<and> (\<exists>w \<in> set (sys_workers t). w = Ready \<or> (\<exists>job. w = Running job))"
proof -
  obtain r p t where "ksi_worker_pool_init True True True Some (Some \<lparr>pool_implementation = None\<rparr>) = (0, Some r)"
      "pool_implementation r = Some p" "pool_step\<^sup>*\<^sup>* (started_pool p) t"
      "job_queue (sys_pool t) = [example_job]" "\<not> wp_stopping (sys_pool t)"
    using example_run by blast
  with worker_pool_progress [OF this(1-3)] show ?thesis by (intro exI [of _ t]) simp
qed

text \<open>
  The bounded wait at shutdown: the time handed to the timed join is the current time plus
  exactly the milliseconds that remain, in normal form (less than \<open>10 ^ 9\<close> nanoseconds).
\<close>

theorem join_until_exact:
  assumes "0 \<le> nsec" and "nsec < 1000000000" and "join_until (sec, nsec) remaining_ms = (sec', nsec')"
  shows "0 \<le> nsec' \<and> nsec' < 1000000000
    \<and> sec' * 1000000000 + nsec' = sec * 1000000000 + nsec + uint remaining_ms * 1000000"
proof -
  define n where "n = uint remaining_ms"
  have m: "uint (remaining_ms mod 1000) = n mod 1000" "uint (remaining_ms div 1000) = n div 1000"
    by (simp_all add: n_def uint_mod uint_div)
  have "unat (remaining_ms mod 1000) < 1000" by (simp add: unat_mod)
  then have "uint (remaining_ms mod 1000 * 1000000) = n mod 1000 * 1000000"
    unfolding m(1) [symmetric] by (subst uint_mult_lem [THEN iffD1]) (simp_all add: m)
  moreover have "n * 1000000 = n div 1000 * 1000000000 + n mod 1000 * 1000000"
    using div_mult_mod_eq [of n 1000] by linarith
  ultimately show ?thesis using assms m(2)
    by (auto simp: join_until_def Let_def n_def [symmetric] split: if_splits)
qed

theorem join_until_exact_witness: "join_until (100, 999999999) 1500 = (102, 499999999)"
  using join_until_exact [of 999999999 100 1500 "fst (join_until (100, 999999999) 1500)" "snd (join_until (100, 999999999) 1500)"]
  by (auto simp: prod_eq_iff) (simp_all add: join_until_def)

text \<open>
  The job ring is a bounded FIFO queue of 128 jobs: any sequence of submissions and takes on
  a running pool answers as a list of at most 128 jobs does.
\<close>

theorem job_ring_fifo:
  assumes "pool_wf p" and "\<not> wp_stopping p"
    and "list_all (op_item_ok (\<lambda>job. job_run job \<noteq> None \<and> job_context job \<noteq> None)) ops"
  shows "fst (queue_run pool_try_submit pool_try_take p ops) = fst (list_run KSI_WORKER_POOL_MAX_JOBS False (job_queue p) ops)"
  using job_queue_law.run_refines [of p ops] assms by auto

theorem job_ring_fifo_witness:
  "\<exists>p. fst (queue_run pool_try_submit pool_try_take p [Push example_job, Pop, Pop])
     = [Pushed True, Popped (Some example_job), Popped None]"
proof -
  define p where "p = \<lparr>wp_stopping = False, wp_threads = [], wp_thread_count = 0, wp_jobs = replicate 128 zero_job,
    wp_head = 127, wp_count = 0, wp_active = 0\<rparr>"
  have "pool_wf p" "\<not> wp_stopping p" "job_queue p = []"
    by (simp_all add: p_def pool_wf_def job_queue_Nil size_t_mod_def)
  with job_ring_fifo [of p "[Push example_job, Pop, Pop]"] show ?thesis
    by (intro exI [of _ p]) (simp add: example_job_def)
qed

end
