(* ===== verification/Device_Codec.thy ===== *)
theory Device_Codec
  imports Wire
begin

text \<open>
  The wire codec of device descriptions and gamepad readings, src/src/device_codec.h, with the
  structures of src/include/keysharp_input/devices.h. A decoder that rejects its input may have
  filled part of the structure already; the model returns it as the code leaves it.
\<close>

section \<open>Structures\<close>

record ksi_device_axis_info =
  axis_struct_size :: u32
  axis_code :: u32
  axis_minimum :: int32
  axis_maximum :: int32
  axis_fuzz :: int32
  axis_flat :: int32
  axis_resolution :: int32
  axis_reserved :: u32

record ksi_device_info =
  dev_struct_size :: u32
  dev_device_id :: u32
  dev_capabilities :: u32
  dev_bus_type :: u16
  dev_vendor :: u16
  dev_product :: u16
  dev_version :: u16
  dev_reserved0 :: u32
  dev_name :: bytes
  dev_path :: bytes
  dev_physical :: bytes
  dev_unique :: bytes
  dev_axis_count :: u32
  dev_reserved1 :: u32
  dev_axes :: "ksi_device_axis_info list"
  dev_button_count :: u32
  dev_reserved2 :: u32
  dev_button_codes :: "u16 list"
  dev_reserved :: "u64 list"

record ksi_gamepad_axis_state =
  gaxis_struct_size :: u32
  gaxis_code :: u32
  gaxis_value :: int32
  gaxis_reserved :: u32

record ksi_gamepad_state =
  pad_struct_size :: u32
  pad_device_id :: u32
  pad_device_generation :: u64
  pad_button_count :: u32
  pad_axis_count :: u32
  pad_buttons :: bytes
  pad_axes :: "ksi_gamepad_axis_state list"
  pad_reserved :: "u64 list"

text \<open>The zeroed structures, and the sizes that \<open>sizeof\<close> gives for them.\<close>

definition zero_axis :: ksi_device_axis_info where
  "zero_axis = \<lparr>axis_struct_size = 0, axis_code = 0, axis_minimum = 0, axis_maximum = 0, axis_fuzz = 0,
     axis_flat = 0, axis_resolution = 0, axis_reserved = 0\<rparr>"

definition zero_device :: ksi_device_info where
  "zero_device = \<lparr>dev_struct_size = 0, dev_device_id = 0, dev_capabilities = 0, dev_bus_type = 0,
     dev_vendor = 0, dev_product = 0, dev_version = 0, dev_reserved0 = 0,
     dev_name = replicate KSI_DEVICE_NAME_CAPACITY 0, dev_path = replicate KSI_DEVICE_PATH_CAPACITY 0,
     dev_physical = replicate KSI_DEVICE_PHYSICAL_CAPACITY 0, dev_unique = replicate KSI_DEVICE_UNIQUE_CAPACITY 0,
     dev_axis_count = 0, dev_reserved1 = 0, dev_axes = replicate KSI_DEVICE_AXIS_CAPACITY zero_axis,
     dev_button_count = 0, dev_reserved2 = 0, dev_button_codes = replicate KSI_DEVICE_BUTTON_CAPACITY 0,
     dev_reserved = replicate 4 0\<rparr>"

definition zero_gaxis :: ksi_gamepad_axis_state where
  "zero_gaxis = \<lparr>gaxis_struct_size = 0, gaxis_code = 0, gaxis_value = 0, gaxis_reserved = 0\<rparr>"

definition zero_gamepad :: ksi_gamepad_state where
  "zero_gamepad = \<lparr>pad_struct_size = 0, pad_device_id = 0, pad_device_generation = 0, pad_button_count = 0,
     pad_axis_count = 0, pad_buttons = replicate KSI_DEVICE_BUTTON_BITMAP_BYTES 0,
     pad_axes = replicate KSI_DEVICE_AXIS_CAPACITY zero_gaxis, pad_reserved = replicate 4 0\<rparr>"

definition sizeof_axis :: u32 where "sizeof_axis = 32"
definition sizeof_device :: u32 where "sizeof_device = 3528"
definition sizeof_gaxis :: u32 where "sizeof_gaxis = 16"
definition sizeof_gamepad :: u32 where "sizeof_gamepad = 1096"

section \<open>Field access\<close>

definition ksi_device_write :: "bytes \<Rightarrow> nat \<Rightarrow> u32 \<Rightarrow> nat \<Rightarrow> bytes mem" where
  "ksi_device_write out off v count =
    mem_for (\<lambda>i out. wr8 out (off + i) (ucast (drop_bit (i * 8) v))) [0..<count] out"

definition ksi_device_read :: "bytes \<Rightarrow> nat \<Rightarrow> nat \<Rightarrow> u32 mem" where
  "ksi_device_read src off count =
    mem_for (\<lambda>i v. do { b \<leftarrow> rd8 src (off + i); Some (v OR push_bit (i * 8) (ucast b)) }) [0..<count] 0"

lemma write_loop:
  fixes v :: "'a::len word"
  assumes "off + n \<le> length d"
  shows "mem_for (\<lambda>i out. wr8 out (off + i) (ucast (drop_bit (i * 8) v))) [0..<n] d = Some (put_bytes d off (le_write n v))"
  using assms
proof (induction n)
  case 0
  then show ?case by (simp add: put_bytes_def)
next
  case (Suc n)
  have "le_write (Suc n) v = le_write n v @ [ucast (drop_bit (n * 8) v)]"
    by (simp add: le_write_def mult.commute)
  with Suc show ?case
    by (simp add: mem_for_append mem_simps put_put_fold)
qed

lemma read_loop:
  assumes "off + n \<le> length s"
  shows "mem_for (\<lambda>i (v :: 'a::len word). do { b \<leftarrow> rd8 s (off + i); Some (v OR push_bit (i * 8) (ucast b)) }) [0..<n] 0
    = Some (le_read (get_bytes s off n))"
  using assms
proof (induction n)
  case 0
  then show ?case by simp
next
  case (Suc n)
  have "get_bytes s off (Suc n) = get_bytes s off n @ [s ! (off + n)]"
    using Suc.prems get_bytes_split [of s off n 1] by (simp add: get_bytes_Suc)
  with Suc show ?case
    by (simp add: mem_for_append mem_simps le_read_append mult.commute)
qed

lemma device_write_eq: "off + n \<le> length d \<Longrightarrow> ksi_device_write d off v n = Some (put_bytes d off (le_write n v))"
  unfolding ksi_device_write_def by (rule write_loop)

lemma device_read_eq: "off + n \<le> length s \<Longrightarrow> ksi_device_read s off n = Some (le_read (get_bytes s off n))"
  unfolding ksi_device_read_def by (rule read_loop)

lemma unat_ucast_u16 [simp]: "unat (ucast (x :: u16) :: u32) = unat x"
proof -
  have "unat x < 2 ^ 32" using unsigned_less [of x, where 'a = nat] by simp
  then show ?thesis by (simp add: unsigned_ucast_eq take_bit_nat_eq_self)
qed

lemma ucast_le_read16: "length bs = 2 \<Longrightarrow> (ucast (le_read bs :: u32) :: u16) = le_read bs"
  by (simp add: ucast_le_read)

section \<open>Device descriptions\<close>

definition encode_axis :: "bytes \<Rightarrow> nat \<Rightarrow> ksi_device_axis_info \<Rightarrow> bytes mem" where
  "encode_axis out axis info = do {
     out \<leftarrow> ksi_device_write out axis (axis_code info) 4;
     out \<leftarrow> ksi_device_write out (axis + 4) (axis_minimum info) 4;
     out \<leftarrow> ksi_device_write out (axis + 8) (axis_maximum info) 4;
     out \<leftarrow> ksi_device_write out (axis + 12) (axis_fuzz info) 4;
     out \<leftarrow> ksi_device_write out (axis + 16) (axis_flat info) 4;
     ksi_device_write out (axis + 20) (axis_resolution info) 4
   }"

definition ksi_device_encode :: "bytes \<Rightarrow> ksi_device_info \<Rightarrow> bytes mem" where
  "ksi_device_encode out device = do {
     out \<leftarrow> mem_zero out 0 KSI_DEVICE_INFO_WIRE_SIZE;
     out \<leftarrow> ksi_device_write out 0 (dev_device_id device) 4;
     out \<leftarrow> ksi_device_write out 4 (dev_capabilities device) 4;
     out \<leftarrow> ksi_device_write out 8 (ucast (dev_bus_type device)) 2;
     out \<leftarrow> ksi_device_write out 10 (ucast (dev_vendor device)) 2;
     out \<leftarrow> ksi_device_write out 12 (ucast (dev_product device)) 2;
     out \<leftarrow> ksi_device_write out 14 (ucast (dev_version device)) 2;
     bs \<leftarrow> mem_read (dev_name device) 0 KSI_DEVICE_NAME_CAPACITY;
     out \<leftarrow> mem_copy out 24 bs;
     bs \<leftarrow> mem_read (dev_path device) 0 KSI_DEVICE_PATH_CAPACITY;
     out \<leftarrow> mem_copy out 280 bs;
     bs \<leftarrow> mem_read (dev_physical device) 0 KSI_DEVICE_PHYSICAL_CAPACITY;
     out \<leftarrow> mem_copy out 792 bs;
     bs \<leftarrow> mem_read (dev_unique device) 0 KSI_DEVICE_UNIQUE_CAPACITY;
     out \<leftarrow> mem_copy out 1048 bs;
     out \<leftarrow> ksi_device_write out 1176 (dev_axis_count device) 4;
     out \<leftarrow> mem_for (\<lambda>i out. do {
         info \<leftarrow> arr_get (dev_axes device) i;
         encode_axis out (1184 + i * 24) info
       }) [0..<min (unat (dev_axis_count device)) KSI_DEVICE_AXIS_CAPACITY] out;
     out \<leftarrow> ksi_device_write out 2720 (dev_button_count device) 4;
     mem_for (\<lambda>i out. do {
         code \<leftarrow> arr_get (dev_button_codes device) i;
         ksi_device_write out (2728 + i * 2) (ucast code) 2
       }) [0..<min (unat (dev_button_count device)) KSI_DEVICE_BUTTON_CAPACITY] out
   }"

text \<open>\<open>memchr(\<dots>, 0, n) == NULL\<close>\<close>

definition no_terminator :: "bytes \<Rightarrow> nat \<Rightarrow> nat \<Rightarrow> bool mem" where
  "no_terminator src off n = do { bs \<leftarrow> mem_read src off n; Some (0 \<notin> set bs) }"

fun decode_axes :: "bytes \<Rightarrow> nat list \<Rightarrow> ksi_device_info \<Rightarrow> (bool \<times> ksi_device_info) mem" where
  "decode_axes src [] device = Some (True, device)"
| "decode_axes src (i # is) device = do {
     let axis = 1184 + i * 24;
     info \<leftarrow> arr_get (dev_axes device) i;
     code \<leftarrow> ksi_device_read src axis 4;
     let info = info\<lparr>axis_struct_size := sizeof_axis, axis_code := code\<rparr>;
     axes \<leftarrow> arr_set (dev_axes device) i info;
     bad \<leftarrow> mem_or (Some (unat code \<ge> KSI_DEVICE_AXIS_CAPACITY))
       (if i \<noteq> 0 then do { prev \<leftarrow> arr_get axes (i - 1); Some (code \<le> axis_code prev) } else Some False);
     if bad then Some (False, device\<lparr>dev_axes := axes\<rparr>)
     else do {
       minimum \<leftarrow> ksi_device_read src (axis + 4) 4;
       maximum \<leftarrow> ksi_device_read src (axis + 8) 4;
       fuzz \<leftarrow> ksi_device_read src (axis + 12) 4;
       flat \<leftarrow> ksi_device_read src (axis + 16) 4;
       resolution \<leftarrow> ksi_device_read src (axis + 20) 4;
       axes \<leftarrow> arr_set axes i (info\<lparr>axis_minimum := minimum, axis_maximum := maximum, axis_fuzz := fuzz,
         axis_flat := flat, axis_resolution := resolution\<rparr>);
       decode_axes src is (device\<lparr>dev_axes := axes\<rparr>)
     }
   }"

fun decode_buttons :: "bytes \<Rightarrow> u32 \<Rightarrow> nat list \<Rightarrow> bool \<Rightarrow> ksi_device_info \<Rightarrow> (bool \<times> bool \<times> ksi_device_info) mem" where
  "decode_buttons src first [] descended device = Some (True, descended, device)"
| "decode_buttons src first (i # is) descended device = do {
     v \<leftarrow> ksi_device_read src (2728 + i * 2) 2;
     let code = (ucast v :: u16);
     if code = 0 then Some (False, descended, device)
     else do {
       down \<leftarrow> (if i \<noteq> 0 then do { prev \<leftarrow> arr_get (dev_button_codes device) (i - 1); Some (code \<le> prev) } else Some False);
       if down \<and> (descended \<or> ucast code \<ge> first) then Some (False, descended, device)
       else do {
         codes \<leftarrow> arr_set (dev_button_codes device) i code;
         decode_buttons src first is (descended \<or> down) (device\<lparr>dev_button_codes := codes\<rparr>)
       }
     }
   }"

definition ksi_device_decode :: "bytes \<Rightarrow> nat \<Rightarrow> ksi_device_info \<Rightarrow> (bool \<times> ksi_device_info) mem" where
  "ksi_device_decode src sz device = do {
     bad \<leftarrow> mem_or (Some (sz \<noteq> KSI_DEVICE_INFO_WIRE_SIZE))
       (mem_or (do { v \<leftarrow> ksi_device_read src 0 4; Some (v = 0) })
       (mem_or (do { v \<leftarrow> ksi_device_read src 16 4; Some (v \<noteq> 0) })
       (mem_or (do { v \<leftarrow> ksi_device_read src 20 4; Some (v \<noteq> 0) })
       (mem_or (no_terminator src 24 KSI_DEVICE_NAME_CAPACITY)
       (mem_or (no_terminator src 280 KSI_DEVICE_PATH_CAPACITY)
       (mem_or (no_terminator src 792 KSI_DEVICE_PHYSICAL_CAPACITY)
         (no_terminator src 1048 KSI_DEVICE_UNIQUE_CAPACITY)))))));
     if bad then Some (False, device)
     else do {
       count \<leftarrow> ksi_device_read src 1176 4;
       bad \<leftarrow> mem_or (Some (unat count > KSI_DEVICE_AXIS_CAPACITY)) (do { v \<leftarrow> ksi_device_read src 1180 4; Some (v \<noteq> 0) });
       if bad then Some (False, device)
       else do {
         let device = zero_device\<lparr>dev_struct_size := sizeof_device\<rparr>;
         v \<leftarrow> ksi_device_read src 0 4; let device = device\<lparr>dev_device_id := v\<rparr>;
         v \<leftarrow> ksi_device_read src 4 4; let device = device\<lparr>dev_capabilities := v\<rparr>;
         v \<leftarrow> ksi_device_read src 8 2; let device = device\<lparr>dev_bus_type := ucast v\<rparr>;
         v \<leftarrow> ksi_device_read src 10 2; let device = device\<lparr>dev_vendor := ucast v\<rparr>;
         v \<leftarrow> ksi_device_read src 12 2; let device = device\<lparr>dev_product := ucast v\<rparr>;
         v \<leftarrow> ksi_device_read src 14 2; let device = device\<lparr>dev_version := ucast v\<rparr>;
         bs \<leftarrow> mem_read src 24 KSI_DEVICE_NAME_CAPACITY; let device = device\<lparr>dev_name := bs\<rparr>;
         bs \<leftarrow> mem_read src 280 KSI_DEVICE_PATH_CAPACITY; let device = device\<lparr>dev_path := bs\<rparr>;
         bs \<leftarrow> mem_read src 792 KSI_DEVICE_PHYSICAL_CAPACITY; let device = device\<lparr>dev_physical := bs\<rparr>;
         bs \<leftarrow> mem_read src 1048 KSI_DEVICE_UNIQUE_CAPACITY; let device = device\<lparr>dev_unique := bs\<rparr>;
         let device = device\<lparr>dev_axis_count := count\<rparr>;
         (ok, device) \<leftarrow> decode_axes src [0..<unat count] device;
         if \<not> ok then Some (False, device)
         else do {
           button_count \<leftarrow> ksi_device_read src 2720 4;
           bad \<leftarrow> mem_or (Some (unat button_count > KSI_DEVICE_BUTTON_CAPACITY)) (do { v \<leftarrow> ksi_device_read src 2724 4; Some (v \<noteq> 0) });
           if bad then Some (False, device)
           else do {
             let device = device\<lparr>dev_button_count := button_count\<rparr>;
             first \<leftarrow> (if button_count \<noteq> 0 then ksi_device_read src 2728 2 else Some 0);
             (ok, descended, device) \<leftarrow> decode_buttons src first [0..<unat button_count] False device;
             Some (ok, device)
           }
         }
       }
     }
   }"

section \<open>Gamepad readings\<close>

definition ksi_gamepad_state_encode :: "bytes \<Rightarrow> ksi_gamepad_state \<Rightarrow> (nat \<times> bytes) mem" where
  "ksi_gamepad_state_encode out state = do {
     let axis_count = (if unat (pad_axis_count state) < KSI_DEVICE_AXIS_CAPACITY
                       then pad_axis_count state else of_nat KSI_DEVICE_AXIS_CAPACITY);
     out \<leftarrow> mem_zero out 0 KSI_GAMEPAD_STATE_BODY_PREFIX_SIZE;
     out \<leftarrow> ksi_device_write out 0 (pad_device_id state) 4;
     out \<leftarrow> ksi_device_write out 4 (pad_button_count state) 4;
     out \<leftarrow> mem_for (\<lambda>i out. wr8 out (8 + i) (ucast (drop_bit (i * 8) (pad_device_generation state)))) [0..<8] out;
     out \<leftarrow> ksi_device_write out 16 axis_count 4;
     bs \<leftarrow> mem_read (pad_buttons state) 0 KSI_DEVICE_BUTTON_BITMAP_BYTES;
     out \<leftarrow> mem_copy out 24 bs;
     out \<leftarrow> mem_for (\<lambda>i out. do {
         let axis = KSI_GAMEPAD_STATE_BODY_PREFIX_SIZE + i * KSI_GAMEPAD_AXIS_WIRE_SIZE;
         info \<leftarrow> arr_get (pad_axes state) i;
         out \<leftarrow> ksi_device_write out axis (gaxis_code info) 4;
         ksi_device_write out (axis + 4) (gaxis_value info) 4
       }) [0..<unat axis_count] out;
     Some (KSI_GAMEPAD_STATE_BODY_PREFIX_SIZE + unat axis_count * KSI_GAMEPAD_AXIS_WIRE_SIZE, out)
   }"

fun decode_gaxes :: "bytes \<Rightarrow> nat list \<Rightarrow> ksi_gamepad_state \<Rightarrow> (bool \<times> ksi_gamepad_state) mem" where
  "decode_gaxes src [] state = Some (True, state)"
| "decode_gaxes src (i # is) state = do {
     let axis = KSI_GAMEPAD_STATE_BODY_PREFIX_SIZE + i * KSI_GAMEPAD_AXIS_WIRE_SIZE;
     entry \<leftarrow> arr_get (pad_axes state) i;
     code \<leftarrow> ksi_device_read src axis 4;
     let entry = entry\<lparr>gaxis_struct_size := sizeof_gaxis, gaxis_code := code\<rparr>;
     axes \<leftarrow> arr_set (pad_axes state) i entry;
     bad \<leftarrow> mem_or (Some (unat code \<ge> KSI_DEVICE_AXIS_CAPACITY))
       (if i \<noteq> 0 then do { prev \<leftarrow> arr_get axes (i - 1); Some (code \<le> gaxis_code prev) } else Some False);
     if bad then Some (False, state\<lparr>pad_axes := axes\<rparr>)
     else do {
       v \<leftarrow> ksi_device_read src (axis + 4) 4;
       axes \<leftarrow> arr_set axes i (entry\<lparr>gaxis_value := v\<rparr>);
       decode_gaxes src is (state\<lparr>pad_axes := axes\<rparr>)
     }
   }"

fun stray_button :: "bytes \<Rightarrow> nat list \<Rightarrow> bool mem" where
  "stray_button buttons [] = Some False"
| "stray_button buttons (k # ks) = do {
     b \<leftarrow> rd8 buttons (drop_bit 3 k);
     if b AND ucast (push_bit (take_bit 3 k) (1 :: u32)) \<noteq> 0 then Some True else stray_button buttons ks
   }"

definition ksi_gamepad_state_decode :: "bytes \<Rightarrow> nat \<Rightarrow> ksi_gamepad_state \<Rightarrow> (bool \<times> ksi_gamepad_state) mem" where
  "ksi_gamepad_state_decode src sz state = do {
     bad \<leftarrow> mem_or (Some (sz < KSI_GAMEPAD_STATE_BODY_PREFIX_SIZE))
       (mem_or (do { v \<leftarrow> ksi_device_read src 0 4; Some (v = 0) })
         (do { v \<leftarrow> ksi_device_read src 20 4; Some (v \<noteq> 0) }));
     if bad then Some (False, state)
     else do {
       button_count \<leftarrow> ksi_device_read src 4 4;
       axis_count \<leftarrow> ksi_device_read src 16 4;
       if unat button_count > KSI_DEVICE_BUTTON_CAPACITY \<or> unat axis_count > KSI_DEVICE_AXIS_CAPACITY
          \<or> sz \<noteq> KSI_GAMEPAD_STATE_BODY_PREFIX_SIZE + unat axis_count * KSI_GAMEPAD_AXIS_WIRE_SIZE
       then Some (False, state)
       else do {
         let state = zero_gamepad\<lparr>pad_struct_size := sizeof_gamepad\<rparr>;
         v \<leftarrow> ksi_device_read src 0 4; let state = state\<lparr>pad_device_id := v, pad_button_count := button_count\<rparr>;
         g \<leftarrow> mem_for (\<lambda>i g. do { b \<leftarrow> rd8 src (8 + i); Some (g OR push_bit (i * 8) (ucast b)) }) [0..<8] (pad_device_generation state);
         let state = state\<lparr>pad_device_generation := g, pad_axis_count := axis_count\<rparr>;
         bs \<leftarrow> mem_read src 24 KSI_DEVICE_BUTTON_BITMAP_BYTES; let state = state\<lparr>pad_buttons := bs\<rparr>;
         (ok, state) \<leftarrow> decode_gaxes src [0..<unat axis_count] state;
         if \<not> ok then Some (False, state)
         else do {
           stray \<leftarrow> stray_button (pad_buttons state) [unat button_count..<KSI_DEVICE_BUTTON_CAPACITY];
           Some (\<not> stray, state)
         }
       }
     }
   }"

section \<open>Loops over arrays of fixed-size records\<close>

lemma get_get_bytes: "k + w \<le> m \<Longrightarrow> get_bytes (get_bytes s off m) k w = get_bytes s (off + k) w"
  by (simp add: get_bytes_def drop_take min_absorb1 add.commute)

lemma length_concat_uniform: "(\<And>x. x \<in> set xs \<Longrightarrow> length (f x) = n) \<Longrightarrow> length (concat (map f xs)) = length xs * n"
  by (induction xs) auto

lemma get_concat:
  assumes "\<And>x. length (f x) = n" and "i < length xs"
  shows "get_bytes (concat (map f xs)) (i * n) n = f (xs ! i)"
proof -
  have "concat (map f xs) = concat (map f (take i xs)) @ f (xs ! i) @ concat (map f (drop (Suc i) xs))"
    using assms(2) by (subst id_take_nth_drop [of i xs]) auto
  moreover have "length (concat (map f (take i xs))) = i * n"
    using length_concat_uniform [of "take i xs" f n] assms by simp
  ultimately show ?thesis using assms(1) [of "xs ! i"] by (simp add: get_bytes_def)
qed

text \<open>
  A loop that stores record after record, each of \<open>n\<close> bytes, is one write of their concatenation.
\<close>

lemma store_loop:
  assumes step: "\<And>i out. i < m \<Longrightarrow> base + i * n + n \<le> length out \<Longrightarrow> body i out = Some (put_bytes out (base + i * n) (f (xs ! i)))"
    and len: "\<And>x. length (f x) = n" and "m \<le> length xs" and "base + m * n \<le> length out"
  shows "mem_for body [0..<m] out = Some (put_bytes out base (concat (map f (take m xs))))"
  using step assms(3,4)
proof (induction m)
  case 0
  then show ?case by (simp add: put_bytes_def)
next
  case (Suc m)
  define w where "w = concat (map f (take m xs))"
  have w: "length w = m * n" using length_concat_uniform [of "take m xs" f n] len Suc.prems(2) by (simp add: w_def)
  have IH: "mem_for body [0..<m] out = Some (put_bytes out base w)"
    using Suc by (simp add: w_def)
  have "body m (put_bytes out base w) = Some (put_bytes (put_bytes out base w) (base + m * n) (f (xs ! m)))"
    using Suc.prems w by (intro Suc.prems(1)) auto
  also have "put_bytes (put_bytes out base w) (base + m * n) (f (xs ! m)) = put_bytes out base (w @ f (xs ! m))"
    using Suc.prems(3) w len by (intro put_put_fold) auto
  finally show ?case
    using IH Suc.prems(2) by (simp add: mem_for_append w_def take_Suc_conv_app_nth)
qed

section \<open>What the device encoder writes\<close>

definition axis_bytes :: "ksi_device_axis_info \<Rightarrow> bytes" where
  "axis_bytes a = le_write 4 (axis_code a) @ le_write 4 (axis_minimum a) @ le_write 4 (axis_maximum a)
     @ le_write 4 (axis_fuzz a) @ le_write 4 (axis_flat a) @ le_write 4 (axis_resolution a)"

lemma length_axis_bytes [simp]: "length (axis_bytes a) = 24"
  by (simp add: axis_bytes_def)

lemma encode_axis_eq: "off + 24 \<le> length d \<Longrightarrow> encode_axis d off a = Some (put_bytes d off (axis_bytes a))"
  by (simp add: encode_axis_def device_write_eq put_put_fold axis_bytes_def)

definition wf_strings :: "ksi_device_info \<Rightarrow> bool" where
  "wf_strings d \<longleftrightarrow> length (dev_name d) = KSI_DEVICE_NAME_CAPACITY \<and> length (dev_path d) = KSI_DEVICE_PATH_CAPACITY
     \<and> length (dev_physical d) = KSI_DEVICE_PHYSICAL_CAPACITY \<and> length (dev_unique d) = KSI_DEVICE_UNIQUE_CAPACITY
     \<and> length (dev_axes d) = KSI_DEVICE_AXIS_CAPACITY \<and> length (dev_button_codes d) = KSI_DEVICE_BUTTON_CAPACITY"

definition axis_block :: "ksi_device_info \<Rightarrow> bytes" where
  "axis_block d = concat (map axis_bytes (take (min (unat (dev_axis_count d)) 64) (dev_axes d)))"

definition button_block :: "ksi_device_info \<Rightarrow> bytes" where
  "button_block d = concat (map (le_write 2) (take (min (unat (dev_button_count d)) 128) (dev_button_codes d)))"

lemma length_blocks:
  assumes "wf_strings d"
  shows "length (axis_block d) = min (unat (dev_axis_count d)) 64 * 24" "length (button_block d) = min (unat (dev_button_count d)) 128 * 2"
  using assms length_concat_uniform [of "take (min (unat (dev_axis_count d)) 64) (dev_axes d)" axis_bytes 24]
    length_concat_uniform [of "take (min (unat (dev_button_count d)) 128) (dev_button_codes d)" "le_write 2" 2]
  by (simp_all add: axis_block_def button_block_def wf_strings_def)

definition device_head :: "ksi_device_info \<Rightarrow> bytes" where
  "device_head d = le_write 4 (dev_device_id d) @ le_write 4 (dev_capabilities d) @ le_write 2 (dev_bus_type d)
     @ le_write 2 (dev_vendor d) @ le_write 2 (dev_product d) @ le_write 2 (dev_version d)"

definition device_text :: "ksi_device_info \<Rightarrow> bytes" where
  "device_text d = dev_name d @ dev_path d @ dev_physical d @ dev_unique d @ le_write 4 (dev_axis_count d)"

definition device_image :: "bytes \<Rightarrow> ksi_device_info \<Rightarrow> bytes" where
  "device_image out d = put_bytes (put_bytes (put_bytes (put_bytes (put_bytes (put_bytes out 0 (replicate 2984 0))
     0 (device_head d)) 24 (device_text d)) 1184 (axis_block d)) 2720 (le_write 4 (dev_button_count d)))
     2728 (button_block d)"

lemma length_parts:
  "length (device_head d) = 16" "wf_strings d \<Longrightarrow> length (device_text d) = 1156"
  "wf_strings d \<Longrightarrow> length (axis_block d) \<le> 1536" "wf_strings d \<Longrightarrow> length (button_block d) \<le> 256"
  by (simp_all add: device_head_def device_text_def wf_strings_def length_blocks)

lemma store_axes:
  assumes "wf_strings d" and "2984 \<le> length out"
  shows "mem_for (\<lambda>i out. do { info \<leftarrow> arr_get (dev_axes d) i; encode_axis out (1184 + i * 24) info })
      [0..<min (unat (dev_axis_count d)) 64] out = Some (put_bytes out 1184 (axis_block d))"
  unfolding axis_block_def
  using assms by (intro store_loop [where n = 24]) (auto simp: wf_strings_def mem_simps encode_axis_eq)

lemma store_buttons:
  assumes "wf_strings d" and "2984 \<le> length out"
  shows "mem_for (\<lambda>i out. do { code \<leftarrow> arr_get (dev_button_codes d) i; ksi_device_write out (2728 + i * 2) (ucast code) 2 })
      [0..<min (unat (dev_button_count d)) 128] out = Some (put_bytes out 2728 (button_block d))"
  unfolding button_block_def
  using assms by (intro store_loop [where n = 2]) (auto simp: wf_strings_def mem_simps device_write_eq le_write_ucast)

lemma device_encode_eq:
  assumes "wf_strings d" and "2984 \<le> length out"
  shows "ksi_device_encode out d = Some (device_image out d)"
proof -
  note w = assms(1) [unfolded wf_strings_def]
  have "put_bytes (put_bytes (put_bytes (put_bytes (put_bytes (put_bytes (put_bytes out 0 (replicate 2984 0))
      0 (le_write 4 (dev_device_id d))) 4 (le_write 4 (dev_capabilities d))) 8 (le_write 2 (dev_bus_type d)))
      10 (le_write 2 (dev_vendor d))) 12 (le_write 2 (dev_product d))) 14 (le_write 2 (dev_version d))
      = put_bytes (put_bytes out 0 (replicate 2984 0)) 0 (device_head d)"
    using assms(2) by (simp add: put_put_fold device_head_def)
  moreover have "put_bytes (put_bytes (put_bytes (put_bytes (put_bytes x 24 (dev_name d)) 280 (dev_path d)) 792 (dev_physical d))
      1048 (dev_unique d)) 1176 (le_write 4 (dev_axis_count d)) = put_bytes x 24 (device_text d)"
    if "2984 \<le> length x" for x
    using that w by (simp add: put_put_fold device_text_def)
  ultimately show ?thesis
    using assms w length_parts [of d]
    by (simp add: ksi_device_encode_def device_write_eq mem_simps get_bytes_all le_write_ucast
        store_axes store_buttons device_image_def)
qed

section \<open>What the device decoder accepts\<close>

definition axis_at :: "bytes \<Rightarrow> nat \<Rightarrow> ksi_device_axis_info" where
  "axis_at src i = zero_axis\<lparr>axis_struct_size := sizeof_axis, axis_code := le_read (get_bytes src (1184 + i * 24) 4),
     axis_minimum := le_read (get_bytes src (1184 + i * 24 + 4) 4), axis_maximum := le_read (get_bytes src (1184 + i * 24 + 8) 4),
     axis_fuzz := le_read (get_bytes src (1184 + i * 24 + 12) 4), axis_flat := le_read (get_bytes src (1184 + i * 24 + 16) 4),
     axis_resolution := le_read (get_bytes src (1184 + i * 24 + 20) 4)\<rparr>"

definition axes_ok :: "ksi_device_axis_info list \<Rightarrow> bool" where
  "axes_ok axes \<longleftrightarrow> (\<forall>i < length axes. unat (axis_code (axes ! i)) < KSI_DEVICE_AXIS_CAPACITY
     \<and> (0 < i \<longrightarrow> axis_code (axes ! (i - 1)) < axis_code (axes ! i)))"

lemma decode_axes_append:
  "decode_axes src (xs @ ys) d = do { (ok, d') \<leftarrow> decode_axes src xs d; if ok then decode_axes src ys d' else Some (False, d') }"
  by (induction xs arbitrary: d) (auto simp: Let_def split: bind_splits if_splits)

lemma nth_map_replicate:
  "i < n \<Longrightarrow> (map f [0..<n] @ replicate k z) ! i = f i"
  "(map f [0..<n] @ replicate (Suc k) z) ! n = z"
  "(map f [0..<n] @ replicate (Suc k) z)[n := x] = map f [0..<n] @ x # replicate k z"
  by (auto simp: nth_append list_update_append)

lemma axes_ok_map:
  "axes_ok (map f [0..<n]) \<longleftrightarrow> (\<forall>i < n. unat (axis_code (f i)) < 64 \<and> (0 < i \<longrightarrow> axis_code (f (i - 1)) < axis_code (f i)))"
  unfolding axes_ok_def by auto

lemma axes_ok_snoc:
  "axes_ok (map f [0..<n] @ [f n]) \<longleftrightarrow> axes_ok (map f [0..<n]) \<and> unat (axis_code (f n)) < 64
     \<and> (0 < n \<longrightarrow> axis_code (f (n - 1)) < axis_code (f n))"
proof -
  have "map f [0..<n] @ [f n] = map f [0..<Suc n]" by simp
  then show ?thesis by (simp only: axes_ok_map) (auto simp: less_Suc_eq)
qed

lemma decode_axes_step:
  assumes "1184 + n * 24 + 24 \<le> length src" and "n < length (dev_axes d)" and "dev_axes d ! n = zero_axis"
  shows "\<exists>d'. decode_axes src [n] d = Some (unat (axis_code (axis_at src n)) < 64
       \<and> (0 < n \<longrightarrow> axis_code (dev_axes d ! (n - 1)) < axis_code (axis_at src n)), d')
     \<and> (unat (axis_code (axis_at src n)) < 64 \<and> (0 < n \<longrightarrow> axis_code (dev_axes d ! (n - 1)) < axis_code (axis_at src n))
        \<longrightarrow> d' = d\<lparr>dev_axes := (dev_axes d)[n := axis_at src n]\<rparr>)"
  using assms by (auto simp: device_read_eq mem_simps Let_def axis_at_def not_le not_less)

lemma decode_axes_spec:
  assumes "2984 \<le> length src" and "n \<le> 64" and "dev_axes d = replicate 64 zero_axis"
  shows "\<exists>d'. decode_axes src [0..<n] d = Some (axes_ok (map (axis_at src) [0..<n]), d')
    \<and> (axes_ok (map (axis_at src) [0..<n]) \<longrightarrow> d' = d\<lparr>dev_axes := map (axis_at src) [0..<n] @ replicate (64 - n) zero_axis\<rparr>)"
  using assms(2)
proof (induction n)
  case 0
  then show ?case by (simp add: axes_ok_def assms(3) [symmetric])
next
  case (Suc n)
  then obtain d' where d': "decode_axes src [0..<n] d = Some (axes_ok (map (axis_at src) [0..<n]), d')"
      "axes_ok (map (axis_at src) [0..<n]) \<Longrightarrow> d' = d\<lparr>dev_axes := map (axis_at src) [0..<n] @ replicate (64 - n) zero_axis\<rparr>"
    by auto
  show ?case
  proof (cases "axes_ok (map (axis_at src) [0..<n])")
    case False
    then show ?thesis using d'(1) by (auto simp: decode_axes_append axes_ok_snoc)
  next
    case True
    obtain k where k: "64 - n = Suc k" "64 - Suc n = k" using Suc.prems by (metis Suc_diff_Suc Suc_le_lessD)
    have d'2: "dev_axes d' = map (axis_at src) [0..<n] @ replicate (Suc k) zero_axis" using d'(2) [OF True] k by simp
    have "1184 + n * 24 + 24 \<le> length src" "n < length (dev_axes d')" "dev_axes d' ! n = zero_axis"
      using assms(1) Suc.prems by (simp_all add: d'2 nth_append)
    from decode_axes_step [OF this] d'(1) d'(2) [OF True] True k Suc.prems show ?thesis
      by (auto simp: decode_axes_append axes_ok_snoc d'2 nth_append list_update_append)
  qed
qed

text \<open>
  The order of button codes that the decoder checks: no code is zero, and a code that does not
  exceed its predecessor occurs at most once and is below the first code.
\<close>

definition descents :: "u16 list \<Rightarrow> nat set" where
  "descents codes = {i. 0 < i \<and> i < length codes \<and> codes ! i \<le> codes ! (i - 1)}"

definition buttons_ok :: "u16 list \<Rightarrow> bool" where
  "buttons_ok codes \<longleftrightarrow> 0 \<notin> set codes \<and> (\<forall>i \<in> descents codes. codes ! i < codes ! 0) \<and> (\<forall>i \<in> descents codes. \<forall>j \<in> descents codes. i = j)"

definition code_at :: "bytes \<Rightarrow> nat \<Rightarrow> u16" where
  "code_at src i = le_read (get_bytes src (2728 + i * 2) 2)"

lemma decode_buttons_append:
  "decode_buttons src first (xs @ ys) desc d =
    do { (ok, desc', d') \<leftarrow> decode_buttons src first xs desc d; if ok then decode_buttons src first ys desc' d' else Some (False, desc', d') }"
  by (induction xs arbitrary: d desc) (auto simp: Let_def split: bind_splits if_splits)

lemma descents_snoc:
  "descents (xs @ [x]) = (if xs \<noteq> [] \<and> x \<le> last xs then insert (length xs) (descents xs) else descents xs)"
  by (cases "xs = []") (auto simp: descents_def nth_append less_Suc_eq last_conv_nth)

lemma descents_less: "i \<in> descents xs \<Longrightarrow> i < length xs"
  by (simp add: descents_def)

lemma buttons_ok_snoc:
  "buttons_ok (xs @ [x]) \<longleftrightarrow> buttons_ok xs \<and> x \<noteq> 0
     \<and> (xs \<noteq> [] \<and> x \<le> last xs \<longrightarrow> descents xs = {} \<and> x < xs ! 0)"
proof (cases "xs \<noteq> [] \<and> x \<le> last xs")
  case True
  have nth: "i \<in> descents xs \<Longrightarrow> (xs @ [x]) ! i = xs ! i" for i by (simp add: descents_less nth_append)
  have "length xs \<notin> descents xs" using descents_less by blast
  then show ?thesis
    using True nth unfolding buttons_ok_def descents_snoc by (auto simp: nth_append)
next
  case False
  have "\<forall>i \<in> descents xs. (xs @ [x]) ! i = xs ! i \<and> (xs @ [x]) ! 0 = xs ! 0"
  proof
    fix i assume "i \<in> descents xs"
    then have "i < length xs" "0 < length xs" using descents_less by fastforce+
    then show "(xs @ [x]) ! i = xs ! i \<and> (xs @ [x]) ! 0 = xs ! 0" by (simp add: nth_append)
  qed
  with False show ?thesis unfolding buttons_ok_def descents_snoc by auto
qed

lemma decode_buttons_spec:
  assumes "2984 \<le> length src" and "n \<le> 128" and "dev_button_codes d = replicate 128 0"
    and "n \<noteq> 0 \<Longrightarrow> first = ucast (code_at src 0)"
  shows "\<exists>desc d'. decode_buttons src first [0..<n] False d = Some (buttons_ok (map (code_at src) [0..<n]), desc, d')
    \<and> (buttons_ok (map (code_at src) [0..<n]) \<longrightarrow> (desc \<longleftrightarrow> descents (map (code_at src) [0..<n]) \<noteq> {})
        \<and> d' = d\<lparr>dev_button_codes := map (code_at src) [0..<n] @ replicate (128 - n) 0\<rparr>)"
  using assms(2,4)
proof (induction n)
  case 0
  then show ?case by (intro exI [of _ False] exI [of _ d]) (simp add: buttons_ok_def descents_def assms(3) [symmetric])
next
  case (Suc n)
  define cs where "cs = map (code_at src) [0..<n]"
  have f: "first = ucast (code_at src 0)" using Suc.prems by simp
  obtain desc d' where d': "decode_buttons src first [0..<n] False d = Some (buttons_ok cs, desc, d')"
      "buttons_ok cs \<Longrightarrow> (desc \<longleftrightarrow> descents cs \<noteq> {}) \<and> d' = d\<lparr>dev_button_codes := cs @ replicate (128 - n) 0\<rparr>"
    using Suc by (auto simp: cs_def)
  show ?case
  proof (cases "buttons_ok cs")
    case False
    then show ?thesis using d'(1) by (auto simp: decode_buttons_append buttons_ok_snoc cs_def)
  next
    case True
    obtain k where k: "128 - n = Suc k" "128 - Suc n = k" using Suc.prems by (metis Suc_diff_Suc Suc_le_lessD)
    have lcs: "length cs = n" by (simp add: cs_def)
    have codes: "dev_button_codes d' = cs @ replicate (Suc k) 0" using d'(2) [OF True] k by simp
    have rd: "ksi_device_read src (2728 + n * 2) 2 = Some (le_read (get_bytes src (2728 + n * 2) 2))"
      using assms(1) Suc.prems by (intro device_read_eq) simp
    have code: "(ucast (le_read (get_bytes src (2728 + n * 2) 2) :: u32) :: u16) = code_at src n"
      using assms(1) Suc.prems by (simp add: code_at_def ucast_le_read16)
    have prev: "0 < n \<Longrightarrow> arr_get (dev_button_codes d') (n - 1) = Some (last cs)"
      using lcs by (auto simp: codes mem_simps nth_append last_conv_nth)
    have store: "arr_set (dev_button_codes d') n (code_at src n) = Some (cs @ code_at src n # replicate k 0)"
      using lcs by (simp add: codes arr_set_def list_update_append)
    have "0 < n \<Longrightarrow> cs ! 0 = code_at src 0" by (simp add: cs_def)
    then have cmp: "0 < n \<Longrightarrow> (first \<le> ucast (code_at src n)) = (\<not> code_at src n < cs ! 0)"
      by (simp add: f word_le_nat_alt word_less_nat_alt not_less)
    have nz: "cs \<noteq> [] \<longleftrightarrow> 0 < n" using lcs by auto
    have down: "(if n \<noteq> 0 then do { prev \<leftarrow> arr_get (dev_button_codes d') (n - 1); Some (code_at src n \<le> prev) } else Some False)
        = Some (0 < n \<and> code_at src n \<le> last cs)"
      using prev by simp
    have "decode_buttons src first [n] desc d' =
        (if code_at src n = 0 \<or> (0 < n \<and> code_at src n \<le> last cs) \<and> (desc \<or> \<not> code_at src n < cs ! 0) then Some (False, desc, d')
         else Some (True, desc \<or> 0 < n \<and> code_at src n \<le> last cs, d'\<lparr>dev_button_codes := cs @ code_at src n # replicate k 0\<rparr>))"
      unfolding decode_buttons.simps rd Let_def Option.bind.simps code down store using cmp by auto
    then show ?thesis
      using d' True k nz
      by (auto simp: decode_buttons_append buttons_ok_snoc descents_snoc cs_def [symmetric])
  qed
qed

definition axis_count_at :: "bytes \<Rightarrow> u32" where
  "axis_count_at src = le_read (get_bytes src 1176 4)"

definition button_count_at :: "bytes \<Rightarrow> u32" where
  "button_count_at src = le_read (get_bytes src 2720 4)"

definition device_accepts :: "bytes \<Rightarrow> bool" where
  "device_accepts src \<longleftrightarrow> le_read (get_bytes src 0 4) \<noteq> (0 :: u32) \<and> le_read (get_bytes src 16 4) = (0 :: u32)
     \<and> le_read (get_bytes src 20 4) = (0 :: u32)
     \<and> 0 \<in> set (get_bytes src 24 256) \<and> 0 \<in> set (get_bytes src 280 512)
     \<and> 0 \<in> set (get_bytes src 792 256) \<and> 0 \<in> set (get_bytes src 1048 128)
     \<and> unat (axis_count_at src) \<le> 64 \<and> le_read (get_bytes src 1180 4) = (0 :: u32)
     \<and> axes_ok (map (axis_at src) [0..<unat (axis_count_at src)])
     \<and> unat (button_count_at src) \<le> 128 \<and> le_read (get_bytes src 2724 4) = (0 :: u32)
     \<and> buttons_ok (map (code_at src) [0..<unat (button_count_at src)])"

definition device_at :: "bytes \<Rightarrow> ksi_device_info" where
  "device_at src = zero_device\<lparr>dev_struct_size := sizeof_device, dev_device_id := le_read (get_bytes src 0 4),
     dev_capabilities := le_read (get_bytes src 4 4), dev_bus_type := le_read (get_bytes src 8 2),
     dev_vendor := le_read (get_bytes src 10 2), dev_product := le_read (get_bytes src 12 2),
     dev_version := le_read (get_bytes src 14 2), dev_name := get_bytes src 24 256, dev_path := get_bytes src 280 512,
     dev_physical := get_bytes src 792 256, dev_unique := get_bytes src 1048 128, dev_axis_count := axis_count_at src,
     dev_axes := map (axis_at src) [0..<unat (axis_count_at src)] @ replicate (64 - unat (axis_count_at src)) zero_axis,
     dev_button_count := button_count_at src,
     dev_button_codes := map (code_at src) [0..<unat (button_count_at src)] @ replicate (128 - unat (button_count_at src)) 0\<rparr>"

lemma first_button:
  assumes "2984 \<le> length src"
  shows "le_read (get_bytes src 2728 2) = (ucast (code_at src 0) :: u32)"
  using assms by (simp add: code_at_def ucast_le_read)

lemma device_decode_spec:
  assumes "2984 \<le> length src"
  shows "\<exists>d'. ksi_device_decode src 2984 d0 = Some (device_accepts src, d') \<and> (device_accepts src \<longrightarrow> d' = device_at src)"
proof -
  define pre where "pre = zero_device\<lparr>dev_struct_size := sizeof_device, dev_device_id := le_read (get_bytes src 0 4),
     dev_capabilities := le_read (get_bytes src 4 4), dev_bus_type := le_read (get_bytes src 8 2),
     dev_vendor := le_read (get_bytes src 10 2), dev_product := le_read (get_bytes src 12 2),
     dev_version := le_read (get_bytes src 14 2), dev_name := get_bytes src 24 256, dev_path := get_bytes src 280 512,
     dev_physical := get_bytes src 792 256, dev_unique := get_bytes src 1048 128, dev_axis_count := axis_count_at src\<rparr>"
  define n where "n = unat (axis_count_at src)"
  define m where "m = unat (button_count_at src)"
  define head where "head \<longleftrightarrow> le_read (get_bytes src 0 4) \<noteq> (0 :: u32) \<and> le_read (get_bytes src 16 4) = (0 :: u32)
     \<and> le_read (get_bytes src 20 4) = (0 :: u32)
     \<and> 0 \<in> set (get_bytes src 24 256) \<and> 0 \<in> set (get_bytes src 280 512)
     \<and> 0 \<in> set (get_bytes src 792 256) \<and> 0 \<in> set (get_bytes src 1048 128)
     \<and> n \<le> 64 \<and> le_read (get_bytes src 1180 4) = (0 :: u32)"
  define rest where "rest device = do {
       (ok, device) \<leftarrow> decode_axes src [0..<n] device;
       if \<not> ok then Some (False, device)
       else do {
         button_count \<leftarrow> ksi_device_read src 2720 4;
         bad \<leftarrow> mem_or (Some (unat button_count > KSI_DEVICE_BUTTON_CAPACITY)) (do { v \<leftarrow> ksi_device_read src 2724 4; Some (v \<noteq> 0) });
         if bad then Some (False, device)
         else do {
           let device = device\<lparr>dev_button_count := button_count\<rparr>;
           first \<leftarrow> (if button_count \<noteq> 0 then ksi_device_read src 2728 2 else Some 0);
           (ok, descended, device) \<leftarrow> decode_buttons src first [0..<unat button_count] False device;
           Some (ok, device)
         }
       }
     }" for device
  have start: "ksi_device_decode src 2984 d0 = (if head then rest pre else Some (False, d0))"
    using assms
    by (simp add: ksi_device_decode_def device_read_eq mem_simps no_terminator_def ucast_le_read16
        head_def rest_def pre_def n_def axis_count_at_def Let_def)
  show ?thesis
  proof (cases head)
    case False
    then have "\<not> device_accepts src" by (auto simp: head_def device_accepts_def n_def)
    with False start show ?thesis by simp
  next
    case True
    then have "n \<le> 64" by (simp add: head_def)
    then obtain d1 where d1: "decode_axes src [0..<n] pre = Some (axes_ok (map (axis_at src) [0..<n]), d1)"
        "axes_ok (map (axis_at src) [0..<n]) \<Longrightarrow> d1 = pre\<lparr>dev_axes := map (axis_at src) [0..<n] @ replicate (64 - n) zero_axis\<rparr>"
      using decode_axes_spec [of src n pre] assms by (auto simp: pre_def zero_device_def)
    show ?thesis
    proof (cases "axes_ok (map (axis_at src) [0..<n]) \<and> m \<le> 128 \<and> le_read (get_bytes src 2724 4) = (0 :: u32)")
      case False
      then have "\<not> device_accepts src" by (auto simp: device_accepts_def n_def m_def)
      with False True start d1 assms show ?thesis
        by (auto simp: rest_def device_read_eq m_def button_count_at_def)
    next
      case ok: True
      define d2 where "d2 = d1\<lparr>dev_button_count := button_count_at src\<rparr>"
      define first where "first = (if button_count_at src \<noteq> 0 then le_read (get_bytes src 2728 2) else (0 :: u32))"
      have "dev_button_codes d2 = replicate 128 0" using d1(2) ok by (simp add: d2_def pre_def zero_device_def)
      moreover have "m \<noteq> 0 \<Longrightarrow> first = ucast (code_at src 0)"
        using first_button [OF assms] by (auto simp: m_def first_def)
      ultimately obtain desc d3 where d3: "decode_buttons src first [0..<m] False d2 = Some (buttons_ok (map (code_at src) [0..<m]), desc, d3)"
          "buttons_ok (map (code_at src) [0..<m]) \<Longrightarrow> d3 = d2\<lparr>dev_button_codes := map (code_at src) [0..<m] @ replicate (128 - m) 0\<rparr>"
        using decode_buttons_spec [of src m d2 first] assms ok by auto
      have "rest pre = Some (buttons_ok (map (code_at src) [0..<m]), d3)"
        using d1(1) ok d3(1) assms
        by (cases "button_count_at src = 0")
          (auto simp: rest_def device_read_eq button_count_at_def [symmetric] d2_def m_def first_def)
      moreover have "device_accepts src \<longleftrightarrow> buttons_ok (map (code_at src) [0..<m])"
        using True ok by (auto simp: device_accepts_def head_def n_def m_def)
      moreover have "buttons_ok (map (code_at src) [0..<m]) \<Longrightarrow> d3 = device_at src"
        using d3(2) d1(2) ok by (simp add: d2_def pre_def device_at_def n_def m_def)
      ultimately show ?thesis using start True by simp
    qed
  qed
qed


text \<open>
  A device description in the form that the decoder produces: the unused array elements are
  zero, and so are the reserved fields.
\<close>

definition wf_device :: "ksi_device_info \<Rightarrow> bool" where
  "wf_device d \<longleftrightarrow> wf_strings d \<and> dev_struct_size d = sizeof_device \<and> dev_device_id d \<noteq> 0
     \<and> dev_reserved0 d = 0 \<and> dev_reserved1 d = 0 \<and> dev_reserved2 d = 0 \<and> dev_reserved d = replicate 4 0
     \<and> 0 \<in> set (dev_name d) \<and> 0 \<in> set (dev_path d) \<and> 0 \<in> set (dev_physical d) \<and> 0 \<in> set (dev_unique d)
     \<and> unat (dev_axis_count d) \<le> KSI_DEVICE_AXIS_CAPACITY
     \<and> axes_ok (take (unat (dev_axis_count d)) (dev_axes d))
     \<and> (\<forall>a \<in> set (take (unat (dev_axis_count d)) (dev_axes d)). axis_struct_size a = sizeof_axis \<and> axis_reserved a = 0)
     \<and> drop (unat (dev_axis_count d)) (dev_axes d) = replicate (KSI_DEVICE_AXIS_CAPACITY - unat (dev_axis_count d)) zero_axis
     \<and> unat (dev_button_count d) \<le> KSI_DEVICE_BUTTON_CAPACITY
     \<and> buttons_ok (take (unat (dev_button_count d)) (dev_button_codes d))
     \<and> drop (unat (dev_button_count d)) (dev_button_codes d) = replicate (KSI_DEVICE_BUTTON_CAPACITY - unat (dev_button_count d)) 0"



lemma image_fields:
  assumes "wf_strings d" and "2984 \<le> length out"
  shows "length (device_image out d) = length out" "drop 2984 (device_image out d) = drop 2984 out"
    "get_bytes (device_image out d) 0 16 = device_head d" "get_bytes (device_image out d) 16 8 = replicate 8 0"
    "get_bytes (device_image out d) 24 1156 = device_text d" "get_bytes (device_image out d) 1180 4 = replicate 4 0"
    "get_bytes (device_image out d) 1184 (length (axis_block d)) = axis_block d"
    "get_bytes (device_image out d) 2720 4 = le_write 4 (dev_button_count d)"
    "get_bytes (device_image out d) 2724 4 = replicate 4 0"
    "get_bytes (device_image out d) 2728 (length (button_block d)) = button_block d"
  using assms length_parts [of d] by (simp_all add: device_image_def field_simps_wire)

lemma image_axis:
  assumes "wf_strings d" and "2984 \<le> length out" and "i < unat (dev_axis_count d)" and "unat (dev_axis_count d) \<le> 64"
  shows "axis_at (device_image out d) i = (dev_axes d ! i)\<lparr>axis_struct_size := sizeof_axis, axis_reserved := 0\<rparr>"
proof -
  define n where "n = unat (dev_axis_count d)"
  have block: "axis_block d = concat (map axis_bytes (take n (dev_axes d)))" "length (axis_block d) = n * 24"
    using assms length_blocks(1) [OF assms(1)] by (simp_all add: axis_block_def n_def min_absorb1)
  have i: "i * 24 + 24 \<le> n * 24" using assms(3) by (simp add: n_def)
  have "get_bytes (axis_block d) (i * 24) 24 = axis_bytes (dev_axes d ! i)"
    using get_concat [of axis_bytes 24 i "take n (dev_axes d)"] assms by (simp add: block wf_strings_def n_def)
  then have one: "get_bytes (device_image out d) (1184 + i * 24) 24 = axis_bytes (dev_axes d ! i)"
    using image_fields(7) [OF assms(1,2)] get_get_bytes [of "i * 24" 24 "n * 24" "device_image out d" 1184] i by (simp add: block(2))
  have "get_bytes (device_image out d) (1184 + i * 24 + j) 4 = get_bytes (axis_bytes (dev_axes d ! i)) j 4" if "j + 4 \<le> 24" for j
    using get_get_bytes [OF that, of "device_image out d" "1184 + i * 24"] one by simp
  from this [of 0] this [of 4] this [of 8] this [of 12] this [of 16] this [of 20] show ?thesis
    by (simp add: axis_at_def axis_bytes_def field_simps_wire le_read_write zero_axis_def)
qed

lemma image_code:
  assumes "wf_strings d" and "2984 \<le> length out" and "i < unat (dev_button_count d)" and "unat (dev_button_count d) \<le> 128"
  shows "code_at (device_image out d) i = dev_button_codes d ! i"
proof -
  define n where "n = unat (dev_button_count d)"
  have block: "button_block d = concat (map (le_write 2) (take n (dev_button_codes d)))" "length (button_block d) = n * 2"
    using assms length_blocks(2) [OF assms(1)] by (simp_all add: button_block_def n_def min_absorb1)
  have i: "i * 2 + 2 \<le> n * 2" using assms(3) by (simp add: n_def)
  have "get_bytes (button_block d) (i * 2) 2 = le_write 2 (dev_button_codes d ! i)"
    using get_concat [of "le_write 2" 2 i "take n (dev_button_codes d)"] assms by (simp add: block wf_strings_def n_def)
  then have "get_bytes (device_image out d) (2728 + i * 2) 2 = le_write 2 (dev_button_codes d ! i)"
    using image_fields(10) [OF assms(1,2)] get_get_bytes [of "i * 2" 2 "n * 2" "device_image out d" 2728] i by (simp add: block(2))
  then show ?thesis by (simp add: code_at_def le_read_write)
qed

lemma image_words:
  assumes "wf_strings d" and "2984 \<le> length out"
  defines "e \<equiv> device_image out d"
  shows "get_bytes e 0 4 = le_write 4 (dev_device_id d)" "get_bytes e 4 4 = le_write 4 (dev_capabilities d)"
    "get_bytes e 8 2 = le_write 2 (dev_bus_type d)" "get_bytes e 10 2 = le_write 2 (dev_vendor d)"
    "get_bytes e 12 2 = le_write 2 (dev_product d)" "get_bytes e 14 2 = le_write 2 (dev_version d)"
    "get_bytes e 16 4 = replicate 4 0" "get_bytes e 20 4 = replicate 4 0"
    "get_bytes e 24 256 = dev_name d" "get_bytes e 280 512 = dev_path d" "get_bytes e 792 256 = dev_physical d"
    "get_bytes e 1048 128 = dev_unique d" "axis_count_at e = dev_axis_count d" "button_count_at e = dev_button_count d"
proof -
  note f = image_fields [OF assms(1,2), folded e_def]
  have head: "get_bytes e k w = get_bytes (device_head d) k w" if "k + w \<le> 16" for k w
    using get_get_bytes [OF that, of e 0] f(3) by simp
  have gap: "get_bytes e (16 + k) w = get_bytes (replicate 8 0) k w" if "k + w \<le> 8" for k w
    using get_get_bytes [OF that, of e 16] f(4) by simp
  have strs: "get_bytes e (24 + k) w = get_bytes (device_text d) k w" if "k + w \<le> 1156" for k w
    using get_get_bytes [OF that, of e 24] f(5) by simp
  show "get_bytes e 0 4 = le_write 4 (dev_device_id d)" "get_bytes e 4 4 = le_write 4 (dev_capabilities d)"
    "get_bytes e 8 2 = le_write 2 (dev_bus_type d)" "get_bytes e 10 2 = le_write 2 (dev_vendor d)"
    "get_bytes e 12 2 = le_write 2 (dev_product d)" "get_bytes e 14 2 = le_write 2 (dev_version d)"
    by (simp_all add: head) (simp_all add: device_head_def field_simps_wire)
  show "get_bytes e 16 4 = replicate 4 0" "get_bytes e 20 4 = replicate 4 0"
    using gap [of 0 4] gap [of 4 4] by simp_all
  note w = assms(1) [unfolded wf_strings_def, simplified]
  show "get_bytes e 24 256 = dev_name d" "get_bytes e 280 512 = dev_path d" "get_bytes e 792 256 = dev_physical d"
    "get_bytes e 1048 128 = dev_unique d" "axis_count_at e = dev_axis_count d"
    using strs [of 0 256] strs [of 256 512] strs [of 768 256] strs [of 1024 128] strs [of 1152 4] w
    by (simp_all add: device_text_def field_simps_wire axis_count_at_def le_read_write)
  show "button_count_at e = dev_button_count d" by (simp add: button_count_at_def f(8) le_read_write)
qed

lemma image_accepted:
  assumes "wf_device d" and "2984 \<le> length out"
  shows "device_accepts (device_image out d) \<and> device_at (device_image out d) = d"
proof -
  define e where "e = device_image out d"
  note wd = assms(1) [unfolded wf_device_def]
  have ws: "wf_strings d" using wd by simp
  have counts: "unat (dev_axis_count d) \<le> 64" "unat (dev_button_count d) \<le> 128" using wd by simp_all
  note lens = ws [unfolded wf_strings_def]
  have axes: "map (axis_at e) [0..<unat (dev_axis_count d)] = take (unat (dev_axis_count d)) (dev_axes d)"
  proof (rule nth_equalityI)
    fix i assume "i < length (map (axis_at e) [0..<unat (dev_axis_count d)])"
    then have i: "i < unat (dev_axis_count d)" by simp
    then have "dev_axes d ! i \<in> set (take (unat (dev_axis_count d)) (dev_axes d))"
      using counts lens by (auto simp: in_set_conv_nth)
    then have "axis_struct_size (dev_axes d ! i) = sizeof_axis" "axis_reserved (dev_axes d ! i) = 0" using wd by auto
    then show "map (axis_at e) [0..<unat (dev_axis_count d)] ! i = take (unat (dev_axis_count d)) (dev_axes d) ! i"
      using i image_axis [OF ws assms(2) i counts(1)] by (simp add: e_def)
  qed (use counts lens in simp)
  have codes: "map (code_at e) [0..<unat (dev_button_count d)] = take (unat (dev_button_count d)) (dev_button_codes d)"
    using counts lens image_code [OF ws assms(2) _ counts(2)] by (intro nth_equalityI) (auto simp: e_def)
  note words = image_words [OF ws assms(2), folded e_def] image_fields(6,9) [OF ws assms(2), folded e_def]
  have "device_accepts e" using wd by (simp add: device_accepts_def words axes codes le_read_write)
  moreover have "device_at e = d"
  proof -
    have "take (unat (dev_axis_count d)) (dev_axes d) @ replicate (64 - unat (dev_axis_count d)) zero_axis = dev_axes d"
      "take (unat (dev_button_count d)) (dev_button_codes d) @ replicate (128 - unat (dev_button_count d)) 0 = dev_button_codes d"
      using wd by (metis append_take_drop_id KSI_DEVICE_AXIS_CAPACITY_def) (metis wd append_take_drop_id KSI_DEVICE_BUTTON_CAPACITY_def)
    then show ?thesis using wd by (simp add: device_at_def words axes codes le_read_write zero_device_def)
  qed
  ultimately show ?thesis by (simp add: e_def)
qed

text \<open>
  C22. Encoding a well-formed device description writes the 2984 bytes of the wire format and
  nothing behind them, and decoding them gives exactly that description back.
\<close>

theorem device_roundtrip:
  assumes "wf_device d" and "KSI_DEVICE_INFO_WIRE_SIZE \<le> length out"
  shows "\<exists>e. ksi_device_encode out d = Some e \<and> length e = length out
    \<and> drop KSI_DEVICE_INFO_WIRE_SIZE e = drop KSI_DEVICE_INFO_WIRE_SIZE out
    \<and> ksi_device_decode e KSI_DEVICE_INFO_WIRE_SIZE x = Some (True, d)"
proof -
  have ws: "wf_strings d" using assms(1) by (simp add: wf_device_def)
  have n: "2984 \<le> length out" using assms(2) by simp
  note f = image_fields(1,2) [OF ws n]
  have "2984 \<le> length (device_image out d)" using f(1) n by simp
  from device_decode_spec [OF this, of x] image_accepted [OF assms(1) n] device_encode_eq [OF ws n] f show ?thesis by auto
qed

definition example_device :: ksi_device_info where
  "example_device = zero_device\<lparr>dev_struct_size := sizeof_device, dev_device_id := 7, dev_capabilities := 0x800,
     dev_axis_count := 1, dev_axes := zero_axis\<lparr>axis_struct_size := sizeof_axis, axis_code := 3, axis_maximum := 255\<rparr> # replicate 63 zero_axis,
     dev_button_count := 2, dev_button_codes := [0x130, 0x100] @ replicate 126 0\<rparr>"

lemma descents_Nil [simp]: "descents [] = {}"
  by (simp add: descents_def)

lemma buttons_ok_Nil [simp]: "buttons_ok []"
  by (simp add: buttons_ok_def)

lemma buttons_ok_steps:
  "buttons_ok [a] \<longleftrightarrow> a \<noteq> 0" "descents [a] = {}"
  "buttons_ok [a, b] \<longleftrightarrow> a \<noteq> 0 \<and> b \<noteq> 0 \<and> (b \<le> a \<longrightarrow> b < a)"
  using buttons_ok_snoc [of "[]" a] buttons_ok_snoc [of "[a]" b] descents_snoc [of "[]" a] by auto

lemma example_device_wf: "wf_device example_device"
  by (simp add: wf_device_def wf_strings_def example_device_def zero_device_def axes_ok_def zero_axis_def buttons_ok_steps)

theorem device_roundtrip_witness:
  "\<exists>e. ksi_device_encode (replicate 2984 1) example_device = Some e
     \<and> ksi_device_decode e KSI_DEVICE_INFO_WIRE_SIZE zero_device = Some (True, example_device)"
  using device_roundtrip [OF example_device_wf, of "replicate 2984 1" zero_device] by auto


section \<open>Gamepad readings: round trip and soundness\<close>

definition gaxis_bytes :: "ksi_gamepad_axis_state \<Rightarrow> bytes" where
  "gaxis_bytes a = le_write 4 (gaxis_code a) @ le_write 4 (gaxis_value a)"

lemma length_gaxis_bytes [simp]: "length (gaxis_bytes a) = 8"
  by (simp add: gaxis_bytes_def)

definition pad_prefix :: "ksi_gamepad_state \<Rightarrow> bytes" where
  "pad_prefix g = le_write 4 (pad_device_id g) @ le_write 4 (pad_button_count g) @ le_write 8 (pad_device_generation g)
     @ le_write 4 (pad_axis_count g) @ replicate 4 0 @ pad_buttons g"

definition gaxis_block :: "ksi_gamepad_state \<Rightarrow> bytes" where
  "gaxis_block g = concat (map gaxis_bytes (take (unat (pad_axis_count g)) (pad_axes g)))"

definition gaxes_ok :: "ksi_gamepad_axis_state list \<Rightarrow> bool" where
  "gaxes_ok axes \<longleftrightarrow> (\<forall>i < length axes. unat (gaxis_code (axes ! i)) < KSI_DEVICE_AXIS_CAPACITY
     \<and> (0 < i \<longrightarrow> gaxis_code (axes ! (i - 1)) < gaxis_code (axes ! i)))"

definition wf_gamepad :: "ksi_gamepad_state \<Rightarrow> bool" where
  "wf_gamepad g \<longleftrightarrow> pad_struct_size g = sizeof_gamepad \<and> pad_device_id g \<noteq> 0 \<and> pad_reserved g = replicate 4 0
     \<and> length (pad_buttons g) = KSI_DEVICE_BUTTON_BITMAP_BYTES \<and> length (pad_axes g) = KSI_DEVICE_AXIS_CAPACITY
     \<and> unat (pad_button_count g) \<le> KSI_DEVICE_BUTTON_CAPACITY \<and> unat (pad_axis_count g) \<le> KSI_DEVICE_AXIS_CAPACITY
     \<and> gaxes_ok (take (unat (pad_axis_count g)) (pad_axes g))
     \<and> (\<forall>a \<in> set (take (unat (pad_axis_count g)) (pad_axes g)). gaxis_struct_size a = sizeof_gaxis \<and> gaxis_reserved a = 0)
     \<and> drop (unat (pad_axis_count g)) (pad_axes g) = replicate (KSI_DEVICE_AXIS_CAPACITY - unat (pad_axis_count g)) zero_gaxis
     \<and> (\<forall>k < 128. bit (pad_buttons g ! (k div 8)) (k mod 8) \<longrightarrow> k < unat (pad_button_count g))"

lemma stray_button_eq:
  assumes "length buttons = 16" and "\<forall>k \<in> set ks. k < 128"
  shows "stray_button buttons ks = Some (\<exists>k \<in> set ks. bit (buttons ! (k div 8)) (k mod 8))"
  using assms(2)
proof (induction ks)
  case (Cons k ks)
  have k: "drop_bit 3 k = k div 8" "take_bit 3 k = k mod 8" "k div 8 < 16" "k mod 8 < 8"
    using Cons.prems by (auto simp: drop_bit_eq_div take_bit_eq_mod)
  have mask: "ucast (push_bit (k mod 8) (1 :: u32)) = (push_bit (k mod 8) 1 :: byte)"
    using k(4) by (intro bit_eqI) (auto simp: bit_simps)
  have "(buttons ! (k div 8) AND push_bit (k mod 8) 1 \<noteq> 0) = bit (buttons ! (k div 8)) (k mod 8)"
    by (simp add: bit_iff_and_push_bit_not_eq_0)
  with Cons k assms(1) mask show ?case by (auto simp: mem_simps)
qed simp

lemma gamepad_encode_eq:
  assumes "wf_gamepad g" and "40 + unat (pad_axis_count g) * 8 \<le> length out"
  shows "ksi_gamepad_state_encode out g =
    Some (40 + unat (pad_axis_count g) * 8, put_bytes out 0 (pad_prefix g @ gaxis_block g))"
proof -
  define n where "n = unat (pad_axis_count g)"
  note w = assms(1) [unfolded wf_gamepad_def]
  have n: "n \<le> 64" "n \<le> length (pad_axes g)" using w by (simp_all add: n_def)
  have cnt: "(if unat (pad_axis_count g) < KSI_DEVICE_AXIS_CAPACITY then pad_axis_count g else of_nat KSI_DEVICE_AXIS_CAPACITY) = pad_axis_count g"
    using n by (auto simp: n_def not_less word_unat_eq_iff)
  have loop: "mem_for (\<lambda>i out. do { info \<leftarrow> arr_get (pad_axes g) i; out \<leftarrow> ksi_device_write out (40 + i * 8) (gaxis_code info) 4;
        ksi_device_write out (40 + i * 8 + 4) (gaxis_value info) 4 }) [0..<n] x = Some (put_bytes x 40 (gaxis_block g))"
    if "40 + n * 8 \<le> length x" for x
    unfolding gaxis_block_def n_def [symmetric]
    using that n by (intro store_loop [where n = 8]) (auto simp: mem_simps device_write_eq put_put_fold gaxis_bytes_def)
  have len: "length (pad_prefix g) = 40" using w by (simp add: pad_prefix_def)
  have gl: "length (gaxis_block g) = n * 8"
    using length_concat_uniform [of "take n (pad_axes g)" gaxis_bytes 8] n by (simp add: gaxis_block_def n_def)
  have pre: "put_bytes (put_bytes (put_bytes (put_bytes (put_bytes (put_bytes out 0 (replicate 40 0)) 0 (le_write 4 (pad_device_id g)))
      4 (le_write 4 (pad_button_count g))) 8 (le_write 8 (pad_device_generation g))) 16 (le_write 4 (pad_axis_count g)))
      24 (pad_buttons g) = put_bytes out 0 (pad_prefix g)"
    using assms(2) w len
    by (intro nth_equalityI) (auto simp: nth_put_bytes pad_prefix_def nth_append)
  show ?thesis
    unfolding ksi_gamepad_state_encode_def Let_def cnt
    using assms(2) w len gl n pre loop
    by (simp add: device_write_eq write_loop mem_simps get_bytes_all n_def [symmetric] put_put_fold)
qed

definition gaxis_at :: "bytes \<Rightarrow> nat \<Rightarrow> ksi_gamepad_axis_state" where
  "gaxis_at src i = zero_gaxis\<lparr>gaxis_struct_size := sizeof_gaxis, gaxis_code := le_read (get_bytes src (40 + i * 8) 4),
     gaxis_value := le_read (get_bytes src (40 + i * 8 + 4) 4)\<rparr>"

lemma gaxes_ok_map:
  "gaxes_ok (map f [0..<n]) \<longleftrightarrow> (\<forall>i < n. unat (gaxis_code (f i)) < 64 \<and> (0 < i \<longrightarrow> gaxis_code (f (i - 1)) < gaxis_code (f i)))"
  unfolding gaxes_ok_def by auto

lemma gaxes_ok_snoc:
  "gaxes_ok (map f [0..<n] @ [f n]) \<longleftrightarrow> gaxes_ok (map f [0..<n]) \<and> unat (gaxis_code (f n)) < 64
     \<and> (0 < n \<longrightarrow> gaxis_code (f (n - 1)) < gaxis_code (f n))"
proof -
  have "map f [0..<n] @ [f n] = map f [0..<Suc n]" by simp
  then show ?thesis by (simp only: gaxes_ok_map) (auto simp: less_Suc_eq)
qed

lemma decode_gaxes_append:
  "decode_gaxes src (xs @ ys) g = do { (ok, g') \<leftarrow> decode_gaxes src xs g; if ok then decode_gaxes src ys g' else Some (False, g') }"
  by (induction xs arbitrary: g) (auto simp: Let_def split: bind_splits if_splits)

lemma decode_gaxes_step:
  assumes "40 + n * 8 + 8 \<le> length src" and "n < length (pad_axes g)" and "pad_axes g ! n = zero_gaxis"
  shows "\<exists>g'. decode_gaxes src [n] g = Some (unat (gaxis_code (gaxis_at src n)) < 64
       \<and> (0 < n \<longrightarrow> gaxis_code (pad_axes g ! (n - 1)) < gaxis_code (gaxis_at src n)), g')
     \<and> (unat (gaxis_code (gaxis_at src n)) < 64 \<and> (0 < n \<longrightarrow> gaxis_code (pad_axes g ! (n - 1)) < gaxis_code (gaxis_at src n))
        \<longrightarrow> g' = g\<lparr>pad_axes := (pad_axes g)[n := gaxis_at src n]\<rparr>)"
  using assms by (auto simp: device_read_eq mem_simps Let_def gaxis_at_def not_le not_less)

lemma decode_gaxes_spec:
  assumes "40 + n * 8 \<le> length src" and "n \<le> 64" and "pad_axes g = replicate 64 zero_gaxis"
  shows "\<exists>g'. decode_gaxes src [0..<n] g = Some (gaxes_ok (map (gaxis_at src) [0..<n]), g')
    \<and> (gaxes_ok (map (gaxis_at src) [0..<n]) \<longrightarrow> g' = g\<lparr>pad_axes := map (gaxis_at src) [0..<n] @ replicate (64 - n) zero_gaxis\<rparr>)"
  using assms(1,2)
proof (induction n)
  case 0
  then show ?case by (simp add: gaxes_ok_def assms(3) [symmetric])
next
  case (Suc n)
  then obtain g' where g': "decode_gaxes src [0..<n] g = Some (gaxes_ok (map (gaxis_at src) [0..<n]), g')"
      "gaxes_ok (map (gaxis_at src) [0..<n]) \<Longrightarrow> g' = g\<lparr>pad_axes := map (gaxis_at src) [0..<n] @ replicate (64 - n) zero_gaxis\<rparr>"
    by auto
  show ?case
  proof (cases "gaxes_ok (map (gaxis_at src) [0..<n])")
    case False
    then show ?thesis using g'(1) by (auto simp: decode_gaxes_append gaxes_ok_snoc)
  next
    case True
    obtain k where k: "64 - n = Suc k" "64 - Suc n = k" using Suc.prems by (metis Suc_diff_Suc Suc_le_lessD)
    have g'2: "pad_axes g' = map (gaxis_at src) [0..<n] @ replicate (Suc k) zero_gaxis" using g'(2) [OF True] k by simp
    have "40 + n * 8 + 8 \<le> length src" "n < length (pad_axes g')" "pad_axes g' ! n = zero_gaxis"
      using Suc.prems by (simp_all add: g'2 nth_append)
    from decode_gaxes_step [OF this] g'(1) g'(2) [OF True] True k Suc.prems show ?thesis
      by (auto simp: decode_gaxes_append gaxes_ok_snoc g'2 nth_append list_update_append)
  qed
qed

definition pad_at :: "bytes \<Rightarrow> ksi_gamepad_state" where
  "pad_at src = (let n = unat (le_read (get_bytes src 16 4) :: u32) in
     zero_gamepad\<lparr>pad_struct_size := sizeof_gamepad, pad_device_id := le_read (get_bytes src 0 4),
       pad_device_generation := le_read (get_bytes src 8 8), pad_button_count := le_read (get_bytes src 4 4),
       pad_axis_count := le_read (get_bytes src 16 4), pad_buttons := get_bytes src 24 16,
       pad_axes := map (gaxis_at src) [0..<n] @ replicate (64 - n) zero_gaxis\<rparr>)"

definition pad_accepts :: "bytes \<Rightarrow> nat \<Rightarrow> bool" where
  "pad_accepts src sz \<longleftrightarrow> 40 \<le> sz \<and> le_read (get_bytes src 0 4) \<noteq> (0 :: u32) \<and> le_read (get_bytes src 20 4) = (0 :: u32)
     \<and> unat (le_read (get_bytes src 4 4) :: u32) \<le> 128 \<and> unat (le_read (get_bytes src 16 4) :: u32) \<le> 64
     \<and> sz = 40 + unat (le_read (get_bytes src 16 4) :: u32) * 8
     \<and> gaxes_ok (map (gaxis_at src) [0..<unat (le_read (get_bytes src 16 4) :: u32)])
     \<and> (\<forall>k < 128. bit (get_bytes src 24 16 ! (k div 8)) (k mod 8) \<longrightarrow> k < unat (le_read (get_bytes src 4 4) :: u32))"

lemma gamepad_decode_spec:
  assumes "sz \<le> length src"
  shows "\<exists>g. ksi_gamepad_state_decode src sz g0 = Some (pad_accepts src sz, g) \<and> (pad_accepts src sz \<longrightarrow> g = pad_at src)"
proof -
  define n where "n = unat (le_read (get_bytes src 16 4) :: u32)"
  define m where "m = unat (le_read (get_bytes src 4 4) :: u32)"
  define pre where "pre = zero_gamepad\<lparr>pad_struct_size := sizeof_gamepad, pad_device_id := le_read (get_bytes src 0 4),
      pad_device_generation := le_read (get_bytes src 8 8), pad_button_count := le_read (get_bytes src 4 4),
      pad_axis_count := le_read (get_bytes src 16 4), pad_buttons := get_bytes src 24 16\<rparr>"
  show ?thesis
  proof (cases "40 \<le> sz \<and> le_read (get_bytes src 0 4) \<noteq> (0 :: u32) \<and> le_read (get_bytes src 20 4) = (0 :: u32)
      \<and> m \<le> 128 \<and> n \<le> 64 \<and> sz = 40 + n * 8")
    case False
    then have "\<not> pad_accepts src sz" by (auto simp: pad_accepts_def n_def m_def)
    moreover have "ksi_gamepad_state_decode src sz g0 = Some (False, g0)"
      using False assms
      by (cases "40 \<le> sz") (auto simp: ksi_gamepad_state_decode_def device_read_eq n_def m_def)
    ultimately show ?thesis by simp
  next
    case True
    then obtain g' where g': "decode_gaxes src [0..<n] pre = Some (gaxes_ok (map (gaxis_at src) [0..<n]), g')"
        "gaxes_ok (map (gaxis_at src) [0..<n]) \<Longrightarrow> g' = pre\<lparr>pad_axes := map (gaxis_at src) [0..<n] @ replicate (64 - n) zero_gaxis\<rparr>"
      using decode_gaxes_spec [of n src pre] assms by (auto simp: pre_def zero_gamepad_def)
    have len: "40 \<le> length src" using True assms by simp
    have gen: "pad_device_generation zero_gamepad = 0" by (simp add: zero_gamepad_def)
    have dec: "ksi_gamepad_state_decode src sz g0 = do {
        (ok, state) \<leftarrow> decode_gaxes src [0..<n] pre;
        if \<not> ok then Some (False, state)
        else do { stray \<leftarrow> stray_button (pad_buttons state) [m..<128]; Some (\<not> stray, state) } }"
      using True len
      by (simp add: ksi_gamepad_state_decode_def device_read_eq read_loop gen mem_simps n_def m_def pre_def zero_gamepad_def Let_def cong: if_cong)
    show ?thesis
    proof (cases "gaxes_ok (map (gaxis_at src) [0..<n])")
      case False
      then have "\<not> pad_accepts src sz" by (auto simp: pad_accepts_def n_def)
      with False g' dec show ?thesis by simp
    next
      case ok: True
      have "stray_button (get_bytes src 24 16) [m..<128] = Some (\<exists>k \<in> {m..<128}. bit (get_bytes src 24 16 ! (k div 8)) (k mod 8))"
        using len by (subst stray_button_eq) auto
      moreover have "pad_buttons g' = get_bytes src 24 16" using g'(2) [OF ok] by (simp add: pre_def)
      moreover have "pad_accepts src sz \<longleftrightarrow> \<not> (\<exists>k \<in> {m..<128}. bit (get_bytes src 24 16 ! (k div 8)) (k mod 8))"
        using True ok by (auto simp: pad_accepts_def n_def m_def not_less [symmetric])
      moreover have "g' = pad_at src" using g'(2) [OF ok] by (simp add: pad_at_def pre_def n_def Let_def)
      ultimately show ?thesis using g'(1) ok dec by simp
    qed
  qed
qed

text \<open>
  C25. Decoding a gamepad reading never reads outside the message and accepts only well-formed readings whose size fits
  the announced number of axes exactly; no button beyond the announced count is reported as pressed.
\<close>

theorem gamepad_decode_sound:
  assumes "sz \<le> length src"
  shows "\<exists>ok g. ksi_gamepad_state_decode src sz g0 = Some (ok, g)
     \<and> (ok \<longrightarrow> wf_gamepad g \<and> sz = KSI_GAMEPAD_STATE_BODY_PREFIX_SIZE + unat (pad_axis_count g) * KSI_GAMEPAD_AXIS_WIRE_SIZE)"
proof -
  have "wf_gamepad (pad_at src) \<and> sz = 40 + unat (pad_axis_count (pad_at src)) * 8" if acc: "pad_accepts src sz"
  proof -
    define n where "n = unat (le_read (get_bytes src 16 4) :: u32)"
    have "40 \<le> length src" "n \<le> 64" using acc assms by (auto simp: pad_accepts_def n_def)
    with acc show ?thesis
      by (auto simp: wf_gamepad_def pad_accepts_def pad_at_def zero_gamepad_def Let_def gaxis_at_def zero_gaxis_def n_def)
  qed
  then show ?thesis using gamepad_decode_spec [OF assms, of g0] by auto
qed

text \<open>
  C24. Encoding a well-formed gamepad reading reports and writes exactly the bytes of the wire
  format, leaves everything behind them alone, and decoding them gives the reading back.
\<close>

theorem gamepad_roundtrip:
  assumes "wf_gamepad g" and "40 + unat (pad_axis_count g) * 8 \<le> length out"
  shows "\<exists>sz e. ksi_gamepad_state_encode out g = Some (sz, e) \<and> length e = length out \<and> drop sz e = drop sz out
    \<and> ksi_gamepad_state_decode e sz x = Some (True, g)"
proof -
  define n where "n = unat (pad_axis_count g)"
  define e where "e = put_bytes out 0 (pad_prefix g @ gaxis_block g)"
  note w = assms(1) [unfolded wf_gamepad_def]
  have n: "n \<le> 64" "n \<le> length (pad_axes g)" using w by (simp_all add: n_def)
  have len: "length (pad_prefix g) = 40" "length (gaxis_block g) = n * 8"
    using w n length_concat_uniform [of "take n (pad_axes g)" gaxis_bytes 8] by (simp_all add: pad_prefix_def gaxis_block_def n_def)
  have sz: "length e = length out" "drop (40 + n * 8) e = drop (40 + n * 8) out"
    using assms(2) len by (simp_all add: e_def n_def)
  have pre: "get_bytes e k v = get_bytes (pad_prefix g) k v" if "k + v \<le> 40" for k v
    using that len assms(2) by (simp add: e_def n_def get_put_inside get_append_left)
  have words: "get_bytes e 0 4 = le_write 4 (pad_device_id g)" "get_bytes e 4 4 = le_write 4 (pad_button_count g)"
    "get_bytes e 8 8 = le_write 8 (pad_device_generation g)" "get_bytes e 16 4 = le_write 4 (pad_axis_count g)"
    "get_bytes e 20 4 = replicate 4 0" "get_bytes e 24 16 = pad_buttons g"
    using w by (simp_all add: pre) (simp_all add: pad_prefix_def field_simps_wire)
  have axis: "gaxis_at e i = pad_axes g ! i" if i: "i < n" for i
  proof -
    have fits: "i * 8 + 8 \<le> n * 8" using i by simp
    have "get_bytes e (40 + i * 8) 8 = get_bytes (gaxis_block g) (i * 8) 8"
      using fits len assms(2) by (simp add: e_def n_def get_put_inside get_append_right)
    also have "\<dots> = gaxis_bytes (pad_axes g ! i)"
      using get_concat [of gaxis_bytes 8 i "take n (pad_axes g)"] i n by (simp add: gaxis_block_def n_def)
    finally have blk: "get_bytes e (40 + i * 8) 8 = gaxis_bytes (pad_axes g ! i)" .
    have "get_bytes e (40 + i * 8 + j) 4 = get_bytes (gaxis_bytes (pad_axes g ! i)) j 4" if "j + 4 \<le> 8" for j
      using get_get_bytes [OF that, of e "40 + i * 8"] blk by simp
    note parts = this [of 0] this [of 4]
    have "pad_axes g ! i \<in> set (take n (pad_axes g))" using i n by (auto simp: in_set_conv_nth)
    then have "gaxis_struct_size (pad_axes g ! i) = sizeof_gaxis" "gaxis_reserved (pad_axes g ! i) = 0" using w by (auto simp: n_def)
    with parts show ?thesis by (simp add: gaxis_at_def gaxis_bytes_def field_simps_wire le_read_write zero_gaxis_def)
  qed
  have axes: "map (gaxis_at e) [0..<n] = take n (pad_axes g)" using axis n by (intro nth_equalityI) auto
  have "pad_accepts e (40 + n * 8)"
    using w by (simp add: pad_accepts_def words axes le_read_write n_def [symmetric])
  moreover have "take n (pad_axes g) @ replicate (64 - n) zero_gaxis = pad_axes g"
    using w by (metis append_take_drop_id KSI_DEVICE_AXIS_CAPACITY_def n_def)
  then have "pad_at e = g"
    using w by (simp add: pad_at_def words axes le_read_write zero_gamepad_def n_def [symmetric] Let_def)
  ultimately show ?thesis
    using gamepad_decode_spec [of "40 + n * 8" e x] gamepad_encode_eq [OF assms] sz assms(2) by (auto simp: e_def n_def)
qed

definition example_gamepad :: ksi_gamepad_state where
  "example_gamepad = zero_gamepad\<lparr>pad_struct_size := sizeof_gamepad, pad_device_id := 7, pad_device_generation := 3,
     pad_button_count := 2, pad_axis_count := 1, pad_buttons := 2 # replicate 15 0,
     pad_axes := zero_gaxis\<lparr>gaxis_struct_size := sizeof_gaxis, gaxis_code := 3, gaxis_value := 127\<rparr> # replicate 63 zero_gaxis\<rparr>"

lemma example_gamepad_wf: "wf_gamepad example_gamepad"
proof -
  have "k < 2" if "bit ((2 # replicate 15 0 :: bytes) ! (k div 8)) (k mod 8)" "k < 128" for k
  proof -
    have "k div 8 < 16" using that(2) by auto
    then have "k div 8 = 0" using that(1) by (cases "k div 8") auto
    with that(1) show ?thesis by (auto simp: bit_2_iff)
  qed
  then show ?thesis
    by (auto simp: wf_gamepad_def example_gamepad_def zero_gamepad_def gaxes_ok_def zero_gaxis_def)
qed

theorem gamepad_roundtrip_witness:
  "\<exists>sz e. ksi_gamepad_state_encode (replicate 60 1) example_gamepad = Some (sz, e)
     \<and> ksi_gamepad_state_decode e sz zero_gamepad = Some (True, example_gamepad)"
  using gamepad_roundtrip [OF example_gamepad_wf, of "replicate 60 1" zero_gamepad]
  by (auto simp: example_gamepad_def)

theorem gamepad_decode_sound_witness:
  "\<exists>ok g. ksi_gamepad_state_decode (replicate 48 0) 48 zero_gamepad = Some (ok, g) \<and> (ok \<longrightarrow> wf_gamepad g)"
  using gamepad_decode_sound [of 48 "replicate 48 0" zero_gamepad] by auto

section \<open>The order of button codes\<close>

text \<open>
  C32. The comment in the decoder says that after the one permitted descent every code stays below
  the first. The check is made only at the descent itself: a sequence that climbs past the first code
  again, even one that repeats a code, is accepted.
\<close>

theorem button_order_unchecked_after_descent:
  "\<exists>src d. length src = KSI_DEVICE_INFO_WIRE_SIZE \<and> ksi_device_decode src KSI_DEVICE_INFO_WIRE_SIZE zero_device = Some (True, d)
     \<and> take (unat (dev_button_count d)) (dev_button_codes d) = [0x130, 0x131, 0x100, 0x131]"
proof -
  define d where "d = example_device\<lparr>dev_button_count := 4, dev_button_codes := [0x130, 0x131, 0x100, 0x131] @ replicate 124 0\<rparr>"
  have "buttons_ok [0x130, 0x131, 0x100]" "descents [0x130, 0x131, 0x100 :: u16] = {2}"
    using descents_snoc [of "[0x130]" "0x131"] descents_snoc [of "[0x130, 0x131]" "0x100"]
      buttons_ok_snoc [of "[0x130, 0x131]" "0x100"] by (simp_all add: buttons_ok_steps)
  then have "buttons_ok [0x130, 0x131, 0x100, 0x131]"
    using buttons_ok_snoc [of "[0x130, 0x131, 0x100]" "0x131"] by simp
  then have "wf_device d"
    using example_device_wf by (simp add: wf_device_def wf_strings_def d_def example_device_def)
  from device_roundtrip [OF this, of "replicate 2984 0" zero_device] show ?thesis
    by (auto simp: d_def)
qed

end
