(* ===== verification/Linux_Keys.thy ===== *)
theory Linux_Keys
  imports Prelude "HOL-Library.Signed_Division"
begin

text \<open>
  The small shared parts of the Linux backend: key bitmaps (src/src/platform/linux_key_bits.h),
  the classification of key codes and device seats (linux_device_filter.h), high-resolution
  wheels (linux_wheel.h) and paced output (linux_output.c). The numeric event codes are those of
  the kernel's stable user interface, linux/input-event-codes.h.
\<close>

section \<open>Event codes of the kernel interface\<close>

definition EV_SYN :: u16 where [simp]: "EV_SYN = 0"
definition EV_KEY :: u16 where [simp]: "EV_KEY = 1"
definition EV_REL :: u16 where [simp]: "EV_REL = 2"
definition EV_ABS :: u16 where [simp]: "EV_ABS = 3"
definition EV_MSC :: u16 where [simp]: "EV_MSC = 4"
definition EV_SW :: u16 where [simp]: "EV_SW = 5"
definition EV_LED :: u16 where [simp]: "EV_LED = 0x11"
definition EV_REP :: u16 where [simp]: "EV_REP = 0x14"
definition EV_FF :: u16 where [simp]: "EV_FF = 0x15"
definition SYN_REPORT :: u16 where [simp]: "SYN_REPORT = 0"
definition REL_HWHEEL :: u16 where [simp]: "REL_HWHEEL = 6"
definition REL_WHEEL :: u16 where [simp]: "REL_WHEEL = 8"
definition REL_WHEEL_HI_RES :: u16 where [simp]: "REL_WHEEL_HI_RES = 0xb"
definition REL_HWHEEL_HI_RES :: u16 where [simp]: "REL_HWHEEL_HI_RES = 0xc"
definition REL_MAX :: nat where [simp]: "REL_MAX = 0xf"
definition ABS_MAX :: nat where [simp]: "ABS_MAX = 0x3f"
definition KEY_MAX :: nat where [simp]: "KEY_MAX = 0x2ff"
definition KEY_RESERVED :: nat where [simp]: "KEY_RESERVED = 0"
definition BTN_MISC :: nat where [simp]: "BTN_MISC = 0x100"
definition BTN_LEFT :: nat where [simp]: "BTN_LEFT = 0x110"
definition BTN_RIGHT :: nat where [simp]: "BTN_RIGHT = 0x111"
definition BTN_MIDDLE :: nat where [simp]: "BTN_MIDDLE = 0x112"
definition BTN_SIDE :: nat where [simp]: "BTN_SIDE = 0x113"
definition BTN_EXTRA :: nat where [simp]: "BTN_EXTRA = 0x114"
definition BTN_FORWARD :: nat where [simp]: "BTN_FORWARD = 0x115"
definition BTN_BACK :: nat where [simp]: "BTN_BACK = 0x116"
definition BTN_JOYSTICK :: nat where [simp]: "BTN_JOYSTICK = 0x120"
definition BTN_DIGI :: nat where [simp]: "BTN_DIGI = 0x140"
definition KEY_OK :: nat where [simp]: "KEY_OK = 0x160"
definition BTN_DPAD_UP :: nat where [simp]: "BTN_DPAD_UP = 0x220"
definition KEY_ALS_TOGGLE :: nat where [simp]: "KEY_ALS_TOGGLE = 0x230"
definition BTN_TRIGGER_HAPPY :: nat where [simp]: "BTN_TRIGGER_HAPPY = 0x2c0"

section \<open>Key bitmaps\<close>

definition KSI_KEY_BITMAP_BYTES :: nat where
  [simp]: "KSI_KEY_BITMAP_BYTES = (KEY_MAX + 8) div 8"

definition ksi_key_bit :: "bytes \<Rightarrow> u16 \<Rightarrow> bool mem" where
  "ksi_key_bit keys code = do {
     b \<leftarrow> rd8 keys (unat code div 8);
     Some (b AND ucast (push_bit (unat code mod 8) (1 :: u32)) \<noteq> 0)
   }"

definition ksi_set_key_bit :: "bytes \<Rightarrow> u16 \<Rightarrow> bool \<Rightarrow> bytes mem" where
  "ksi_set_key_bit keys code down = do {
     let mask = (ucast (push_bit (unat code mod 8) (1 :: u32)) :: byte);
     b \<leftarrow> rd8 keys (unat code div 8);
     wr8 keys (unat code div 8) (if down then b OR mask else b AND NOT mask)
   }"

definition ksi_any_key_bit :: "bytes \<Rightarrow> bool mem" where
  "ksi_any_key_bit keys = mem_for (\<lambda>i found. if found then Some True else do { b \<leftarrow> rd8 keys i; Some (b \<noteq> 0) })
     [0..<KSI_KEY_BITMAP_BYTES] False"

definition ksi_canonical_button :: "u16 \<Rightarrow> u16" where
  "ksi_canonical_button code =
    (if unat code = BTN_BACK then of_nat BTN_SIDE else if unat code = BTN_FORWARD then of_nat BTN_EXTRA else code)"

definition ksi_button_alias :: "u16 \<Rightarrow> u16" where
  "ksi_button_alias code =
    (if unat code = BTN_SIDE then of_nat BTN_BACK else if unat code = BTN_EXTRA then of_nat BTN_FORWARD
     else ksi_canonical_button code)"

text \<open>
  \<open>EVIOCGKEY\<close> fills unsigned longs; \<open>bits\<close> is what the call leaves there, zero when it fails.
\<close>

definition ksi_read_key_bytes :: "bool \<Rightarrow> u64 list \<Rightarrow> bytes \<Rightarrow> (bool \<times> bytes) mem" where
  "ksi_read_key_bytes ok longs keys = do {
     keys \<leftarrow> mem_for (\<lambda>i keys. do {
         l \<leftarrow> arr_get longs (i div 8);
         wr8 keys i (ucast (drop_bit (8 * (i mod 8)) l))
       }) [0..<KSI_KEY_BITMAP_BYTES] keys;
     Some (ok, keys)
   }"

subsection \<open>A bitmap as a set of codes\<close>

definition held :: "bytes \<Rightarrow> nat set" where
  "held keys = {c. c \<le> KEY_MAX \<and> bit (keys ! (c div 8)) (c mod 8)}"

definition bitmap :: "bytes \<Rightarrow> bool" where
  "bitmap keys \<longleftrightarrow> length keys = KSI_KEY_BITMAP_BYTES"

lemma single_bit_byte: "m < 8 \<Longrightarrow> (ucast (2 ^ m :: u32) :: byte) = 2 ^ m"
  by (rule bit_eqI) (auto simp: bit_simps)

lemma bit_exp_byte: "bit (2 ^ m :: byte) k \<longleftrightarrow> k = m \<and> k < 8"
  by (auto simp: bit_exp_iff)

lemma and_exp_byte: "(b AND 2 ^ m = (0 :: byte)) = (\<not> bit b m)"
  using bit_iff_and_push_bit_not_eq_0 [of b m] by simp

lemma key_bit_eq:
  assumes "bitmap keys" and "unat code \<le> KEY_MAX"
  shows "ksi_key_bit keys code = Some (unat code \<in> held keys)"
proof -
  have "unat code div 8 < length keys" using assms by (simp add: bitmap_def)
  then show ?thesis using assms
    by (simp add: ksi_key_bit_def mem_simps held_def single_bit_byte and_exp_byte)
qed

lemma div_mod_8_eq: "c div 8 = d div 8 \<Longrightarrow> c mod 8 = d mod 8 \<Longrightarrow> c = (d :: nat)"
  by (metis div_mult_mod_eq)

lemma set_key_bit_eq:
  assumes "bitmap keys" and "unat code \<le> KEY_MAX"
  shows "\<exists>keys'. ksi_set_key_bit keys code down = Some keys' \<and> bitmap keys'
     \<and> held keys' = (if down then insert (unat code) (held keys) else held keys - {unat code})"
proof -
  define i m where "i = unat code div 8" and "m = unat code mod 8"
  define b where "b = (if down then keys ! i OR 2 ^ m else keys ! i AND NOT (2 ^ m))"
  have i: "i < length keys" "m < 8" using assms by (simp_all add: bitmap_def i_def m_def)
  have eq: "ksi_set_key_bit keys code down = Some (keys[i := b])"
    using i by (simp add: ksi_set_key_bit_def i_def [symmetric] m_def [symmetric] single_bit_byte rd8_def wr8_def b_def)
  have bits: "bit b k \<longleftrightarrow> (if k = m then down else bit (keys ! i) k)" if "k < 8" for k
    using that by (auto simp: b_def bit_or_iff bit_and_iff bit_not_iff bit_exp_byte)
  have "bit (keys[i := b] ! (c div 8)) (c mod 8) \<longleftrightarrow> (if c = unat code then down else bit (keys ! (c div 8)) (c mod 8))"
    if "c \<le> KEY_MAX" for c
  proof (cases "c div 8 = i")
    case True
    then have "keys[i := b] ! (c div 8) = b" using i by simp
    moreover have "c mod 8 = m \<longleftrightarrow> c = unat code" using True div_mod_8_eq [of c "unat code"] by (auto simp: i_def m_def)
    ultimately show ?thesis using bits [of "c mod 8"] True by simp
  next
    case False
    then have "c \<noteq> unat code" "keys[i := b] ! (c div 8) = keys ! (c div 8)" by (auto simp: i_def)
    then show ?thesis by simp
  qed
  then have "held (keys[i := b]) = (if down then insert (unat code) (held keys) else held keys - {unat code})"
    using assms(2) by (auto simp: held_def split: if_splits)
  with eq assms(1) show ?thesis by (simp add: bitmap_def)
qed

lemma bitmap_zero [simp]: "bitmap (replicate KSI_KEY_BITMAP_BYTES 0)" "held (replicate KSI_KEY_BITMAP_BYTES 0) = {}"
  by (auto simp: bitmap_def held_def)

lemma held_bound: "c \<in> held keys \<Longrightarrow> c \<le> KEY_MAX"
  by (simp add: held_def)

lemma alias_bound: "unat code \<le> KEY_MAX \<Longrightarrow> unat (ksi_button_alias code) \<le> KEY_MAX"
  by (simp add: ksi_button_alias_def ksi_canonical_button_def)

lemma nonzero_byte_bit:
  assumes "b \<noteq> (0 :: byte)"
  obtains k where "bit b k" "k < 8"
proof (rule ccontr)
  assume "\<not> thesis"
  with that have "\<not> bit b k" if "k < 8" for k using \<open>k < 8\<close> by blast
  then have "b = 0" by (intro bit_word_eqI) simp
  with assms show False by simp
qed

lemma any_key_bit_eq:
  assumes "bitmap keys"
  shows "ksi_any_key_bit keys = Some (held keys \<noteq> {})"
proof -
  have n: "KSI_KEY_BITMAP_BYTES = 96" by simp
  have "\<exists>r. ksi_any_key_bit keys = Some r \<and> (r \<longleftrightarrow> (\<exists>i < 96. keys ! i \<noteq> 0))"
    unfolding ksi_any_key_bit_def n
    by (rule mem_for_invariant [where P = "\<lambda>n r. r \<longleftrightarrow> (\<exists>i < n. keys ! i \<noteq> 0)"])
      (use assms in \<open>auto simp: bitmap_def rd8_def less_Suc_eq\<close>)
  moreover have "(\<exists>i < 96. keys ! i \<noteq> 0) \<longleftrightarrow> held keys \<noteq> {}"
  proof
    assume "\<exists>i < 96. keys ! i \<noteq> 0"
    then obtain i where i: "i < 96" "keys ! i \<noteq> 0" by auto
    then obtain k where k: "bit (keys ! i) k" "k < 8" using nonzero_byte_bit by blast
    then have "8 * i + k \<in> held keys" using i by (auto simp: held_def)
    then show "held keys \<noteq> {}" by auto
  next
    assume "held keys \<noteq> {}"
    then obtain c where "c \<le> 767" "bit (keys ! (c div 8)) (c mod 8)" by (auto simp: held_def)
    then have "c div 8 < 96" "keys ! (c div 8) \<noteq> 0" by auto
    then show "\<exists>i < 96. keys ! i \<noteq> 0" by blast
  qed
  ultimately show ?thesis by simp
qed

section \<open>Codes and seats\<close>

definition ksi_linux_key_code_is_keyboard :: "nat \<Rightarrow> bool" where
  "ksi_linux_key_code_is_keyboard code \<longleftrightarrow>
     code > KEY_RESERVED \<and> code < BTN_MISC
     \<or> code \<ge> KEY_OK \<and> code < BTN_DPAD_UP
     \<or> code \<ge> KEY_ALS_TOGGLE \<and> code < BTN_TRIGGER_HAPPY"

definition ksi_linux_key_code_is_gamepad_identity :: "nat \<Rightarrow> bool" where
  "ksi_linux_key_code_is_gamepad_identity code \<longleftrightarrow> code \<ge> BTN_JOYSTICK \<and> code < BTN_DIGI"

definition ksi_linux_pointer_button_mask :: "nat \<Rightarrow> u32" where
  "ksi_linux_pointer_button_mask code =
    (if code = BTN_LEFT then push_bit 0 1
     else if code = BTN_RIGHT then push_bit 1 1
     else if code = BTN_MIDDLE then push_bit 2 1
     else if code = BTN_SIDE \<or> code = BTN_BACK then push_bit 3 1
     else if code = BTN_EXTRA \<or> code = BTN_FORWARD then push_bit 4 1
     else 0)"

definition ksi_linux_device_prefer_nearest_id_seat :: "string ptr \<Rightarrow> string ptr \<Rightarrow> string ptr" where
  "ksi_linux_device_prefer_nearest_id_seat nearest candidate = (if nearest \<noteq> None then nearest else candidate)"

definition ksi_linux_device_id_seat_is_seat0 :: "string ptr \<Rightarrow> bool" where
  "ksi_linux_device_id_seat_is_seat0 id_seat \<longleftrightarrow> id_seat = None \<or> id_seat = Some ''seat0''"

definition ksi_linux_device_seat_metadata_is_admitted :: "bool \<Rightarrow> string ptr \<Rightarrow> bool" where
  "ksi_linux_device_seat_metadata_is_admitted metadata_initialized id_seat \<longleftrightarrow>
     metadata_initialized \<and> ksi_linux_device_id_seat_is_seat0 id_seat"

text \<open>
  Button names are treated alike everywhere: the two names of each auxiliary button are each
  other's alias, every other code is its own, aliases have the same button mask, and no
  code with an alias or a mask is a keyboard key.
\<close>

theorem button_aliases:
  "ksi_button_alias (ksi_button_alias code) = code
   \<and> ksi_linux_pointer_button_mask (unat (ksi_button_alias code)) = ksi_linux_pointer_button_mask (unat code)
   \<and> ksi_canonical_button (ksi_button_alias code) = ksi_canonical_button code
   \<and> (if ksi_button_alias code = code then True else \<not> ksi_linux_key_code_is_keyboard (unat code))
   \<and> (if ksi_linux_pointer_button_mask (unat code) = 0 then True else \<not> ksi_linux_key_code_is_keyboard (unat code))"
proof -
  have eq: "unat code = n \<longleftrightarrow> code = of_nat n" if "n < 65536" for n
    using that by (auto simp: word_unat_eq_iff unsigned_of_nat take_bit_nat_eq_self)
  consider "code \<in> {0x113, 0x114, 0x115, 0x116}" | "code \<notin> {0x113, 0x114, 0x115, 0x116}" by blast
  then show ?thesis
  proof cases
    case 1
    then show ?thesis
      by (auto simp: ksi_button_alias_def ksi_canonical_button_def ksi_linux_pointer_button_mask_def ksi_linux_key_code_is_keyboard_def)
  next
    case 2
    then show ?thesis
      by (auto simp: ksi_button_alias_def ksi_canonical_button_def ksi_linux_pointer_button_mask_def ksi_linux_key_code_is_keyboard_def eq)
  qed
qed

section \<open>High-resolution wheels\<close>

text \<open>
  The sum is computed in 64 bits, where it cannot overflow; division truncates towards zero.
\<close>

definition ksi_linux_wheel_steps :: "int32 \<Rightarrow> int32 \<Rightarrow> int32 \<times> int32" where
  "ksi_linux_wheel_steps delta remainder =
    (let tot = sint delta + sint remainder
     in (word_of_int (tot sdiv 120), word_of_int (tot smod 120)))"

text \<open>The legacy detents that a sequence of high-resolution movements produces, and the rest.\<close>

fun wheel_run :: "int32 list \<Rightarrow> int32 \<Rightarrow> int \<times> int32" where
  "wheel_run [] remainder = (0, remainder)"
| "wheel_run (delta # ds) remainder =
    (let (steps, r) = ksi_linux_wheel_steps delta remainder; (n, r') = wheel_run ds r in (sint steps + n, r'))"

lemma wheel_steps_exact:
  assumes "\<bar>sint remainder\<bar> < 120" and "ksi_linux_wheel_steps delta remainder = (steps, r)"
  shows "120 * sint steps + sint r = sint delta + sint remainder \<and> \<bar>sint r\<bar> < 120"
proof -
  define tot where "tot = sint delta + sint remainder"
  have d: "- (2 ^ 31) \<le> sint delta" "sint delta < 2 ^ 31" using sint_ge [of delta] sint_lt [of delta] by auto
  have tot: "- (2 ^ 31) - 120 < tot" "tot < 2 ^ 31 + 120" using d assms(1) by (auto simp: tot_def)
  have split: "120 * (tot sdiv 120) + tot smod 120 = tot" "\<bar>tot smod 120\<bar> < 120"
    using mult_sdiv_smod_eq [of 120 tot] smod_int_range [of 120 tot] by (auto simp: abs_less_iff)
  have small: "sint (word_of_int n :: int32) = n" if "- (2 ^ 31) \<le> n" "n < 2 ^ 31" for n
    using that by (simp add: sint_sbintrunc' signed_take_bit_int_eq_self)
  have "sint steps = tot sdiv 120" "sint r = tot smod 120"
    using assms(2) split tot by (auto simp: ksi_linux_wheel_steps_def Let_def tot_def [symmetric] intro!: small)
  with split show ?thesis by (simp add: tot_def)
qed

text \<open>
  C31. High-resolution wheel movement is conserved: over any sequence of movements, 120 times
  the detents reported plus the remainder kept is exactly the movement received, and the remainder
  stays smaller than one detent.
\<close>

theorem wheel_conserves_movement:
  assumes "\<bar>sint remainder\<bar> < 120" and "wheel_run ds remainder = (steps, r)"
  shows "120 * steps + sint r = sum_list (map sint ds) + sint remainder \<and> \<bar>sint r\<bar> < 120"
  using assms
proof (induction ds arbitrary: remainder steps r)
  case Nil
  then show ?case by simp
next
  case (Cons delta ds)
  obtain s r1 where s: "ksi_linux_wheel_steps delta remainder = (s, r1)" by fastforce
  obtain n r2 where n: "wheel_run ds r1 = (n, r2)" by fastforce
  note one = wheel_steps_exact [OF Cons.prems(1) s]
  from Cons.IH [OF conjunct2 [OF one] n] one Cons.prems(2) s n show ?case by auto
qed

theorem wheel_conserves_movement_witness:
  "\<exists>steps r. wheel_run [90, 90, -30, -200] 0 = (steps, r) \<and> 120 * steps + sint r = -50"
proof -
  obtain steps r where e: "wheel_run [90, 90, -30, -200] 0 = (steps, r)" by fastforce
  with wheel_conserves_movement [OF _ e] show ?thesis by auto
qed

section \<open>Paced output\<close>

definition KSI_OUTPUT_PACE_EVENTS :: nat where [simp]: "KSI_OUTPUT_PACE_EVENTS = 16"
definition KSI_OUTPUT_IDLE_NS :: u64 where [simp]: "KSI_OUTPUT_IDLE_NS = 8000000"

record pace_state =
  paced_events :: nat
  last_emit_ns :: u64

text \<open>
  \<open>clock\<close> is the reading of the monotonic clock; the result says whether the call pauses.
\<close>

definition ksi_linux_output_pace :: "(u64 \<times> u64) option \<Rightarrow> nat \<Rightarrow> pace_state \<Rightarrow> bool \<times> pace_state" where
  "ksi_linux_output_pace clock count s =
    (let s = (case clock of None \<Rightarrow> s
       | Some (tv_sec, tv_nsec) \<Rightarrow>
           let ns = tv_sec * 1000000000 + tv_nsec;
               s = (if last_emit_ns s \<noteq> 0 \<and> ns - last_emit_ns s \<ge> KSI_OUTPUT_IDLE_NS then s\<lparr>paced_events := 0\<rparr> else s)
           in s\<lparr>last_emit_ns := ns\<rparr>);
         s = s\<lparr>paced_events := size_t_add (paced_events s) count\<rparr>
     in if paced_events s < KSI_OUTPUT_PACE_EVENTS then (False, s)
        else (True, s\<lparr>paced_events := 0\<rparr>))"

definition ksi_linux_monotonic_ms :: "(u64 \<times> u64) option \<Rightarrow> u64" where
  "ksi_linux_monotonic_ms clock = (case clock of None \<Rightarrow> 0 | Some (tv_sec, tv_nsec) \<Rightarrow> tv_sec * 1000 + tv_nsec div 1000000)"

text \<open>
  The answers of \<open>write\<close>: the number of bytes taken, an interruption, which is retried, or another
  failure. The result is \<^const>\<open>None\<close> while every answer so far was an interruption.
\<close>

datatype write_answer = Wrote nat | Interrupted | Refused

fun ksi_linux_output_write :: "nat \<Rightarrow> write_answer list \<Rightarrow> int option" where
  "ksi_linux_output_write bytes_wanted [] = None"
| "ksi_linux_output_write bytes_wanted (Interrupted # answers) = ksi_linux_output_write bytes_wanted answers"
| "ksi_linux_output_write bytes_wanted (Wrote n # answers) = Some (if n = bytes_wanted then 0 else -1)"
| "ksi_linux_output_write bytes_wanted (Refused # answers) = Some (-1)"

lemma output_write_returns:
  "ksi_linux_output_write n answers = None \<longleftrightarrow> set answers \<subseteq> {Interrupted}"
proof (induction answers)
  case (Cons a answers)
  then show ?case by (cases a) auto
qed simp

text \<open>
  The grab probe: \<open>Inl\<close> is the error of the first \<open>EVIOCGRAB\<close>; 16 is \<open>EBUSY\<close>.
\<close>

definition ksi_linux_output_probe_grabbed :: "nat + unit \<Rightarrow> int" where
  "ksi_linux_output_probe_grabbed grab = (case grab of Inr _ \<Rightarrow> 0 | Inl e \<Rightarrow> if e = 16 then 1 else -1)"

text \<open>
  Output is paced: a call that does not pause leaves fewer than 16 events counted since the
  last pause or idle gap, and counts exactly the events it emitted; a pause resets the count.
\<close>

theorem output_pace_bound:
  assumes "paced_events s < KSI_OUTPUT_PACE_EVENTS" and "count < 2 ^ 63" and "ksi_linux_output_pace clock count s = (paused, s')"
  shows "paced_events s' < KSI_OUTPUT_PACE_EVENTS
    \<and> (if paused then paced_events s' = 0 else paced_events s' \<in> {count, paced_events s + count})"
proof -
  have "size_t_add (paced_events s) count = paced_events s + count" "size_t_add 0 count = count"
    using assms(1,2) by (auto simp: size_t_mod_def intro!: size_t_add_small)
  with assms show ?thesis
    by (auto simp: ksi_linux_output_pace_def Let_def split: if_splits option.splits)
qed

theorem output_pace_bound_witness:
  "\<exists>paused s'. ksi_linux_output_pace (Some (1, 9000000)) 4 \<lparr>paced_events = 13, last_emit_ns = 1000000000\<rparr> = (paused, s')
     \<and> \<not> paused \<and> paced_events s' = 4 \<and> paced_events s' < 16"
proof -
  obtain p s' where e: "ksi_linux_output_pace (Some (1, 9000000)) 4 \<lparr>paced_events = 13, last_emit_ns = 1000000000\<rparr> = (p, s')"
    by fastforce
  then have "\<not> p" "paced_events s' = 4" by (auto simp: ksi_linux_output_pace_def Let_def size_t_mod_def)
  with output_pace_bound [OF _ _ e] e show ?thesis by auto
qed

end
