(* ===== verification/Program_Logic.thy ===== *)
theory Program_Logic
  imports Prelude
begin

text \<open>
  Reasoning about computations that access memory. \<open>returns m P\<close> says that \<open>m\<close> stays inside its
  buffers and ends with a result that satisfies \<open>P\<close>. Specifications of operations are stated with
  it and composed with the rule \<open>returns_bind\<close>; loops have the rules \<open>returns_mem_for\<close> and
  \<open>bits_for_eq\<close>.
\<close>

definition returns :: "'a mem \<Rightarrow> ('a \<Rightarrow> bool) \<Rightarrow> bool" where
  "returns m P \<longleftrightarrow> (case m of None \<Rightarrow> False | Some x \<Rightarrow> P x)"

lemma returns_Some [simp]: "returns (Some x) P = P x"
  by (simp add: returns_def)

lemma returns_None [simp]: "\<not> returns None P"
  by (simp add: returns_def)

lemma returns_bind_eq [simp]: "returns (Option.bind m f) P = returns m (\<lambda>x. returns (f x) P)"
  by (cases m) simp_all

lemma returns_mono: "returns m Q \<Longrightarrow> (\<And>x. Q x \<Longrightarrow> P x) \<Longrightarrow> returns m P"
  by (cases m) simp_all

lemma returns_bind: "returns m Q \<Longrightarrow> (\<And>x. Q x \<Longrightarrow> returns (f x) P) \<Longrightarrow> returns (Option.bind m f) P"
  by (cases m) simp_all

lemma returns_conj: "returns m P \<Longrightarrow> returns m Q \<Longrightarrow> returns m (\<lambda>x. P x \<and> Q x)"
  by (cases m) simp_all

lemma returns_ex: "returns m P \<longleftrightarrow> (\<exists>x. m = Some x \<and> P x)"
  by (cases m) simp_all

lemma returnsE:
  assumes "returns m P"
  obtains x where "m = Some x" "P x"
  using assms by (auto simp: returns_ex)

lemma returns_if: "returns (if b then m else n) P = (if b then returns m P else returns n P)"
  by simp

lemma returns_arr_get: "i < length xs \<Longrightarrow> P (xs ! i) \<Longrightarrow> returns (arr_get xs i) P"
  by (simp add: arr_get_def)

lemma returns_mem_for:
  assumes "P [] s"
    and "\<And>ys x zs t. xs = ys @ x # zs \<Longrightarrow> P ys t \<Longrightarrow> returns (f x t) (P (ys @ [x]))"
  shows "returns (mem_for f xs s) (P xs)"
  using assms
proof (induction xs rule: rev_induct)
  case Nil
  then show ?case by simp
next
  case (snoc x xs)
  have "returns (mem_for f xs s) (P xs)"
  proof (rule snoc.IH)
    fix ys y zs t assume "xs = ys @ y # zs" "P ys t"
    then show "returns (f y t) (P (ys @ [y]))" using snoc.prems(2) [of ys y "zs @ [x]" t] by simp
  qed (rule snoc.prems(1))
  moreover have "returns (f x t) (P (xs @ [x]))" if "P xs t" for t using snoc.prems(2) [of xs x "[]" t] that by simp
  ultimately show ?case by (auto simp: mem_for_append elim: returns_mono)
qed

text \<open>An invariant that does not mention the position.\<close>

lemma returns_mem_for_inv:
  assumes "P s" and "\<And>x t. x \<in> set xs \<Longrightarrow> P t \<Longrightarrow> returns (f x t) P"
  shows "returns (mem_for f xs s) P"
  using assms by (intro returns_mem_for [where P = "\<lambda>_. P"]) auto

lemma returns_mem_for_upt:
  assumes "P 0 s" and "\<And>i t. i < n \<Longrightarrow> P i t \<Longrightarrow> returns (f i t) (P (Suc i))"
  shows "returns (mem_for f [0..<n] s) (P n)"
proof -
  have "\<exists>s'. mem_for f [0..<n] s = Some s' \<and> P n s'"
    by (rule mem_for_invariant) (use assms in \<open>auto simp: returns_ex\<close>)
  then show ?thesis by (simp add: returns_ex)
qed

section \<open>Loops over the set bits of a word\<close>

text \<open>
  The loop \<open>for (bits = \<dots>; bits != 0u; bits &= bits - 1u)\<close> with \<open>__builtin_ctz(bits)\<close> in its body.
\<close>

definition builtin_ctz :: "u32 \<Rightarrow> nat" where
  "builtin_ctz w = length (takeWhile (\<lambda>k. \<not> bit w k) [0..<32])"

function bits_for :: "(nat \<Rightarrow> 's \<Rightarrow> 's mem) \<Rightarrow> u32 \<Rightarrow> 's \<Rightarrow> 's mem" where
  "bits_for f bits s = (if bits = 0 then Some s
     else do { s \<leftarrow> f (builtin_ctz bits) s; bits_for f (bits AND (bits - 1)) s })"
  by pat_completeness auto

lemma and_pred_less: "bits \<noteq> 0 \<Longrightarrow> unat (bits AND (bits - 1)) < unat (bits :: u32)"
proof -
  assume "bits \<noteq> 0"
  then have "unat (bits - 1) < unat bits" by (metis measure_unat)
  moreover have "unat (bits AND (bits - 1)) \<le> unat (bits - 1)" using word_and_le1 [of bits "bits - 1"] by (simp add: word_le_nat_alt)
  ultimately show ?thesis by linarith
qed

termination bits_for
  by (relation "measure (\<lambda>(f, bits, s). unat bits)") (simp_all add: and_pred_less)

declare bits_for.simps [simp del]

lemma takeWhile_upt: "takeWhile P [i..<j] = [i..<i + length (takeWhile P [i..<j])]"
proof (induction "j - i" arbitrary: i)
  case (Suc n)
  then have "[i..<j] = i # [Suc i..<j]" by (simp add: upt_rec)
  with Suc.hyps(1) [of "Suc i"] Suc.hyps(2) show ?case by (auto simp: upt_rec [of i])
qed simp

lemma ctz_least:
  assumes "bits \<noteq> (0 :: u32)"
  shows "builtin_ctz bits < 32" "bit bits (builtin_ctz bits)" "k < builtin_ctz bits \<Longrightarrow> \<not> bit bits k"
proof -
  let ?t = "takeWhile (\<lambda>k. \<not> bit bits k) [0..<32]"
  have t: "?t = [0..<builtin_ctz bits]" using takeWhile_upt [of "\<lambda>k. \<not> bit bits k" 0 32] by (simp add: builtin_ctz_def)
  have "\<exists>k < 32. bit bits k"
  proof (rule ccontr)
    assume "\<not> (\<exists>k < 32. bit bits k)"
    then have "bits = 0" by (intro bit_word_eqI) simp
    with assms show False by simp
  qed
  then have "?t \<noteq> [0..<32]" by (auto simp: takeWhile_eq_all_conv)
  moreover have le: "builtin_ctz bits \<le> 32" using length_takeWhile_le [of "\<lambda>k. \<not> bit bits k" "[0..<32]"] by (simp add: builtin_ctz_def)
  ultimately show lt: "builtin_ctz bits < 32" using t by (metis le_neq_implies_less)
  show "bit bits (builtin_ctz bits)"
    using nth_length_takeWhile [of "\<lambda>k. \<not> bit bits k" "[0..<32]"] lt by (simp add: builtin_ctz_def)
  show "\<not> bit bits k" if "k < builtin_ctz bits"
  proof -
    have "k \<in> set ?t" using that by (simp add: t)
    then show ?thesis by (auto dest: set_takeWhileD)
  qed
qed

lemma and_pred_bits:
  assumes "bits \<noteq> (0 :: u32)"
  shows "bit (bits AND (bits - 1)) k \<longleftrightarrow> bit bits k \<and> k \<noteq> builtin_ctz bits"
proof -
  define m where "m = builtin_ctz bits"
  have m: "m < 32" "bit bits m" "\<And>k. k < m \<Longrightarrow> \<not> bit bits k" using ctz_least [OF assms] by (simp_all add: m_def)
  define r where "r = bits AND NOT (2 ^ m)"
  have low: "take_bit (Suc m) bits = 2 ^ m"
    by (rule bit_word_eqI) (use m in \<open>auto simp: bit_simps less_Suc_eq\<close>)
  have split: "bits = r + 2 ^ m" "r AND 2 ^ m = 0"
  proof -
    show d: "r AND 2 ^ m = 0" by (rule bit_word_eqI) (simp add: r_def bit_simps)
    have "r OR 2 ^ m = bits" by (rule bit_word_eqI) (use m in \<open>auto simp: r_def bit_simps\<close>)
    then show "bits = r + 2 ^ m" using disjunctive_add [of r "2 ^ m"] d by (metis bit_and_iff bit_0_eq bot_apply bot_bool_def)
  qed
  have rlow: "\<not> bit r k" if "k \<le> m" for k using that m(3) [of k] by (cases "k = m") (auto simp: r_def bit_simps)
  have "bits - 1 = r + mask m" using split(1) by (simp add: mask_eq_exp_minus_1)
  moreover have "r + mask m = r OR mask m"
    by (rule disjunctive_add) (use rlow in \<open>auto simp: bit_simps dest: less_imp_le\<close>)
  ultimately have "bits - 1 = r OR mask m" by simp
  then show ?thesis using rlow m by (auto simp: m_def [symmetric] r_def bit_simps dest: bit_word_imp_less)
qed

lemma bits_for_eq: "bits_for f bits s = mem_for f (filter (bit bits) [0..<32]) s"
proof (induction f bits s rule: bits_for.induct)
  case (1 f bits s)
  show ?case
  proof (cases "bits = 0")
    case True
    then show ?thesis by (simp add: bits_for.simps)
  next
    case False
    define m where "m = builtin_ctz bits"
    note m = ctz_least [OF False, folded m_def]
    have "[0..<32] = [0..<m] @ m # [Suc m..<32]" using m(1) by (metis upt_add_eq_append upt_conv_Cons le_add_diff_inverse less_imp_le zero_le)
    moreover have "filter (bit bits) [0..<m] = []" "filter (bit (bits AND (bits - 1))) [0..<m] = []"
      using m(3) by (auto simp: filter_empty_conv and_pred_bits [OF False])
    moreover have "filter (bit (bits AND (bits - 1))) [Suc m..<32] = filter (bit bits) [Suc m..<32]"
      by (rule filter_cong) (auto simp: and_pred_bits [OF False] m_def)
    ultimately have "filter (bit bits) [0..<32] = m # filter (bit (bits AND (bits - 1))) [0..<32]"
      using m(2) by (simp add: and_pred_bits [OF False] m_def)
    with False 1 show ?thesis by (subst bits_for.simps) (auto simp: m_def intro: Option.bind_cong)
  qed
qed

end
