(* ===== verification/Linux_Forward.thy ===== *)
theory Linux_Forward
  imports Linux_Keys Program_Logic
begin

text \<open>
  The forwarding of grabbed input: src/src/platform/linux_forward.c and
  src/src/internal/linux_forward.h. Every grabbed source owns a slot of a table; its keyboard keys
  go to one shared sink, everything else to its own clone. The state record holds the file's
  static variables. A device pointer is the index of its slot. Calls into libevdev are parameters;
  the result of each call of \<open>ksi_linux_output_write\<close> is an answer of the environment, and a log
  records what was handed to the kernel.
\<close>

section \<open>Data\<close>

definition KSI_MAX_FORWARDING_DEVICES :: nat where [simp]: "KSI_MAX_FORWARDING_DEVICES = 128"
definition KSI_FORWARD_PACKET_EVENTS :: nat where [simp]: "KSI_FORWARD_PACKET_EVENTS = 2"
definition KSI_FORWARD_REPORT_END :: u32 where [simp]: "KSI_FORWARD_REPORT_END = 0x1"
definition KSI_FORWARD_SUPPRESSED :: u32 where [simp]: "KSI_FORWARD_SUPPRESSED = 0x2"
definition KSI_FORWARD_UNGRABBED :: u32 where [simp]: "KSI_FORWARD_UNGRABBED = 0x4"
definition KSI_FORWARD_CLONE :: u32 where [simp]: "KSI_FORWARD_CLONE = 0x8"
definition KSI_FORWARD_KEY_UP :: u32 where [simp]: "KSI_FORWARD_KEY_UP = 0x1"
definition KSI_FORWARD_KEY_DOWN :: u32 where [simp]: "KSI_FORWARD_KEY_DOWN = 0x2"
definition KSI_FORWARD_DRAIN_MS :: u64 where [simp]: "KSI_FORWARD_DRAIN_MS = 100"

text \<open>Switch and key codes of the kernel interface that this file names.\<close>

definition SW_MAX :: nat where [simp]: "SW_MAX = 0x10"
definition SW_RFKILL_ALL :: nat where [simp]: "SW_RFKILL_ALL = 3"
definition repress_exempt :: "nat list" where
  "repress_exempt = [29, 97, 42, 54, 56, 100, 125, 126, 58, 69, 70]"

definition KSI_SWITCH_BITMAP_BYTES :: nat where [simp]: "KSI_SWITCH_BITMAP_BYTES = (SW_MAX + 8) div 8"

record input_event =
  ie_type :: u16
  ie_code :: u16
  ie_value :: int32

record ksi_forward_event =
  fe_type :: u16
  fe_code :: u16
  fe_value :: int32

record ksi_forward_packet =
  pk_target :: u64
  pk_count :: u32
  pk_flags :: u32
  pk_events :: "ksi_forward_event list"

datatype ksi_forward_view = KSI_FORWARD_APPLIED | KSI_FORWARD_ENQUEUED

record forward_keys =
  fk_output :: bytes
  fk_source :: bytes
  fk_displaced :: bytes

record forwarding_device =
  fd_target :: "ksi_forward_view \<Rightarrow> u64"
  fd_open :: bool
  fd_closing :: bool
  fd_keyboard :: bool
  fd_output :: "nat ptr"
  fd_failed :: bool
  fd_retiring :: bool
  fd_retire_ms :: u64
  fd_sink_report_open :: bool
  fd_clone_report_open :: bool
  fd_wheel :: bool
  fd_horizontal_wheel :: bool
  fd_wheel_remainder :: int32
  fd_horizontal_remainder :: int32
  fd_switches :: bytes
  fd_views :: "ksi_forward_view \<Rightarrow> forward_keys"

record forward_sink =
  sk_fd :: int
  sk_failed :: bool
  sk_down :: bytes
  sk_synth :: bytes

text \<open>
  The log: writes to the sink and to clones, with whether the kernel took them, attached sinks and
  destroyed clones.
\<close>

datatype forward_output =
    To_Sink "input_event list" bool
  | To_Clone nat "input_event list" bool
  | Sink_Attached int
  | Clone_Destroyed nat

record forward_state =
  fs_devices :: "forwarding_device list"
  fs_slot_limit :: nat
  fs_next_serial :: u64
  fs_target_epoch :: u32
  fs_retiring_count :: u32
  fs_failure_pending :: bool
  fs_sink_generation :: u32
  fs_sink_ready_flag :: bool
  fs_sink :: forward_sink
  fs_pace :: pace_state
  fs_answers :: "nat \<Rightarrow> bool"
  fs_log :: "forward_output list"

definition zero_forward_keys :: forward_keys where
  "zero_forward_keys = \<lparr>fk_output = replicate KSI_KEY_BITMAP_BYTES 0, fk_source = replicate KSI_KEY_BITMAP_BYTES 0,
     fk_displaced = replicate KSI_KEY_BITMAP_BYTES 0\<rparr>"

definition zero_forwarding_device :: forwarding_device where
  "zero_forwarding_device = \<lparr>fd_target = \<lambda>_. 0, fd_open = False, fd_closing = False, fd_keyboard = False, fd_output = None,
     fd_failed = False, fd_retiring = False, fd_retire_ms = 0, fd_sink_report_open = False, fd_clone_report_open = False,
     fd_wheel = False, fd_horizontal_wheel = False, fd_wheel_remainder = 0, fd_horizontal_remainder = 0,
     fd_switches = replicate KSI_SWITCH_BITMAP_BYTES 0, fd_views = \<lambda>_. zero_forward_keys\<rparr>"

text \<open>The static variables as the program starts; \<open>answers\<close> are the results of the writes to come.\<close>

definition initial_forward_state :: "(nat \<Rightarrow> bool) \<Rightarrow> forward_state" where
  "initial_forward_state answers = \<lparr>fs_devices = replicate KSI_MAX_FORWARDING_DEVICES zero_forwarding_device, fs_slot_limit = 0,
     fs_next_serial = 1, fs_target_epoch = 0, fs_retiring_count = 0, fs_failure_pending = False, fs_sink_generation = 0,
     fs_sink_ready_flag = False,
     fs_sink = \<lparr>sk_fd = -1, sk_failed = False, sk_down = replicate KSI_KEY_BITMAP_BYTES 0, sk_synth = replicate KSI_KEY_BITMAP_BYTES 0\<rparr>,
     fs_pace = \<lparr>paced_events = 0, last_emit_ns = 0\<rparr>, fs_answers = answers, fs_log = []\<rparr>"

section \<open>Access to the table\<close>

definition get_device :: "nat \<Rightarrow> forward_state \<Rightarrow> forwarding_device mem" where
  "get_device i s = arr_get (fs_devices s) i"

definition put_device :: "nat \<Rightarrow> forwarding_device \<Rightarrow> forward_state \<Rightarrow> forward_state mem" where
  "put_device i d s = do { devices \<leftarrow> arr_set (fs_devices s) i d; Some (s\<lparr>fs_devices := devices\<rparr>) }"

definition set_keys :: "ksi_forward_view \<Rightarrow> forward_keys \<Rightarrow> forwarding_device \<Rightarrow> forwarding_device" where
  "set_keys view keys d = d\<lparr>fd_views := (fd_views d)(view := keys)\<rparr>"

definition set_target :: "ksi_forward_view \<Rightarrow> u64 \<Rightarrow> forwarding_device \<Rightarrow> forwarding_device" where
  "set_target view target d = d\<lparr>fd_target := (fd_target d)(view := target)\<rparr>"

definition new_target_locked :: "nat \<Rightarrow> forward_state \<Rightarrow> u64 \<times> forward_state" where
  "new_target_locked i s =
    (push_bit 8 (fs_next_serial s) OR of_nat (i + 1), s\<lparr>fs_next_serial := fs_next_serial s + 1\<rparr>)"

definition find_device_locked :: "u64 \<Rightarrow> ksi_forward_view \<Rightarrow> forward_state \<Rightarrow> nat ptr mem" where
  "find_device_locked target view s =
    (let slot = unat (target AND 0xff)
     in if slot = 0 \<or> slot > KSI_MAX_FORWARDING_DEVICES then Some None
        else do {
          d \<leftarrow> get_device (slot - 1) s;
          Some (if fd_target d view = target \<and> \<not> fd_retiring d then Some (slot - 1) else None)
        })"

definition live :: "forwarding_device \<Rightarrow> bool" where
  "live d \<longleftrightarrow> fd_open d \<and> \<not> fd_retiring d"

definition on_sink :: "forwarding_device \<Rightarrow> u16 \<Rightarrow> bool" where
  "on_sink d code \<longleftrightarrow> fd_keyboard d \<and> ksi_linux_key_code_is_keyboard (unat code)"

text \<open>\<open>devnode\<close> is \<open>libevdev_uinput_get_devnode\<close>.\<close>

definition find_path_locked :: "(nat \<Rightarrow> string ptr) \<Rightarrow> string \<Rightarrow> forward_state \<Rightarrow> nat ptr mem" where
  "find_path_locked devnode path s = mem_for (\<lambda>i found. case found of Some _ \<Rightarrow> Some found
     | None \<Rightarrow> do {
         d \<leftarrow> get_device i s;
         let node = (if live d then Option.bind (fd_output d) devnode else None);
         Some (if node = Some path then Some i else None)
       }) [0..<fs_slot_limit s] None"

section \<open>Writing\<close>

text \<open>One call of \<open>ksi_linux_output_write\<close>.\<close>

definition output_write :: "(bool \<Rightarrow> forward_output) \<Rightarrow> forward_state \<Rightarrow> int \<times> forward_state" where
  "output_write entry s =
    (let ok = fs_answers s (length (fs_log s))
     in (if ok then 0 else -1, s\<lparr>fs_log := fs_log s @ [entry ok]\<rparr>))"

definition write_locked :: "nat \<Rightarrow> input_event list \<Rightarrow> forward_state \<Rightarrow> (int \<times> forward_state) mem" where
  "write_locked i events s = do {
     d \<leftarrow> get_device i s;
     if fd_failed d then Some (-1, s)
     else do {
       handle \<leftarrow> fd_output d;
       let (result, s) = output_write (To_Clone handle events) s;
       if result = 0 then Some (0, s)
       else do {
         s \<leftarrow> put_device i (d\<lparr>fd_failed := True\<rparr>) s;
         Some (-1, s\<lparr>fs_failure_pending := True\<rparr>)
       }
     }
   }"

definition key_report :: "u16 \<Rightarrow> int32 \<Rightarrow> input_event list" where
  "key_report code v =
    [\<lparr>ie_type = EV_KEY, ie_code = code, ie_value = v\<rparr>, \<lparr>ie_type = EV_SYN, ie_code = SYN_REPORT, ie_value = 0\<rparr>]"

definition write_key_locked :: "nat \<Rightarrow> u16 \<Rightarrow> int32 \<Rightarrow> forward_state \<Rightarrow> (int \<times> forward_state) mem" where
  "write_key_locked i code v s = write_locked i (key_report code v) s"

fun note_written_keys :: "bytes \<Rightarrow> input_event list \<Rightarrow> int \<Rightarrow> bytes mem" where
  "note_written_keys keys [] result = Some keys"
| "note_written_keys keys (e # events) result = do {
     keys \<leftarrow> (if ie_type e = EV_KEY \<and> unat (ie_code e) \<le> KEY_MAX \<and> ie_value e \<noteq> 2 \<and> (result = 0 \<or> ie_value e \<noteq> 0)
       then ksi_set_key_bit keys (ie_code e) (ie_value e \<noteq> 0) else Some keys);
     note_written_keys keys events result
   }"

definition write_sink_locked :: "input_event list \<Rightarrow> forward_state \<Rightarrow> (int \<times> forward_state) mem" where
  "write_sink_locked events s = do {
     let (result, s) = (if sk_fd (fs_sink s) \<ge> 0 \<and> \<not> sk_failed (fs_sink s)
       then let (result, s) = output_write (To_Sink events) s;
                s = s\<lparr>fs_sink := (fs_sink s)\<lparr>sk_failed := result \<noteq> 0\<rparr>\<rparr>
            in (result, if sk_failed (fs_sink s) then s\<lparr>fs_sink_ready_flag := False, fs_failure_pending := True\<rparr> else s)
       else (-1, s));
     down \<leftarrow> note_written_keys (sk_down (fs_sink s)) events result;
     Some (result, s\<lparr>fs_sink := (fs_sink s)\<lparr>sk_down := down\<rparr>\<rparr>)
   }"

definition needs_repress_locked :: "u16 \<Rightarrow> forward_state \<Rightarrow> bool mem" where
  "needs_repress_locked code s =
    (if unat code \<in> set repress_exempt then Some False
     else if ksi_linux_key_code_is_keyboard (unat code) then ksi_key_bit (sk_down (fs_sink s)) code
     else Some False)"

definition write_sink_key_locked :: "u16 \<Rightarrow> int32 \<Rightarrow> forward_state \<Rightarrow> (int \<times> forward_state) mem" where
  "write_sink_key_locked code v s = write_sink_locked (key_report code v) s"

definition tap_locked :: "u16 \<Rightarrow> forward_state \<Rightarrow> (int \<times> forward_state) mem" where
  "tap_locked code s = do {
     down \<leftarrow> ksi_key_bit (sk_down (fs_sink s)) code;
     (result, s) \<leftarrow> write_sink_locked (key_report code (if down then 0 else 1) @ key_report code (if down then 1 else 0)) s;
     Some (if result = 0 then 4 else -1, s)
   }"

definition sink_wants_locked :: "u16 \<Rightarrow> forward_state \<Rightarrow> bool mem" where
  "sink_wants_locked code s = do {
     synth \<leftarrow> ksi_key_bit (sk_synth (fs_sink s)) code;
     if synth then Some True
     else mem_for (\<lambda>i found. if found then Some True else do {
         d \<leftarrow> get_device i s;
         if live d \<and> on_sink d code then ksi_key_bit (fk_output (fd_views d KSI_FORWARD_APPLIED)) code else Some False
       }) [0..<fs_slot_limit s] False
   }"

definition reconcile_locked :: "u16 \<Rightarrow> forward_state \<Rightarrow> (int \<times> forward_state) mem" where
  "reconcile_locked code s = do {
     want \<leftarrow> sink_wants_locked code s;
     down \<leftarrow> ksi_key_bit (sk_down (fs_sink s)) code;
     if want = down then Some (0, s)
     else do {
       (result, s) \<leftarrow> write_sink_key_locked code (if want then 1 else 0) s;
       Some (if result = 0 then 2 else -1, s)
     }
   }"

definition set_output_locked :: "nat \<Rightarrow> ksi_forward_view \<Rightarrow> u16 \<Rightarrow> bool \<Rightarrow> forward_state \<Rightarrow> forward_state mem" where
  "set_output_locked i view code hold s = do {
     d \<leftarrow> get_device i s;
     output \<leftarrow> ksi_set_key_bit (fk_output (fd_views d view)) code hold;
     s \<leftarrow> put_device i (set_keys view ((fd_views d view)\<lparr>fk_output := output\<rparr>) d) s;
     if view \<noteq> KSI_FORWARD_APPLIED then Some s
     else if on_sink d code then do { (_, s) \<leftarrow> reconcile_locked code s; Some s }
     else if fd_output d \<noteq> None then do { (_, s) \<leftarrow> write_key_locked i code (if hold then 1 else 0) s; Some s }
     else Some s
   }"

definition release_byte :: "nat \<Rightarrow> ksi_forward_view \<Rightarrow> bytes ptr \<Rightarrow> nat \<Rightarrow> forward_state \<Rightarrow> forward_state mem" where
  "release_byte i view keep n s = do {
     kept \<leftarrow> (case keep of None \<Rightarrow> Some 0 | Some k \<Rightarrow> rd8 k n);
     d \<leftarrow> get_device i s;
     output \<leftarrow> rd8 (fk_output (fd_views d view)) n;
     s \<leftarrow> bits_for (\<lambda>k s. set_output_locked i view (of_nat (n * 8 + k)) False s) (ucast (output AND NOT kept)) s;
     d \<leftarrow> get_device i s;
     b \<leftarrow> rd8 (fk_displaced (fd_views d view)) n;
     displaced \<leftarrow> wr8 (fk_displaced (fd_views d view)) n (b AND kept);
     put_device i (set_keys view ((fd_views d view)\<lparr>fk_displaced := displaced\<rparr>) d) s
   }"

definition release_outputs_locked :: "nat \<Rightarrow> ksi_forward_view \<Rightarrow> bytes ptr \<Rightarrow> forward_state \<Rightarrow> forward_state mem" where
  "release_outputs_locked i view keep s = mem_for (release_byte i view keep) [0..<KSI_KEY_BITMAP_BYTES] s"

definition report_end :: "input_event list" where
  "report_end = [\<lparr>ie_type = EV_SYN, ie_code = SYN_REPORT, ie_value = 0\<rparr>]"

definition end_open_reports_locked :: "nat \<Rightarrow> forward_state \<Rightarrow> forward_state mem" where
  "end_open_reports_locked i s = do {
     d \<leftarrow> get_device i s;
     s \<leftarrow> (if fd_sink_report_open d then do { (_, s) \<leftarrow> write_sink_locked report_end s; Some s } else Some s);
     s \<leftarrow> (if fd_clone_report_open d then do { (_, s) \<leftarrow> write_locked i report_end s; Some s } else Some s);
     d \<leftarrow> get_device i s;
     put_device i (d\<lparr>fd_sink_report_open := False, fd_clone_report_open := False\<rparr>) s
   }"

definition end_grab_locked :: "nat \<Rightarrow> ksi_forward_view \<Rightarrow> bytes ptr \<Rightarrow> forward_state \<Rightarrow> forward_state mem" where
  "end_grab_locked i view keep s = do {
     s \<leftarrow> (if view = KSI_FORWARD_APPLIED then end_open_reports_locked i s else Some s);
     d \<leftarrow> get_device i s;
     s \<leftarrow> release_outputs_locked i view (case keep of Some k \<Rightarrow> Some k | None \<Rightarrow> Some (fk_source (fd_views d view))) s;
     d \<leftarrow> get_device i s;
     s \<leftarrow> put_device i (set_keys view ((fd_views d view)\<lparr>fk_displaced := replicate KSI_KEY_BITMAP_BYTES 0\<rparr>) d) s;
     Some (s\<lparr>fs_target_epoch := fs_target_epoch s + 1\<rparr>)
   }"

section \<open>Sources\<close>

text \<open>
  What the file calls of libevdev and uinput, for a source description of any type: \<open>lv_has\<close> is
  \<open>libevdev_has_event_code\<close>, \<open>lv_value\<close> is \<open>libevdev_get_event_value\<close>, \<open>lv_create\<close> is
  \<open>libevdev_uinput_create_from_device\<close> on a descriptor, \<open>lv_open\<close> the result of opening the uinput
  node and \<open>lv_set_phys\<close> of \<open>UI_SET_PHYS\<close>. \<open>Inl\<close> carries the (positive) error number.
\<close>

record 'dev libevdev =
  lv_phys :: "'dev \<Rightarrow> string ptr"
  lv_disable_type :: "'dev \<Rightarrow> u16 \<Rightarrow> 'dev"
  lv_disable_code :: "'dev \<Rightarrow> u16 \<Rightarrow> nat \<Rightarrow> 'dev"
  lv_has :: "'dev \<Rightarrow> u16 \<Rightarrow> nat \<Rightarrow> bool"
  lv_value :: "'dev \<Rightarrow> u16 \<Rightarrow> nat \<Rightarrow> int"
  lv_open :: "nat + nat"
  lv_set_phys :: "nat \<Rightarrow> string \<Rightarrow> nat option"
  lv_create :: "'dev \<Rightarrow> nat \<Rightarrow> nat + nat"

text \<open>The result, the created output, and the descriptor that was closed again.\<close>

definition create_output :: "'dev libevdev \<Rightarrow> 'dev \<Rightarrow> string \<Rightarrow> int \<times> nat ptr \<times> nat option" where
  "create_output lib source phys = (case lv_open lib of
      Inl errno \<Rightarrow> (- int errno, None, None)
    | Inr fd \<Rightarrow>
        (case lv_set_phys lib fd phys of
           Some errno \<Rightarrow> (- int errno, None, Some fd)
         | None \<Rightarrow> (case lv_create lib source fd of
               Inl errno \<Rightarrow> (- int errno, None, Some fd)
             | Inr handle \<Rightarrow> (0, Some handle, None))))"

definition destroy_output :: "nat ptr \<Rightarrow> forward_state \<Rightarrow> forward_state mem" where
  "destroy_output handle s = do { h \<leftarrow> handle; Some (s\<lparr>fs_log := fs_log s @ [Clone_Destroyed h]\<rparr>) }"

definition has_codes :: "'dev libevdev \<Rightarrow> 'dev \<Rightarrow> u16 \<Rightarrow> nat \<Rightarrow> bool" where
  "has_codes lib source type max_code \<longleftrightarrow> list_ex (\<lambda>code. lv_has lib source type code) [0..<max_code + 1]"

text \<open>An event array that has room for \<open>room\<close> events.\<close>

definition push_event :: "nat \<Rightarrow> 'a list \<Rightarrow> 'a \<Rightarrow> 'a list mem" where
  "push_event room events e = (if length events < room then Some (events @ [e]) else None)"

definition switch_events :: "bytes \<Rightarrow> bytes \<Rightarrow> input_event list mem" where
  "switch_events switches state = mem_for (\<lambda>code events. do {
       has \<leftarrow> ksi_key_bit switches (of_nat code);
       if has then do {
         on \<leftarrow> ksi_key_bit state (of_nat code);
         push_event (SW_MAX + 2) events \<lparr>ie_type = EV_SW, ie_code = of_nat code, ie_value = (if on then 1 else 0)\<rparr>
       } else Some events
     }) [0..<SW_MAX + 1] []"

definition ksi_linux_forward_sync_switches :: "u64 \<Rightarrow> bytes ptr \<Rightarrow> forward_state \<Rightarrow> forward_state mem" where
  "ksi_linux_forward_sync_switches target state s = do {
     device \<leftarrow> find_device_locked target KSI_FORWARD_ENQUEUED s;
     case device of None \<Rightarrow> Some s
     | Some i \<Rightarrow> do {
         d \<leftarrow> get_device i s;
         case state of
           None \<Rightarrow> Some s
         | Some st \<Rightarrow>
             if fd_output d = None then Some s
             else do {
               events \<leftarrow> switch_events (fd_switches d) st;
               if events = [] then Some s
               else do {
                 events \<leftarrow> push_event (SW_MAX + 2) events \<lparr>ie_type = EV_SYN, ie_code = SYN_REPORT, ie_value = 0\<rparr>;
                 (_, s) \<leftarrow> write_locked i events s;
                 Some s
               }
             }
       }
   }"

definition disable_codes :: "'dev libevdev \<Rightarrow> bool \<Rightarrow> 'dev \<Rightarrow> 'dev" where
  "disable_codes lib keyboard source =
    (let source = lv_disable_type lib source EV_REP;
         source = lv_disable_type lib source EV_FF;
         source = lv_disable_type lib source EV_LED;
         source = lv_disable_code lib source EV_SW SW_RFKILL_ALL
     in fold (\<lambda>code source.
          if keyboard \<and> (ksi_linux_key_code_is_keyboard code \<or> (code \<ge> BTN_JOYSTICK \<and> code < BTN_DIGI) \<or> code \<ge> BTN_TRIGGER_HAPPY)
          then lv_disable_code lib source EV_KEY code else source) [0..<KEY_MAX + 1] source)"

definition read_switches :: "'dev libevdev \<Rightarrow> 'dev \<Rightarrow> (bytes \<times> bytes) mem" where
  "read_switches lib source = mem_for (\<lambda>code (switches, state). do {
       switches \<leftarrow> ksi_set_key_bit switches (of_nat code) (lv_has lib source EV_SW code);
       state \<leftarrow> ksi_set_key_bit state (of_nat code) (lv_value lib source EV_SW code > 0);
       Some (switches, state)
     }) [0..<SW_MAX + 1] (replicate KSI_SWITCH_BITMAP_BYTES 0, replicate KSI_SWITCH_BITMAP_BYTES 0)"

definition KSI_FORWARD_PHYS_PREFIX :: string where "KSI_FORWARD_PHYS_PREFIX = ''keysharp-input/forward/''"

definition free_slot :: "forward_state \<Rightarrow> nat" where
  "free_slot s = length (takeWhile fd_open (fs_devices s))"

text \<open>\<open>source\<close> is what \<open>libevdev_new_from_fd\<close> makes of the metadata descriptor.\<close>

definition ksi_linux_forward_open ::
  "'dev libevdev \<Rightarrow> 'dev option \<Rightarrow> bool \<Rightarrow> forward_state \<Rightarrow> (u64 \<times> forward_state) mem" where
  "ksi_linux_forward_open lib source keyboard s =
    (let slot = free_slot s
     in if slot = KSI_MAX_FORWARDING_DEVICES then Some (0, s)
        else case source of None \<Rightarrow> Some (0, s)
        | Some source \<Rightarrow> do {
            let phys = take 511 (KSI_FORWARD_PHYS_PREFIX @ (case lv_phys lib source of None \<Rightarrow> [] | Some p \<Rightarrow> p));
            let source = disable_codes lib keyboard source;
            (switches, state) \<leftarrow> read_switches lib source;
            let (result, output, closed) =
              (if has_codes lib source EV_KEY KEY_MAX \<or> has_codes lib source EV_REL REL_MAX
                \<or> has_codes lib source EV_ABS ABS_MAX \<or> has_codes lib source EV_SW SW_MAX
               then create_output lib source phys else (0, None, None));
            if result < 0 then Some (0, s)
            else do {
              let (target, s) = new_target_locked slot s;
              s \<leftarrow> put_device slot (zero_forwarding_device\<lparr>fd_target := \<lambda>_. target, fd_open := True, fd_keyboard := keyboard,
                     fd_output := output,
                     fd_wheel := lv_has lib source EV_REL (unat REL_WHEEL),
                     fd_horizontal_wheel := lv_has lib source EV_REL (unat REL_HWHEEL),
                     fd_switches := switches\<rparr>) s;
              let s = (if fs_slot_limit s \<le> slot then s\<lparr>fs_slot_limit := slot + 1\<rparr> else s);
              s \<leftarrow> ksi_linux_forward_sync_switches target (Some state) s;
              Some (target, s)
            }
          })"

definition ksi_linux_forward_has_clone :: "u64 \<Rightarrow> forward_state \<Rightarrow> bool mem" where
  "ksi_linux_forward_has_clone target s = do {
     device \<leftarrow> find_device_locked target KSI_FORWARD_ENQUEUED s;
     case device of None \<Rightarrow> Some False | Some i \<Rightarrow> do { d \<leftarrow> get_device i s; Some (fd_output d \<noteq> None) }
   }"

definition ksi_linux_forward_end_grab :: "u64 \<Rightarrow> bytes \<Rightarrow> forward_state \<Rightarrow> (u64 \<times> bytes \<times> forward_state) mem" where
  "ksi_linux_forward_end_grab target keys s = do {
     keys \<leftarrow> mem_zero keys 0 KSI_KEY_BITMAP_BYTES;
     device \<leftarrow> find_device_locked target KSI_FORWARD_ENQUEUED s;
     case device of None \<Rightarrow> Some (target, keys, s)
     | Some i \<Rightarrow> do {
         d \<leftarrow> get_device i s;
         source \<leftarrow> mem_read (fk_source (fd_views d KSI_FORWARD_ENQUEUED)) 0 KSI_KEY_BITMAP_BYTES;
         keys \<leftarrow> mem_copy keys 0 source;
         s \<leftarrow> end_grab_locked i KSI_FORWARD_ENQUEUED None s;
         let (target, s) = new_target_locked i s;
         d \<leftarrow> get_device i s;
         s \<leftarrow> put_device i (set_target KSI_FORWARD_ENQUEUED target d) s;
         Some (target, keys, s)
       }
   }"

definition ksi_linux_forward_apply_end_grab :: "u64 \<Rightarrow> bytes ptr \<Rightarrow> forward_state \<Rightarrow> forward_state mem" where
  "ksi_linux_forward_apply_end_grab next keys s =
    (let slot = unat (next AND 0xff)
     in if \<not> (slot \<noteq> 0 \<and> slot \<le> KSI_MAX_FORWARDING_DEVICES) then Some s
        else do {
          d \<leftarrow> get_device (slot - 1) s;
          if live d \<and> fd_target d KSI_FORWARD_APPLIED < next
          then do {
            s \<leftarrow> end_grab_locked (slot - 1) KSI_FORWARD_APPLIED keys s;
            d \<leftarrow> get_device (slot - 1) s;
            put_device (slot - 1) (set_target KSI_FORWARD_APPLIED next d) s
          } else Some s
        })"

definition ksi_linux_forward_close :: "u64 \<Rightarrow> forward_state \<Rightarrow> forward_state mem" where
  "ksi_linux_forward_close target s = do {
     device \<leftarrow> find_device_locked target KSI_FORWARD_ENQUEUED s;
     case device of None \<Rightarrow> Some s
     | Some i \<Rightarrow> do {
         d \<leftarrow> get_device i s;
         s \<leftarrow> put_device i ((set_target KSI_FORWARD_ENQUEUED 0 (set_keys KSI_FORWARD_ENQUEUED zero_forward_keys d))\<lparr>fd_closing := True\<rparr>) s;
         Some (s\<lparr>fs_target_epoch := fs_target_epoch s + 1\<rparr>)
       }
   }"

text \<open>\<open>clock\<close> is the reading of the monotonic clock.\<close>

definition ksi_linux_forward_apply_close :: "(u64 \<times> u64) option \<Rightarrow> u64 \<Rightarrow> forward_state \<Rightarrow> forward_state mem" where
  "ksi_linux_forward_apply_close clock target s =
    (let slot = unat (target AND 0xff)
     in if \<not> (slot \<noteq> 0 \<and> slot \<le> KSI_MAX_FORWARDING_DEVICES) then Some s
        else do {
          d \<leftarrow> get_device (slot - 1) s;
          if fd_closing d \<and> live d
          then do {
            s \<leftarrow> end_open_reports_locked (slot - 1) s;
            s \<leftarrow> release_outputs_locked (slot - 1) KSI_FORWARD_APPLIED None s;
            d \<leftarrow> get_device (slot - 1) s;
            s \<leftarrow> (if fd_output d = None then put_device (slot - 1) zero_forwarding_device s
              else do {
                s \<leftarrow> put_device (slot - 1) (d\<lparr>fd_views := \<lambda>_. zero_forward_keys, fd_retiring := True,
                       fd_retire_ms := ksi_linux_monotonic_ms clock\<rparr>) s;
                Some (s\<lparr>fs_retiring_count := fs_retiring_count s + 1\<rparr>)
              });
            Some (s\<lparr>fs_target_epoch := fs_target_epoch s + 1\<rparr>)
          } else Some s
        })"

definition ksi_linux_forward_failed :: "u64 \<Rightarrow> ksi_forward_view \<Rightarrow> forward_state \<Rightarrow> bool mem" where
  "ksi_linux_forward_failed target view s = do {
     device \<leftarrow> find_device_locked target view s;
     case device of None \<Rightarrow> Some True | Some i \<Rightarrow> do { d \<leftarrow> get_device i s; Some (fd_failed d) }
   }"

definition ksi_linux_forward_take_failure :: "forward_state \<Rightarrow> bool \<times> forward_state" where
  "ksi_linux_forward_take_failure s = (fs_failure_pending s, s\<lparr>fs_failure_pending := False\<rparr>)"

definition ksi_linux_forward_target_for_path :: "(nat \<Rightarrow> string ptr) \<Rightarrow> string \<Rightarrow> forward_state \<Rightarrow> u64 mem" where
  "ksi_linux_forward_target_for_path devnode path s = do {
     device \<leftarrow> find_path_locked devnode path s;
     case device of None \<Rightarrow> Some 0 | Some i \<Rightarrow> do { d \<leftarrow> get_device i s; Some (fd_target d KSI_FORWARD_ENQUEUED) }
   }"

section \<open>Packets\<close>

definition ksi_forward_key_values :: "ksi_forward_packet \<Rightarrow> u32 mem" where
  "ksi_forward_key_values p = mem_for (\<lambda>i values. do {
       e \<leftarrow> arr_get (pk_events p) i;
       Some (if fe_type e = EV_KEY \<and> unat (fe_value e) \<le> 2 then values OR push_bit (unat (fe_value e)) 1 else values)
     }) [0..<min (unat (pk_count p)) KSI_FORWARD_PACKET_EVENTS] 0"

definition last_event :: "ksi_forward_packet \<Rightarrow> ksi_forward_event ptr mem" where
  "last_event p = (if pk_count p \<noteq> 0 then do { e \<leftarrow> arr_get (pk_events p) (unat (pk_count p) - 1); Some (Some e) } else Some None)"

definition packet_key :: "ksi_forward_packet \<Rightarrow> ksi_forward_event ptr mem" where
  "packet_key p = do {
     key \<leftarrow> last_event p;
     Some (case key of None \<Rightarrow> None | Some k \<Rightarrow> if fe_type k \<noteq> EV_KEY \<or> unat (fe_code k) > KEY_MAX then None else Some k)
   }"

definition packet_event :: "nat \<Rightarrow> ksi_forward_packet \<Rightarrow> nat \<Rightarrow> input_event list \<times> forward_state \<Rightarrow> (input_event list \<times> forward_state) mem" where
  "packet_event dev p i = (\<lambda>(events, s). do {
     e \<leftarrow> arr_get (pk_events p) i;
     d \<leftarrow> get_device dev s;
     let vertical = (fe_code e = REL_WHEEL_HI_RES \<and> fd_wheel d);
     let horizontal = (fe_code e = REL_HWHEEL_HI_RES \<and> fd_horizontal_wheel d);
     events \<leftarrow> push_event (KSI_FORWARD_PACKET_EVENTS * 2 + 1) events \<lparr>ie_type = fe_type e, ie_code = fe_code e, ie_value = fe_value e\<rparr>;
     if fe_type e = EV_REL \<and> (vertical \<or> horizontal)
     then do {
       let (steps, rest) = ksi_linux_wheel_steps (fe_value e) (if vertical then fd_wheel_remainder d else fd_horizontal_remainder d);
       s \<leftarrow> put_device dev (if vertical then d\<lparr>fd_wheel_remainder := rest\<rparr> else d\<lparr>fd_horizontal_remainder := rest\<rparr>) s;
       events \<leftarrow> (if steps \<noteq> 0
         then push_event (KSI_FORWARD_PACKET_EVENTS * 2 + 1) events
                \<lparr>ie_type = EV_REL, ie_code = (if vertical then REL_WHEEL else REL_HWHEEL), ie_value = steps\<rparr>
         else Some events);
       Some (events, s)
     } else Some (events, s)
   })"

definition packet_events :: "nat \<Rightarrow> ksi_forward_packet \<Rightarrow> forward_state \<Rightarrow> (input_event list \<times> forward_state) mem" where
  "packet_events dev p s = do {
     (events, s) \<leftarrow> mem_for (packet_event dev p) [0..<unat (pk_count p)] ([], s);
     events \<leftarrow> (if pk_flags p AND KSI_FORWARD_REPORT_END \<noteq> 0
       then push_event (KSI_FORWARD_PACKET_EVENTS * 2 + 1) events \<lparr>ie_type = EV_SYN, ie_code = SYN_REPORT, ie_value = 0\<rparr>
       else Some events);
     Some (events, s)
   }"

definition packet_ends_report :: "ksi_forward_packet \<Rightarrow> bool mem" where
  "packet_ends_report p = do {
     e \<leftarrow> last_event p;
     Some (pk_flags p AND KSI_FORWARD_REPORT_END \<noteq> 0
       \<or> (case e of None \<Rightarrow> False | Some e \<Rightarrow> fe_type e = EV_SYN \<and> fe_code e = SYN_REPORT))
   }"

definition pace :: "(u64 \<times> u64) option \<Rightarrow> nat \<Rightarrow> forward_state \<Rightarrow> forward_state" where
  "pace clock count s = s\<lparr>fs_pace := snd (ksi_linux_output_pace clock count (fs_pace s))\<rparr>"

text \<open>The release of a key that the source does not hold.\<close>

definition idle_release :: "bytes \<Rightarrow> ksi_forward_event ptr \<Rightarrow> bool mem" where
  "idle_release output key = (case key of None \<Rightarrow> Some False
     | Some k \<Rightarrow> if fe_value k \<noteq> 0 then Some False
         else do { a \<leftarrow> ksi_key_bit output (fe_code k);
                   if a then Some False else do { b \<leftarrow> ksi_key_bit output (ksi_button_alias (fe_code k)); Some (\<not> b) } })"

definition write_clone :: "nat \<Rightarrow> input_event list \<Rightarrow> bool \<Rightarrow> forward_state \<Rightarrow> (int \<times> forward_state) mem" where
  "write_clone i events ends_report s = do {
     (result, s) \<leftarrow> write_locked i events s;
     d \<leftarrow> get_device i s;
     output \<leftarrow> note_written_keys (fk_output (fd_views d KSI_FORWARD_APPLIED)) events result;
     s \<leftarrow> put_device i (set_keys KSI_FORWARD_APPLIED ((fd_views d KSI_FORWARD_APPLIED)\<lparr>fk_output := output\<rparr>)
            (d\<lparr>fd_clone_report_open := \<not> ends_report\<rparr>)) s;
     Some (result, s)
   }"

text \<open>
  The branch for the sink; \<^const>\<open>None\<close> as result means that nothing was to be written and the call
  returned 0 at once, otherwise the result comes with the number of events to pace.
\<close>

definition note_held :: "nat \<Rightarrow> ksi_forward_event ptr \<Rightarrow> forward_state \<Rightarrow> forward_state mem" where
  "note_held i key s = (case key of None \<Rightarrow> Some s
     | Some k \<Rightarrow> if fe_value k = 2 then Some s
         else do {
           d \<leftarrow> get_device i s;
           output \<leftarrow> ksi_set_key_bit (fk_output (fd_views d KSI_FORWARD_APPLIED)) (fe_code k) (fe_value k \<noteq> 0);
           put_device i (set_keys KSI_FORWARD_APPLIED ((fd_views d KSI_FORWARD_APPLIED)\<lparr>fk_output := output\<rparr>) d) s
         })"

definition unchanged_sink :: "ksi_forward_event ptr \<Rightarrow> forward_state \<Rightarrow> bool mem" where
  "unchanged_sink key s = (case key of None \<Rightarrow> Some False
     | Some k \<Rightarrow> do {
         down \<leftarrow> ksi_key_bit (sk_down (fs_sink s)) (fe_code k);
         if fe_value k = 2 then Some (\<not> down)
         else do { want \<leftarrow> sink_wants_locked (fe_code k) s; Some (want = down) }
       })"

definition write_to_sink ::
  "nat \<Rightarrow> ksi_forward_event ptr \<Rightarrow> input_event list \<Rightarrow> bool \<Rightarrow> forward_state \<Rightarrow> ((int \<times> nat) option \<times> forward_state) mem" where
  "write_to_sink i key events ends_report s = do {
     repress \<leftarrow> (case key of None \<Rightarrow> Some False
       | Some k \<Rightarrow> if fe_value k = 1 then needs_repress_locked (fe_code k) s else Some False);
     s \<leftarrow> note_held i key s;
     unchanged \<leftarrow> (if repress then Some False else unchanged_sink key s);
     if unchanged then Some (None, s)
     else do {
       (result, s) \<leftarrow> (case key of
           Some k \<Rightarrow> if repress then write_sink_key_locked (fe_code k) 0 s else Some (0, s)
         | None \<Rightarrow> Some (0, s));
       (result, s) \<leftarrow> (if result = 0 then write_sink_locked events s else Some (result, s));
       d \<leftarrow> get_device i s;
       s \<leftarrow> put_device i (d\<lparr>fd_sink_report_open := \<not> ends_report\<rparr>) s;
       Some (Some (result, length events + (if repress then 2 else 0)), s)
     }
   }"

text \<open>The call once the packet's device is known to carry it.\<close>

definition write_device ::
  "(u64 \<times> u64) option \<Rightarrow> ksi_forward_packet \<Rightarrow> nat \<Rightarrow> forwarding_device \<Rightarrow> ksi_forward_event ptr \<Rightarrow> forward_state \<Rightarrow> (int \<times> forward_state) mem" where
  "write_device clock p i d key s = do {
     let clone = (pk_flags p AND KSI_FORWARD_CLONE \<noteq> 0);
     idle \<leftarrow> idle_release (fk_output (fd_views d KSI_FORWARD_APPLIED)) key;
     if idle then do {
       (written, s) \<leftarrow> (case key of Some k \<Rightarrow> if clone then Some (0, s) else reconcile_locked (fe_code k) s | None \<Rightarrow> Some (0, s));
       Some (0, if written > 0 then pace clock (nat written) s else s)
     }
     else do {
       (events, s) \<leftarrow> packet_events i p s;
       ends_report \<leftarrow> packet_ends_report p;
       if clone then do {
         (result, s) \<leftarrow> write_clone i events ends_report s;
         Some (result, if result = 0 then pace clock (length events) s else s)
       } else do {
         (outcome, s) \<leftarrow> write_to_sink i key events ends_report s;
         case outcome of None \<Rightarrow> Some (0, s)
         | Some (result, count) \<Rightarrow> Some (result, if result = 0 then pace clock count s else s)
       }
     }
   }"

definition ksi_linux_forward_write ::
  "(u64 \<times> u64) option \<Rightarrow> ksi_forward_packet ptr \<Rightarrow> forward_state \<Rightarrow> (int \<times> forward_state) mem" where
  "ksi_linux_forward_write clock packet s = (case packet of None \<Rightarrow> Some (-1, s)
    | Some p \<Rightarrow> if unat (pk_count p) > KSI_FORWARD_PACKET_EVENTS then Some (-1, s)
      else do {
        device \<leftarrow> find_device_locked (pk_target p) KSI_FORWARD_APPLIED s;
        key \<leftarrow> packet_key p;
        case device of None \<Rightarrow> Some (0, s)
        | Some i \<Rightarrow> do {
            d \<leftarrow> get_device i s;
            if (if pk_flags p AND KSI_FORWARD_CLONE \<noteq> 0 then fd_output d = None else \<not> fd_keyboard d) then Some (0, s)
            else write_device clock p i d key s
          }
      })"

definition note_key_event :: "nat \<Rightarrow> ksi_forward_packet \<Rightarrow> ksi_forward_view \<Rightarrow> bool \<Rightarrow> nat \<Rightarrow> forward_state \<Rightarrow> forward_state mem" where
  "note_key_event dev p view source i s = do {
     e \<leftarrow> arr_get (pk_events p) i;
     if fe_type e \<noteq> EV_KEY \<or> unat (fe_code e) > KEY_MAX \<or> fe_value e = 2 then Some s
     else do {
       d \<leftarrow> get_device dev s;
       let keys = fd_views d view;
       keys \<leftarrow> (if source
         then do { b \<leftarrow> ksi_set_key_bit (fk_source keys) (fe_code e) (fe_value e \<noteq> 0); Some (keys\<lparr>fk_source := b\<rparr>) }
         else do { b \<leftarrow> ksi_set_key_bit (fk_output keys) (fe_code e) (fe_value e \<noteq> 0); Some (keys\<lparr>fk_output := b\<rparr>) });
       keys \<leftarrow> (if source \<and> fe_value e = 0
         then do { b \<leftarrow> ksi_set_key_bit (fk_displaced keys) (fe_code e) False; Some (keys\<lparr>fk_displaced := b\<rparr>) }
         else Some keys);
       put_device dev (set_keys view keys d) s
     }
   }"

definition note_keys :: "ksi_forward_packet \<Rightarrow> ksi_forward_view \<Rightarrow> bool \<Rightarrow> forward_state \<Rightarrow> forward_state mem" where
  "note_keys p view source s =
    (if unat (pk_count p) > KSI_FORWARD_PACKET_EVENTS then Some s
     else do {
       values \<leftarrow> ksi_forward_key_values p;
       if values AND (KSI_FORWARD_KEY_UP OR KSI_FORWARD_KEY_DOWN) = 0 then Some s
       else do {
         device \<leftarrow> find_device_locked (pk_target p) view s;
         case device of None \<Rightarrow> Some s
         | Some dev \<Rightarrow> mem_for (note_key_event dev p view source) [0..<unat (pk_count p)] s
       }
     })"

definition ksi_linux_forward_note_output :: "ksi_forward_packet \<Rightarrow> forward_state \<Rightarrow> forward_state mem" where
  "ksi_linux_forward_note_output p s = note_keys p KSI_FORWARD_ENQUEUED False s"

definition ksi_linux_forward_note_source :: "ksi_forward_packet \<Rightarrow> ksi_forward_view \<Rightarrow> forward_state \<Rightarrow> forward_state mem" where
  "ksi_linux_forward_note_source p view s = note_keys p view True s"

section \<open>Keys that synthesis takes over\<close>

definition shift_code :: "nat \<Rightarrow> ksi_forward_view \<Rightarrow> bool \<Rightarrow> u16 \<Rightarrow> bool \<times> forward_state \<Rightarrow> (bool \<times> forward_state) mem" where
  "shift_code i view restore code = (\<lambda>(shifted, s). do {
     d \<leftarrow> get_device i s;
     let keys = fd_views d view;
     set_bit \<leftarrow> ksi_key_bit (if restore then fk_displaced keys else fk_output keys) code;
     if \<not> set_bit then Some (shifted, s)
     else do {
       physical \<leftarrow> (if restore then Some False else ksi_key_bit (fk_source keys) code);
       displaced \<leftarrow> ksi_set_key_bit (fk_displaced keys) code physical;
       s \<leftarrow> put_device i (set_keys view (keys\<lparr>fk_displaced := displaced\<rparr>) d) s;
       s \<leftarrow> set_output_locked i view code restore s;
       Some (True, s)
     }
   })"

definition shift_device :: "u16 list \<Rightarrow> ksi_forward_view \<Rightarrow> bool \<Rightarrow> nat \<Rightarrow> bool \<times> forward_state \<Rightarrow> (bool \<times> forward_state) mem" where
  "shift_device codes view restore i = (\<lambda>(shifted, s). do {
     d \<leftarrow> get_device i s;
     if \<not> live d then Some (shifted, s)
     else mem_for (\<lambda>c acc. do { code \<leftarrow> arr_get codes c; shift_code i view restore code acc })
       [0..<if codes ! 1 \<noteq> codes ! 0 then 2 else 1] (shifted, s)
   })"

definition shift_key :: "u16 \<Rightarrow> ksi_forward_view \<Rightarrow> bool \<Rightarrow> forward_state \<Rightarrow> (bool \<times> forward_state) mem" where
  "shift_key code view restore s =
    (let codes = [code, ksi_button_alias code]
     in if unat code > KEY_MAX then Some (False, s)
        else mem_for (shift_device codes view restore) [0..<fs_slot_limit s] (False, s))"

definition ksi_linux_forward_release_key :: "u16 \<Rightarrow> ksi_forward_view \<Rightarrow> forward_state \<Rightarrow> forward_state mem" where
  "ksi_linux_forward_release_key code view s = do { (_, s) \<leftarrow> shift_key code view False s; Some s }"

definition ksi_linux_forward_restore_key :: "u16 \<Rightarrow> ksi_forward_view \<Rightarrow> forward_state \<Rightarrow> (bool \<times> forward_state) mem" where
  "ksi_linux_forward_restore_key code view s = shift_key code view True s"

definition ksi_linux_forward_release_all :: "ksi_forward_view \<Rightarrow> forward_state \<Rightarrow> forward_state mem" where
  "ksi_linux_forward_release_all view s = mem_for (\<lambda>i s. do {
       d \<leftarrow> get_device i s;
       if live d then release_outputs_locked i view None s else Some s
     }) [0..<fs_slot_limit s] s"

definition ksi_linux_forward_add_key_state :: "u64 \<Rightarrow> bytes \<Rightarrow> nat \<Rightarrow> forward_state \<Rightarrow> bytes mem" where
  "ksi_linux_forward_add_key_state target keys count s = do {
     device \<leftarrow> find_device_locked target KSI_FORWARD_ENQUEUED s;
     case device of None \<Rightarrow> Some keys
     | Some dev \<Rightarrow> mem_for (\<lambda>i keys. do {
         d \<leftarrow> get_device dev s;
         a \<leftarrow> rd8 keys i;
         b \<leftarrow> rd8 (fk_output (fd_views d KSI_FORWARD_ENQUEUED)) i;
         wr8 keys i (a OR b)
       }) [0..<min count KSI_KEY_BITMAP_BYTES] keys
   }"

section \<open>The sink\<close>

definition ksi_linux_forward_attach_sink :: "int \<Rightarrow> forward_state \<Rightarrow> forward_state" where
  "ksi_linux_forward_attach_sink fd s =
    (let s = (if fd < 0 then s\<lparr>fs_sink_generation := fs_sink_generation s + 1, fs_failure_pending := True\<rparr> else s)
     in s\<lparr>fs_sink := \<lparr>sk_fd = fd, sk_failed = False, sk_down = replicate KSI_KEY_BITMAP_BYTES 0,
             sk_synth = replicate KSI_KEY_BITMAP_BYTES 0\<rparr>,
          fs_sink_ready_flag := fd \<ge> 0, fs_log := fs_log s @ [Sink_Attached fd]\<rparr>)"

definition ksi_linux_forward_sink_generation :: "forward_state \<Rightarrow> u32" where
  "ksi_linux_forward_sink_generation s = fs_sink_generation s"

definition ksi_linux_forward_sink_ready :: "forward_state \<Rightarrow> bool" where
  "ksi_linux_forward_sink_ready s = fs_sink_ready_flag s"

definition ksi_linux_forward_sink_key :: "u16 \<Rightarrow> bool \<Rightarrow> forward_state \<Rightarrow> (int \<times> forward_state) mem" where
  "ksi_linux_forward_sink_key code hold s =
    (if unat code > KEY_MAX then Some (0, s)
     else do {
       synth \<leftarrow> ksi_set_key_bit (sk_synth (fs_sink s)) code hold;
       reconcile_locked code (s\<lparr>fs_sink := (fs_sink s)\<lparr>sk_synth := synth\<rparr>\<rparr>)
     })"

definition ksi_linux_forward_sink_tap :: "u16 \<Rightarrow> forward_state \<Rightarrow> (int \<times> forward_state) mem" where
  "ksi_linux_forward_sink_tap code s = (if unat code > KEY_MAX then Some (-1, s) else tap_locked code s)"

definition ksi_linux_forward_sink_repress :: "u16 \<Rightarrow> forward_state \<Rightarrow> (int \<times> forward_state) mem" where
  "ksi_linux_forward_sink_repress code s =
    (if unat code > KEY_MAX then Some (0, s)
     else do {
       needed \<leftarrow> needs_repress_locked code s;
       if needed then tap_locked code s else Some (0, s)
     })"

definition clear_synth_byte :: "nat \<Rightarrow> forward_state \<Rightarrow> forward_state mem" where
  "clear_synth_byte n s = do {
     b \<leftarrow> rd8 (sk_synth (fs_sink s)) n;
     synth \<leftarrow> wr8 (sk_synth (fs_sink s)) n 0;
     bits_for (\<lambda>k s. do { (_, s) \<leftarrow> reconcile_locked (of_nat (n * 8 + k)) s; Some s }) (ucast b)
       (s\<lparr>fs_sink := (fs_sink s)\<lparr>sk_synth := synth\<rparr>\<rparr>)
   }"

definition ksi_linux_forward_sink_clear_synth :: "forward_state \<Rightarrow> forward_state mem" where
  "ksi_linux_forward_sink_clear_synth s = mem_for clear_synth_byte [0..<KSI_KEY_BITMAP_BYTES] s"

definition ksi_linux_forward_epoch :: "forward_state \<Rightarrow> u32" where
  "ksi_linux_forward_epoch s = fs_target_epoch s"

definition collect_slot :: "bool \<Rightarrow> u64 \<Rightarrow> nat \<Rightarrow> nat ptr list \<times> forward_state \<Rightarrow> (nat ptr list \<times> forward_state) mem" where
  "collect_slot shutdown now i = (\<lambda>(expired, s). do {
     d \<leftarrow> get_device i s;
     if \<not> fd_retiring d \<or> (\<not> shutdown \<and> now - fd_retire_ms d < KSI_FORWARD_DRAIN_MS) then Some (expired, s)
     else do {
       expired \<leftarrow> push_event KSI_MAX_FORWARDING_DEVICES expired (fd_output d);
       s \<leftarrow> put_device i zero_forwarding_device s;
       Some (expired, s)
     }
   })"

definition ksi_linux_forward_collect :: "bool \<Rightarrow> (u64 \<times> u64) option \<Rightarrow> forward_state \<Rightarrow> forward_state mem" where
  "ksi_linux_forward_collect shutdown clock s =
    (if fs_retiring_count s = 0 then Some s
     else do {
       (expired, s) \<leftarrow> mem_for (collect_slot shutdown (ksi_linux_monotonic_ms clock)) [0..<fs_slot_limit s] ([], s);
       let s = s\<lparr>fs_retiring_count := fs_retiring_count s - of_nat (length expired)\<rparr>;
       mem_for (\<lambda>i s. do { handle \<leftarrow> arr_get expired i; destroy_output handle s }) [0..<length expired] s
     })"

end
