(* ===== verification/Forward_Laws.thy ===== *)
theory Forward_Laws
  imports Linux_Forward
begin

text \<open>
  The laws of the forwarding table. \<open>forward_wf\<close> is its type invariant and \<open>sink_link\<close> says that the
  sink's bitmap is what the desktop sees; \<open>wanted\<close> is the set of keys that synthesis or a live source
  holds. Every operation run under the lock is \<open>steady\<close>: it keeps both and leaves no key of the sink
  down that nobody holds.
\<close>

section \<open>Invariants\<close>

definition keys_ok :: "forward_keys \<Rightarrow> bool" where
  "keys_ok k \<longleftrightarrow> bitmap (fk_output k) \<and> bitmap (fk_source k) \<and> bitmap (fk_displaced k)"

definition shape :: "forwarding_device \<Rightarrow> (ksi_forward_view \<Rightarrow> u64) \<times> bool \<times> bool \<times> bool \<times> nat ptr \<times> bool" where
  "shape d = (fd_target d, fd_open d, fd_closing d, fd_keyboard d, fd_output d, fd_retiring d)"

definition device_ok :: "nat \<Rightarrow> forwarding_device \<Rightarrow> bool" where
  "device_ok i d \<longleftrightarrow> (\<forall>v. keys_ok (fd_views d v)) \<and> length (fd_switches d) = KSI_SWITCH_BITMAP_BYTES
     \<and> (\<forall>v. fd_target d v \<noteq> 0 \<longrightarrow> fd_open d \<and> unat (fd_target d v AND 0xff) = i + 1)
     \<and> (fd_clone_report_open d \<longrightarrow> fd_output d \<noteq> None)
     \<and> (fd_retiring d \<longrightarrow> fd_open d \<and> fd_output d \<noteq> None)"

definition forward_wf :: "forward_state \<Rightarrow> bool" where
  "forward_wf s \<longleftrightarrow> length (fs_devices s) = KSI_MAX_FORWARDING_DEVICES \<and> fs_slot_limit s \<le> KSI_MAX_FORWARDING_DEVICES
     \<and> (\<forall>i < KSI_MAX_FORWARDING_DEVICES. device_ok i (fs_devices s ! i)
          \<and> (fd_open (fs_devices s ! i) \<longrightarrow> i < fs_slot_limit s))
     \<and> bitmap (sk_down (fs_sink s)) \<and> bitmap (sk_synth (fs_sink s))"

text \<open>What the desktop makes of the events of the present sink.\<close>

definition desktop_event :: "input_event \<Rightarrow> nat set \<Rightarrow> nat set" where
  "desktop_event e keys =
    (if ie_type e = EV_KEY \<and> unat (ie_code e) \<le> KEY_MAX \<and> ie_value e \<noteq> 2
     then if ie_value e \<noteq> 0 then insert (unat (ie_code e)) keys else keys - {unat (ie_code e)}
     else keys)"

fun desktop_entry :: "forward_output \<Rightarrow> nat set \<Rightarrow> nat set" where
  "desktop_entry (To_Sink events taken) keys = (if taken then fold desktop_event events keys else keys)"
| "desktop_entry (Sink_Attached fd) keys = {}"
| "desktop_entry (To_Clone h events taken) keys = keys"
| "desktop_entry (Clone_Destroyed h) keys = keys"

definition desktop_keys :: "forward_output list \<Rightarrow> nat set" where
  "desktop_keys log = fold desktop_entry log {}"

definition ready :: "forward_state \<Rightarrow> bool" where
  "ready s \<longleftrightarrow> sk_fd (fs_sink s) \<ge> 0 \<and> \<not> sk_failed (fs_sink s)"

definition sink_link :: "forward_state \<Rightarrow> bool" where
  "sink_link s \<longleftrightarrow> (fs_sink_ready_flag s \<longleftrightarrow> ready s)
     \<and> (ready s \<longrightarrow> held (sk_down (fs_sink s)) = desktop_keys (fs_log s))"

definition wants :: "forwarding_device \<Rightarrow> nat set" where
  "wants d = {c. live d \<and> fd_keyboard d \<and> ksi_linux_key_code_is_keyboard c \<and> c \<in> held (fk_output (fd_views d KSI_FORWARD_APPLIED))}"

definition wanted :: "forward_state \<Rightarrow> nat set" where
  "wanted s = held (sk_synth (fs_sink s)) \<union> (\<Union>i < fs_slot_limit s. wants (fs_devices s ! i))"

definition unstuck :: "nat set \<Rightarrow> forward_state \<Rightarrow> bool" where
  "unstuck X s \<longleftrightarrow> (ready s \<longrightarrow> held (sk_down (fs_sink s)) \<subseteq> wanted s \<union> X)"

definition frame :: "forward_state \<Rightarrow> forward_state \<Rightarrow> bool" where
  "frame s s' \<longleftrightarrow> map shape (fs_devices s') = map shape (fs_devices s) \<and> fs_slot_limit s' = fs_slot_limit s
     \<and> fs_next_serial s' = fs_next_serial s"

definition views_of :: "ksi_forward_view \<Rightarrow> forward_state \<Rightarrow> forward_keys list" where
  "views_of v s = map (\<lambda>d. fd_views d v) (fs_devices s)"

text \<open>
  A steady step keeps the invariants and the shape of the table, and unsticks what was unstuck.
\<close>

definition steady :: "forward_state \<Rightarrow> forward_state \<Rightarrow> bool" where
  "steady s s' \<longleftrightarrow> forward_wf s' \<and> sink_link s' \<and> frame s s' \<and> (\<forall>X. unstuck X s \<longrightarrow> unstuck X s')"

lemma frame_refl [simp]: "frame s s"
  by (simp add: frame_def)

lemma frame_trans: "frame s s' \<Longrightarrow> frame s' s'' \<Longrightarrow> frame s s''"
  by (simp add: frame_def)

lemma steady_refl: "forward_wf s \<Longrightarrow> sink_link s \<Longrightarrow> steady s s"
  by (simp add: steady_def)

lemma steady_trans: "steady s s' \<Longrightarrow> steady s' s'' \<Longrightarrow> steady s s''"
  unfolding steady_def using frame_trans by blast

lemma steadyD:
  assumes "steady s s'"
  shows "forward_wf s'" "sink_link s'" "frame s s'"
  using assms by (simp_all add: steady_def)

lemma frame_shape:
  assumes "frame s s'" and "i < length (fs_devices s)"
  shows "shape (fs_devices s' ! i) = shape (fs_devices s ! i)"
proof -
  have len: "length (fs_devices s') = length (fs_devices s)"
    using assms(1) by (auto simp: frame_def dest: map_eq_imp_length_eq)
  have "map shape (fs_devices s') ! i = map shape (fs_devices s) ! i" using assms(1) by (simp add: frame_def)
  then show ?thesis using assms(2) len by simp
qed

lemma wf_length: "forward_wf s \<Longrightarrow> length (fs_devices s) = 128"
  by (simp add: forward_wf_def)

lemma wf_device_ok: "forward_wf s \<Longrightarrow> i < 128 \<Longrightarrow> device_ok i (fs_devices s ! i)"
  by (simp add: forward_wf_def)

lemma wf_limit: "forward_wf s \<Longrightarrow> fs_slot_limit s \<le> 128"
  by (simp add: forward_wf_def)

lemma wf_open: "forward_wf s \<Longrightarrow> i < 128 \<Longrightarrow> fd_open (fs_devices s ! i) \<Longrightarrow> i < fs_slot_limit s"
  by (simp add: forward_wf_def)

lemma wf_sink: "forward_wf s \<Longrightarrow> bitmap (sk_down (fs_sink s))" "forward_wf s \<Longrightarrow> bitmap (sk_synth (fs_sink s))"
  by (simp_all add: forward_wf_def)

lemma wf_keys: "forward_wf s \<Longrightarrow> i < 128 \<Longrightarrow> keys_ok (fd_views (fs_devices s ! i) v)"
  using wf_device_ok [of s i] by (simp add: device_ok_def)

lemma get_device_in: "forward_wf s \<Longrightarrow> i < 128 \<Longrightarrow> get_device i s = Some (fs_devices s ! i)"
  by (simp add: get_device_def arr_get_def wf_length)

lemma put_device_in: "forward_wf s \<Longrightarrow> i < 128 \<Longrightarrow> put_device i d s = Some (s\<lparr>fs_devices := (fs_devices s)[i := d]\<rparr>)"
  by (simp add: put_device_def arr_set_def wf_length)

lemma put_device_in': "length (fs_devices s) = 128 \<Longrightarrow> i < 128 \<Longrightarrow> put_device i d s = Some (s\<lparr>fs_devices := (fs_devices s)[i := d]\<rparr>)"
  by (simp add: put_device_def arr_set_def)

lemma get_device_in': "length (fs_devices s) = 128 \<Longrightarrow> i < 128 \<Longrightarrow> get_device i s = Some (fs_devices s ! i)"
  by (simp add: get_device_def arr_get_def)

lemma wf_update:
  assumes "forward_wf s" and "i < 128" and "device_ok i d" and "fd_open d \<Longrightarrow> i < fs_slot_limit s"
  shows "forward_wf (s\<lparr>fs_devices := (fs_devices s)[i := d]\<rparr>)"
  using assms by (auto simp: forward_wf_def nth_list_update)

lemma limit_wanted:
  assumes "forward_wf s"
  shows "wanted s = held (sk_synth (fs_sink s)) \<union> (\<Union>i < 128. wants (fs_devices s ! i))"
proof -
  have "i < fs_slot_limit s" if "i < 128" "c \<in> wants (fs_devices s ! i)" for i c
    using that wf_open [OF assms] by (auto simp: wants_def live_def)
  then show ?thesis using wf_limit [OF assms] by (auto simp: wanted_def)
qed

section \<open>The sink\<close>

lemma note_written_keys_spec:
  assumes "bitmap keys"
  shows "returns (note_written_keys keys events result) (\<lambda>k. bitmap k \<and> (result = 0 \<longrightarrow> held k = fold desktop_event events (held keys)))"
  using assms
proof (induction events arbitrary: keys)
  case (Cons e events)
  let ?c = "ie_type e = EV_KEY \<and> unat (ie_code e) \<le> KEY_MAX \<and> ie_value e \<noteq> 2 \<and> (result = 0 \<or> ie_value e \<noteq> 0)"
  show ?case
  proof (cases ?c)
    case True
    then obtain k where k: "ksi_set_key_bit keys (ie_code e) (ie_value e \<noteq> 0) = Some k" "bitmap k"
      "held k = (if ie_value e \<noteq> 0 then insert (unat (ie_code e)) (held keys) else held keys - {unat (ie_code e)})"
      using set_key_bit_eq [OF Cons.prems] by blast
    with True Cons.IH [OF k(2)] show ?thesis by (auto simp: desktop_event_def)
  next
    case False
    with Cons.IH [OF Cons.prems] show ?thesis by (auto simp: desktop_event_def elim: returns_mono)
  qed
qed simp

lemma desktop_keys_append: "desktop_keys (log @ [e]) = desktop_entry e (desktop_keys log)"
  by (simp add: desktop_keys_def)

text \<open>What a write to the sink leaves alone.\<close>

definition sink_frame :: "forward_state \<Rightarrow> forward_state \<Rightarrow> bool" where
  "sink_frame s s' \<longleftrightarrow> fs_devices s' = fs_devices s \<and> fs_slot_limit s' = fs_slot_limit s \<and> fs_next_serial s' = fs_next_serial s
     \<and> sk_synth (fs_sink s') = sk_synth (fs_sink s) \<and> forward_wf s' \<and> sink_link s'"

lemma sink_frame_wanted: "sink_frame s s' \<Longrightarrow> wanted s' = wanted s"
  by (simp add: sink_frame_def wanted_def)

lemma sink_frame_frame: "sink_frame s s' \<Longrightarrow> frame s s'"
  by (simp add: sink_frame_def frame_def)

lemma write_sink_locked_spec:
  assumes wf: "forward_wf s" and link: "sink_link s"
  shows "returns (write_sink_locked events s) (\<lambda>(r, s'). sink_frame s s' \<and> (r = 0 \<longleftrightarrow> ready s')
     \<and> (ready s' \<longrightarrow> ready s \<and> held (sk_down (fs_sink s')) = fold desktop_event events (held (sk_down (fs_sink s)))))"
proof -
  let ?ok = "fs_answers s (length (fs_log s))"
  have "\<exists>k. note_written_keys (sk_down (fs_sink s)) events r = Some k \<and> bitmap k
      \<and> (r = 0 \<longrightarrow> held k = fold desktop_event events (held (sk_down (fs_sink s))))" for r
    using note_written_keys_spec [OF wf_sink(1) [OF wf]] by (simp add: returns_ex)
  then obtain k where k: "\<And>r. note_written_keys (sk_down (fs_sink s)) events r = Some (k r)" "\<And>r. bitmap (k r)"
    "held (k 0) = fold desktop_event events (held (sk_down (fs_sink s)))" by metis
  show ?thesis
  proof (cases "ready s")
    case True
    then have "sk_fd (fs_sink s) \<ge> 0" "\<not> sk_failed (fs_sink s)" by (simp_all add: ready_def)
    then show ?thesis using wf link k
      by (auto simp: write_sink_locked_def output_write_def Let_def sink_frame_def forward_wf_def sink_link_def ready_def desktop_keys_append)
  next
    case False
    then have "\<not> (sk_fd (fs_sink s) \<ge> 0 \<and> \<not> sk_failed (fs_sink s))" by (simp add: ready_def)
    then show ?thesis using wf link k
      by (auto simp: write_sink_locked_def Let_def sink_frame_def forward_wf_def sink_link_def ready_def)
  qed
qed

lemma code_of_nat: "c \<le> KEY_MAX \<Longrightarrow> unat (of_nat c :: u16) = c"
  by (simp add: unat_of_nat)

lemma sink_wants_spec:
  assumes wf: "forward_wf s" and "unat code \<le> KEY_MAX"
  shows "sink_wants_locked code s = Some (unat code \<in> wanted s)"
proof -
  let ?w = "\<lambda>i. unat code \<in> wants (fs_devices s ! i)"
  let ?body = "\<lambda>i found. if found then Some True else do {
         d \<leftarrow> get_device i s;
         if live d \<and> on_sink d code then ksi_key_bit (fk_output (fd_views d KSI_FORWARD_APPLIED)) code else Some False }"
  have "returns (mem_for ?body [0..<fs_slot_limit s] False) (\<lambda>r. r \<longleftrightarrow> (\<exists>i < fs_slot_limit s. ?w i))"
  proof (rule returns_mem_for_upt)
    fix i found assume "i < fs_slot_limit s" "found \<longleftrightarrow> (\<exists>j < i. ?w j)"
    moreover from this(1) have i: "i < 128" using wf_limit [OF wf] by simp
    moreover have "bitmap (fk_output (fd_views (fs_devices s ! i) KSI_FORWARD_APPLIED))" using wf_keys [OF wf i] by (simp add: keys_ok_def)
    ultimately show "returns (?body i found) (\<lambda>r. r \<longleftrightarrow> (\<exists>j < Suc i. ?w j))"
      using key_bit_eq [OF _ assms(2)] by (auto simp: get_device_in [OF wf] wants_def on_sink_def less_Suc_eq)
  qed simp
  then show ?thesis
    using key_bit_eq [OF wf_sink(2) [OF wf] assms(2)] by (auto simp: sink_wants_locked_def wanted_def returns_ex)
qed

lemma fold_key_report:
  "unat code \<le> KEY_MAX \<Longrightarrow> v \<noteq> 2 \<Longrightarrow>
   fold desktop_event (key_report code v) keys = (if v \<noteq> 0 then insert (unat code) keys else keys - {unat code})"
  by (simp add: key_report_def desktop_event_def)

lemma reconcile_spec:
  assumes wf: "forward_wf s" and link: "sink_link s" and code: "unat code \<le> KEY_MAX"
  shows "returns (reconcile_locked code s) (\<lambda>(r, s'). sink_frame s s'
     \<and> (ready s' \<longrightarrow> ready s \<and> held (sk_down (fs_sink s'))
         = (if unat code \<in> wanted s then insert (unat code) (held (sk_down (fs_sink s))) else held (sk_down (fs_sink s)) - {unat code})))"
proof -
  let ?want = "unat code \<in> wanted s" and ?down = "unat code \<in> held (sk_down (fs_sink s))"
  note eqs = sink_wants_spec [OF wf code] key_bit_eq [OF wf_sink(1) [OF wf] code]
  show ?thesis
  proof (cases "?want = ?down")
    case True
    then show ?thesis using wf link by (auto simp: reconcile_locked_def eqs sink_frame_def)
  next
    case False
    show ?thesis
      using False write_sink_locked_spec [OF wf link, of "key_report code (if ?want then 1 else 0)"]
      by (auto simp: reconcile_locked_def eqs write_sink_key_locked_def fold_key_report [OF code] elim!: returns_mono)
  qed
qed

lemma tap_spec:
  assumes wf: "forward_wf s" and link: "sink_link s" and code: "unat code \<le> KEY_MAX"
  shows "returns (tap_locked code s) (\<lambda>(r, s'). sink_frame s s'
     \<and> (ready s' \<longrightarrow> ready s \<and> held (sk_down (fs_sink s')) = held (sk_down (fs_sink s))))"
proof -
  let ?down = "unat code \<in> held (sk_down (fs_sink s))"
  note eq = key_bit_eq [OF wf_sink(1) [OF wf] code]
  show ?thesis
    using write_sink_locked_spec [OF wf link, of "key_report code (if ?down then 0 else 1) @ key_report code (if ?down then 1 else 0)"]
    by (auto simp: tap_locked_def eq fold_key_report [OF code] elim!: returns_mono)
qed

section \<open>Devices\<close>

definition keys_at :: "nat \<Rightarrow> ksi_forward_view \<Rightarrow> forward_state \<Rightarrow> forward_keys" where
  "keys_at i v s = fd_views (fs_devices s ! i) v"

text \<open>A steady step whose effect on the key state is confined to one view of one device.\<close>

definition changes :: "nat \<Rightarrow> ksi_forward_view \<Rightarrow> forward_keys \<Rightarrow> forward_state \<Rightarrow> forward_state \<Rightarrow> bool" where
  "changes i v k s s' \<longleftrightarrow> steady s s' \<and> views_of v s' = (views_of v s)[i := k]
     \<and> (\<forall>w. w \<noteq> v \<longrightarrow> views_of w s' = views_of w s)"

lemma map_update_same: "f d = f (xs ! i) \<Longrightarrow> map f (xs[i := d]) = map f xs"
  by (metis list_update_id map_update)

lemma wanted_update:
  assumes "wants d = wants (fs_devices s ! i)" and "fs_devices s' = (fs_devices s)[i := d]" and "fs_sink s' = fs_sink s"
    and "fs_slot_limit s' = fs_slot_limit s"
  shows "wanted s' = wanted s"
proof -
  have "map wants (fs_devices s') = map wants (fs_devices s)" using assms(1,2) by (simp add: map_update_same)
  then have "wants (fs_devices s' ! j) = wants (fs_devices s ! j)" for j
    using assms(1,2) by (metis length_list_update nth_list_update_eq nth_list_update_neq list_update_beyond not_less)
  then show ?thesis using assms by (simp add: wanted_def)
qed

lemma steady_device:
  assumes wf: "forward_wf s" and link: "sink_link s" and i: "i < 128"
    and s': "fs_devices s' = (fs_devices s)[i := d]" "fs_sink s' = fs_sink s" "fs_slot_limit s' = fs_slot_limit s"
      "fs_next_serial s' = fs_next_serial s" "fs_sink_ready_flag s' = fs_sink_ready_flag s"
      "desktop_keys (fs_log s') = desktop_keys (fs_log s)"
    and d: "device_ok i d" "shape d = shape (fs_devices s ! i)" "wants d = wants (fs_devices s ! i)"
  shows "steady s s'"
proof -
  have "fd_open d \<Longrightarrow> i < fs_slot_limit s" using d(2) wf_open [OF wf i] by (simp add: shape_def)
  then have "forward_wf (s\<lparr>fs_devices := (fs_devices s)[i := d]\<rparr>)" using wf_update [OF wf i d(1)] by simp
  then have "forward_wf s'" using s' by (simp add: forward_wf_def)
  moreover have "sink_link s'" using link s' by (simp add: sink_link_def ready_def)
  moreover have "frame s s'" using s' d(2) by (simp add: frame_def map_update_same)
  moreover have "wanted s' = wanted s" by (rule wanted_update [OF d(3) s'(1) s'(2) s'(3)])
  then have "unstuck X s'" if "unstuck X s" for X using that s'(2) by (simp add: unstuck_def ready_def)
  ultimately show ?thesis by (simp add: steady_def)
qed

lemma device_ok_keys: "device_ok i d \<Longrightarrow> keys_ok k \<Longrightarrow> device_ok i (set_keys v k d)"
  by (simp add: device_ok_def set_keys_def)

lemma shape_simps [simp]:
  "shape (set_keys v k d) = shape d" "shape (d\<lparr>fd_failed := f\<rparr>) = shape d"
  "shape (d\<lparr>fd_sink_report_open := a\<rparr>) = shape d" "shape (d\<lparr>fd_clone_report_open := a\<rparr>) = shape d"
  "shape (d\<lparr>fd_wheel_remainder := r\<rparr>) = shape d" "shape (d\<lparr>fd_horizontal_remainder := r\<rparr>) = shape d"
  by (simp_all add: shape_def set_keys_def)

lemma wants_simps [simp]:
  "wants (d\<lparr>fd_failed := f\<rparr>) = wants d"
  "wants (d\<lparr>fd_sink_report_open := a\<rparr>) = wants d" "wants (d\<lparr>fd_clone_report_open := a\<rparr>) = wants d"
  "wants (d\<lparr>fd_wheel_remainder := r\<rparr>) = wants d" "wants (d\<lparr>fd_horizontal_remainder := r\<rparr>) = wants d"
  by (simp_all add: wants_def live_def)

lemma wants_set_keys:
  "fk_output k = fk_output (fd_views d v) \<Longrightarrow> wants (set_keys v k d) = wants d"
  "wants (set_keys KSI_FORWARD_ENQUEUED k d) = wants d"
  by (auto simp: wants_def live_def set_keys_def)

lemma views_of_update: "fs_devices s' = (fs_devices s)[i := d] \<Longrightarrow> views_of v s' = (views_of v s)[i := fd_views d v]"
  by (simp add: views_of_def map_update)

lemma views_of_same: "fs_devices s' = (fs_devices s)[i := d] \<Longrightarrow> fd_views d v = fd_views (fs_devices s ! i) v \<Longrightarrow> views_of v s' = views_of v s"
  by (simp add: views_of_def map_update_same)

lemma write_locked_spec:
  assumes wf: "forward_wf s" and link: "sink_link s" and i: "i < 128" and out: "fd_output (fs_devices s ! i) \<noteq> None"
  shows "returns (write_locked i events s) (\<lambda>(r, s'). steady s s' \<and> fs_sink s' = fs_sink s \<and> (\<forall>v. views_of v s' = views_of v s))"
proof -
  let ?d = "fs_devices s ! i"
  obtain h where h: "fd_output ?d = Some h" using out by auto
  have len: "length (fs_devices s) = 128" using wf by (simp add: forward_wf_def)
  have ok: "device_ok i (?d\<lparr>fd_failed := True\<rparr>)" using wf_device_ok [OF wf i] by (simp add: device_ok_def)
  define s1 where "s1 = s\<lparr>fs_log := fs_log s @ [To_Clone h events (fs_answers s (length (fs_log s)))]\<rparr>"
  define s2 where "s2 = s1\<lparr>fs_devices := (fs_devices s)[i := ?d\<lparr>fd_failed := True\<rparr>], fs_failure_pending := True\<rparr>"
  have s1: "steady s s1" by (rule steady_device [OF wf link i, where d = ?d])
    (use wf_device_ok [OF wf i] in \<open>simp_all add: s1_def desktop_keys_append\<close>)
  have s2: "steady s s2" by (rule steady_device [OF wf link i _ _ _ _ _ _ ok]) (simp_all add: s1_def s2_def desktop_keys_append)
  have v: "views_of v s1 = views_of v s" "views_of v s2 = views_of v s" for v
    by (simp_all add: s1_def s2_def views_of_def map_update_same)
  show ?thesis
    using s1 s2 v steady_refl [OF wf link] len i
    by (auto simp: write_locked_def get_device_in [OF wf i] h output_write_def Let_def put_device_in' s1_def s2_def)
qed

lemma changes_steady: "changes i v k s s' \<Longrightarrow> steady s s'"
  by (simp add: changes_def)

lemma changes_trans: "changes i v k s s' \<Longrightarrow> changes i v k' s' s'' \<Longrightarrow> changes i v k' s s''"
  unfolding changes_def using steady_trans by fastforce

lemma changes_then_same:
  "changes i v k s s' \<Longrightarrow> steady s' s'' \<Longrightarrow> (\<And>w. views_of w s'' = views_of w s') \<Longrightarrow> changes i v k s s''"
  unfolding changes_def using steady_trans by fastforce

lemma views_of_nth: "forward_wf s \<Longrightarrow> i < 128 \<Longrightarrow> views_of v s ! i = keys_at i v s"
  by (simp add: views_of_def keys_at_def wf_length)

lemma length_views_of: "forward_wf s \<Longrightarrow> length (views_of v s) = 128"
  by (simp add: views_of_def wf_length)

lemma changes_refl: "forward_wf s \<Longrightarrow> sink_link s \<Longrightarrow> i < 128 \<Longrightarrow> changes i v (keys_at i v s) s s"
  by (simp add: changes_def steady_refl views_of_nth [symmetric])

lemma changes_keys_at:
  assumes "changes i v k s s'" and "forward_wf s" and "i < 128"
  shows "keys_at i v s' = k"
proof -
  have "forward_wf s'" using assms(1) steadyD(1) by (auto simp: changes_def)
  then have "keys_at i v s' = views_of v s' ! i" using assms(3) by (simp add: views_of_nth)
  also have "\<dots> = k" using assms by (simp add: changes_def length_views_of)
  finally show ?thesis .
qed

lemma views_put_keys:
  "views_of w (s\<lparr>fs_devices := (fs_devices s)[i := set_keys v k (fs_devices s ! i)]\<rparr>)
     = (if w = v then (views_of v s)[i := k] else views_of w s)"
proof (cases "w = v")
  case True
  then show ?thesis by (simp add: views_of_def map_update set_keys_def)
next
  case False
  then have "fd_views (set_keys v k (fs_devices s ! i)) w = fd_views (fs_devices s ! i) w" by (simp add: set_keys_def)
  then show ?thesis using False by (simp add: views_of_def map_update_same)
qed

lemma put_keys_changes:
  assumes wf: "forward_wf s" and link: "sink_link s" and i: "i < 128" and k: "keys_ok k"
    and "wants (set_keys v k (fs_devices s ! i)) = wants (fs_devices s ! i)"
  shows "changes i v k s (s\<lparr>fs_devices := (fs_devices s)[i := set_keys v k (fs_devices s ! i)]\<rparr>)"
proof -
  have "steady s (s\<lparr>fs_devices := (fs_devices s)[i := set_keys v k (fs_devices s ! i)]\<rparr>)"
    by (rule steady_device [OF wf link i, where d = "set_keys v k (fs_devices s ! i)"])
      (use assms wf_device_ok [OF wf i] in \<open>simp_all add: device_ok_keys\<close>)
  then show ?thesis by (simp add: changes_def views_put_keys)
qed

lemma unstuck_reconcile:
  assumes "unstuck X s" and "ready s1 = ready s" and "sk_down (fs_sink s1) = sk_down (fs_sink s)" and "wanted s1 - {c} = wanted s - {c}" and "sink_frame s1 s2"
    and "ready s2 \<longrightarrow> ready s1 \<and> held (sk_down (fs_sink s2))
       = (if c \<in> wanted s1 then insert c (held (sk_down (fs_sink s1))) else held (sk_down (fs_sink s1)) - {c})"
  shows "unstuck X s2" and "unstuck (X - {c}) s2"
proof -
  from assms sink_frame_wanted [OF assms(5)] show "unstuck (X - {c}) s2" by (auto simp: unstuck_def split: if_splits)
  then show "unstuck X s2" by (auto simp: unstuck_def)
qed

lemma set_output_spec:
  assumes wf: "forward_wf s" and link: "sink_link s" and i: "i < 128" and code: "unat code \<le> KEY_MAX"
  shows "returns (set_output_locked i v code h s) (\<lambda>s'. \<exists>o'. changes i v ((keys_at i v s)\<lparr>fk_output := o'\<rparr>) s s'
    \<and> bitmap o'
    \<and> held o' = (if h then insert (unat code) (held (fk_output (keys_at i v s))) else held (fk_output (keys_at i v s)) - {unat code}))"
proof -
  let ?d = "fs_devices s ! i" and ?k = "keys_at i v s"
  have ko: "keys_ok ?k" using wf_keys [OF wf i] by (simp add: keys_at_def)
  then obtain o' where o': "ksi_set_key_bit (fk_output ?k) code h = Some o'" "bitmap o'"
    "held o' = (if h then insert (unat code) (held (fk_output ?k)) else held (fk_output ?k) - {unat code})"
    using set_key_bit_eq [OF _ code, of "fk_output ?k" h] by (auto simp: keys_ok_def)
  define k where "k = ?k\<lparr>fk_output := o'\<rparr>"
  define s1 where "s1 = s\<lparr>fs_devices := (fs_devices s)[i := set_keys v k ?d]\<rparr>"
  have kk: "keys_ok k" using ko o'(2) by (simp add: k_def keys_ok_def)
  have len: "length (fs_devices s) = 128" using wf by (simp add: forward_wf_def)
  have step: "set_output_locked i v code h s = (if v \<noteq> KSI_FORWARD_APPLIED then Some s1
     else if on_sink ?d code then do { (_, s) \<leftarrow> reconcile_locked code s1; Some s }
     else if fd_output ?d \<noteq> None then do { (_, s) \<leftarrow> write_key_locked i code (if h then 1 else 0) s1; Some s }
     else Some s1)"
    using o'(1) by (simp add: set_output_locked_def get_device_in [OF wf i] put_device_in [OF wf i] keys_at_def [symmetric] s1_def k_def)
  have wf1: "forward_wf s1" unfolding s1_def
    by (rule wf_update [OF wf i]) (use kk wf_device_ok [OF wf i] wf_open [OF wf i] in \<open>auto intro: device_ok_keys simp: set_keys_def device_ok_def\<close>)
  have link1: "sink_link s1" using link by (simp add: s1_def sink_link_def ready_def)
  have views1: "views_of v s1 = (views_of v s)[i := k]" "\<And>w. w \<noteq> v \<Longrightarrow> views_of w s1 = views_of w s"
    by (simp_all add: s1_def views_put_keys)
  have frame1: "frame s s1" by (simp add: frame_def s1_def map_update_same)
  have goal: "\<exists>o'. changes i v (?k\<lparr>fk_output := o'\<rparr>) s s' \<and> bitmap o'
    \<and> held o' = (if h then insert (unat code) (held (fk_output ?k)) else held (fk_output ?k) - {unat code})" if "changes i v k s s'" for s'
    using that o' by (auto simp: k_def)
  have "returns (set_output_locked i v code h s) (changes i v k s)"
  proof (cases "v = KSI_FORWARD_APPLIED \<and> on_sink ?d code")
    case True
    have "held o' - {unat code} = held (fk_output ?k) - {unat code}" using o'(3) by auto
    then have "wants (set_keys v k ?d) - {unat code} = wants ?d - {unat code}"
      using True by (auto simp: wants_def k_def keys_at_def set_keys_def live_def)
    moreover have "wants (fs_devices s1 ! j) = (if j = i then wants (set_keys v k ?d) else wants (fs_devices s ! j))" for j
      using len i by (simp add: s1_def nth_list_update)
    ultimately have "x \<in> wants (fs_devices s1 ! j) \<longleftrightarrow> x \<in> wants (fs_devices s ! j)" if "x \<noteq> unat code" for x j
      using that by (cases "j = i") (simp_all, blast)
    moreover have "sk_synth (fs_sink s1) = sk_synth (fs_sink s)" "fs_slot_limit s1 = fs_slot_limit s" by (simp_all add: s1_def)
    ultimately have "wanted s1 - {unat code} = wanted s - {unat code}"
      by (auto simp: wanted_def)
    then have "changes i v k s s2" if "sink_frame s1 s2" "ready s2 \<longrightarrow> ready s1 \<and> held (sk_down (fs_sink s2))
       = (if unat code \<in> wanted s1 then insert (unat code) (held (sk_down (fs_sink s1))) else held (sk_down (fs_sink s1)) - {unat code})" for s2
      using that frame_trans [OF frame1 sink_frame_frame [OF that(1)]] unstuck_reconcile(1) [OF _ _ _ _ that, of _ s] views1
      by (auto simp: changes_def steady_def sink_frame_def views_of_def s1_def ready_def)
    then show ?thesis unfolding step using True by (simp, intro returns_mono [OF reconcile_spec [OF wf1 link1 code]]) auto
  next
    case False
    then have "wants (set_keys v k ?d) = wants ?d"
      using o'(3) by (cases v) (auto simp: wants_def k_def keys_at_def set_keys_def live_def on_sink_def)
    then have ch: "changes i v k s s1" unfolding s1_def by (rule put_keys_changes [OF wf link i kk])
    have out: "fd_output (fs_devices s1 ! i) = fd_output ?d" using len i by (simp add: s1_def set_keys_def)
    have "changes i v k s s2" if "steady s1 s2" "\<forall>v. views_of v s2 = views_of v s1" for s2
      using changes_then_same [OF ch that(1)] that(2) by simp
    then have "returns (do { (_, s) \<leftarrow> write_key_locked i code (if h then 1 else 0) s1; Some s }) (changes i v k s)" if "fd_output ?d \<noteq> None"
      using that unfolding write_key_locked_def returns_bind_eq
      by (intro returns_mono [OF write_locked_spec [OF wf1 link1 i]]) (auto simp: out)
    then show ?thesis unfolding step using False ch by (cases "v = KSI_FORWARD_APPLIED"; cases "fd_output ?d = None") auto
  qed
  then show ?thesis by (rule returns_mono) (rule goal)
qed

subsection \<open>Releasing what a source holds\<close>

definition kept_keys :: "bytes ptr \<Rightarrow> nat set" where
  "kept_keys keep = (case keep of None \<Rightarrow> {} | Some k \<Rightarrow> held k)"

definition keep_ok :: "bytes ptr \<Rightarrow> bool" where
  "keep_ok keep \<longleftrightarrow> (case keep of None \<Rightarrow> True | Some k \<Rightarrow> bitmap k)"

definition byte_keys :: "nat \<Rightarrow> nat set" where
  "byte_keys n = {c. c div 8 = n}"

lemma keep_byte:
  assumes "keep_ok keep" and "n < KSI_KEY_BITMAP_BYTES"
  obtains b where "(case keep of None \<Rightarrow> Some 0 | Some k \<Rightarrow> rd8 k n) = Some b"
    "\<And>c. c \<in> byte_keys n \<Longrightarrow> c \<le> KEY_MAX \<Longrightarrow> bit b (c mod 8) \<longleftrightarrow> c \<in> kept_keys keep"
proof (cases keep)
  case None
  then show ?thesis using that [of 0] by (simp add: kept_keys_def)
next
  case (Some k)
  then show ?thesis using that [of "k ! n"] assms by (simp add: kept_keys_def keep_ok_def bitmap_def rd8_def held_def byte_keys_def)
qed

lemma held_and_byte:
  assumes "bitmap ks" and "n < KSI_KEY_BITMAP_BYTES"
    and "\<And>c. c \<in> byte_keys n \<Longrightarrow> c \<le> KEY_MAX \<Longrightarrow> bit b (c mod 8) \<longleftrightarrow> c \<in> K"
  shows "held (ks[n := ks ! n AND b]) = held ks - (byte_keys n - K)"
proof -
  have "c \<in> held (ks[n := ks ! n AND b]) \<longleftrightarrow> c \<in> held ks \<and> \<not> (c \<in> byte_keys n \<and> c \<notin> K)" for c
    using assms by (cases "c div 8 = n") (auto simp: held_def bitmap_def byte_keys_def bit_and_iff)
  then show ?thesis by blast
qed

lemma release_bits_spec:
  assumes wf: "forward_wf s" and link: "sink_link s" and i: "i < 128" and n: "n < KSI_KEY_BITMAP_BYTES"
    and b: "\<And>c. c \<in> byte_keys n \<Longrightarrow> c \<le> KEY_MAX \<Longrightarrow> bit b (c mod 8) \<longleftrightarrow> c \<in> K"
  shows "returns (bits_for (\<lambda>k s. set_output_locked i v (of_nat (n * 8 + k)) False s)
       (ucast (fk_output (keys_at i v s) ! n AND NOT b)) s)
    (\<lambda>t. \<exists>o'. changes i v ((keys_at i v s)\<lparr>fk_output := o'\<rparr>) s t \<and> bitmap o'
      \<and> held o' = held (fk_output (keys_at i v s)) - (byte_keys n - K))"
proof -
  let ?k = "keys_at i v s"
  let ?w = "ucast (fk_output ?k ! n AND NOT b) :: u32"
  have ko: "bitmap (fk_output ?k)" using wf_keys [OF wf i] by (simp add: keys_at_def keys_ok_def)
  have w: "bit ?w x \<longleftrightarrow> x < 8 \<and> bit (fk_output ?k ! n) x \<and> \<not> bit b x" for x by (auto simp: bit_simps dest: bit_word_imp_less)
  let ?xs = "filter (bit ?w) [0..<32]"
  have "returns (mem_for (\<lambda>k s. set_output_locked i v (of_nat (n * 8 + k)) False s) ?xs s)
    (\<lambda>t. \<exists>o'. changes i v (?k\<lparr>fk_output := o'\<rparr>) s t \<and> bitmap o' \<and> held o' = held (fk_output ?k) - (\<lambda>x. n * 8 + x) ` set ?xs)"
  proof (rule returns_mem_for [where P = "\<lambda>ys t. \<exists>o'. changes i v (?k\<lparr>fk_output := o'\<rparr>) s t \<and> bitmap o'
      \<and> held o' = held (fk_output ?k) - (\<lambda>x. n * 8 + x) ` set ys"], goal_cases)
    case 1
    then show ?case using changes_refl [OF wf link i, of v] ko by (intro exI [of _ "fk_output ?k"]) simp
  next
    case (2 ys x zs t)
    then obtain o' where o': "changes i v (?k\<lparr>fk_output := o'\<rparr>) s t" "bitmap o'"
      "held o' = held (fk_output ?k) - (\<lambda>x. n * 8 + x) ` set ys" by blast
    have "x \<in> set ?xs" using 2(1) by simp
    then have x: "x < 8" using w by simp
    then have code: "unat (of_nat (n * 8 + x) :: u16) = n * 8 + x" using n by (intro code_of_nat) simp
    have t: "forward_wf t" "sink_link t" using changes_steady [OF o'(1)] steadyD by blast+
    have at: "keys_at i v t = ?k\<lparr>fk_output := o'\<rparr>" by (rule changes_keys_at [OF o'(1) wf i])
    have "\<exists>o''. changes i v (?k\<lparr>fk_output := o''\<rparr>) s u \<and> bitmap o'' \<and> held o'' = held (fk_output ?k) - (\<lambda>x. n * 8 + x) ` set (ys @ [x])"
      if u: "changes i v ((keys_at i v t)\<lparr>fk_output := o2\<rparr>) t u" "bitmap o2" "held o2 = held (fk_output (keys_at i v t)) - {n * 8 + x}" for u o2
      using changes_trans [OF o'(1)] u(1) u(2,3) o'(3) by (intro exI [of _ o2]) (auto simp: at)
    moreover have "unat (of_nat (n * 8 + x) :: u16) \<le> KEY_MAX" using n x unfolding code by simp
    note set_output_spec [OF t i this, of v False, unfolded code if_False]
    ultimately show ?case by (elim returns_mono exE conjE)
  qed
  moreover have "held (fk_output ?k) - (\<lambda>x. n * 8 + x) ` set ?xs = held (fk_output ?k) - (byte_keys n - K)"
  proof -
    have "c \<in> (\<lambda>x. n * 8 + x) ` set ?xs \<longleftrightarrow> c \<in> byte_keys n - K" if c: "c \<in> held (fk_output ?k)" for c
    proof -
      have "c \<in> (\<lambda>x. n * 8 + x) ` set ?xs \<longleftrightarrow> c div 8 = n \<and> bit ?w (c mod 8)"
      proof
        assume "c div 8 = n \<and> bit ?w (c mod 8)"
        moreover have "c mod 8 < 32" using less_trans [of "c mod 8" 8 32] by simp
        ultimately have "c mod 8 \<in> set ?xs" "c = n * 8 + c mod 8" using div_mult_mod_eq [of c 8] by auto
        then show "c \<in> (\<lambda>x. n * 8 + x) ` set ?xs" by (rule rev_image_eqI)
      next
        assume "c \<in> (\<lambda>x. n * 8 + x) ` set ?xs"
        then obtain x where "c = n * 8 + x" "bit ?w x" by auto
        moreover from this(2) have "x < 8" using w by blast
        ultimately show "c div 8 = n \<and> bit ?w (c mod 8)" by simp
      qed
      with that b [of c] show ?thesis by (auto simp: w held_def byte_keys_def)
    qed
    then show ?thesis by blast
  qed
  ultimately show ?thesis by (simp add: bits_for_eq)
qed

lemma release_byte_spec:
  assumes wf: "forward_wf s" and link: "sink_link s" and i: "i < 128" and n: "n < KSI_KEY_BITMAP_BYTES" and keep: "keep_ok keep"
  shows "returns (release_byte i v keep n s) (\<lambda>t. \<exists>k'. changes i v k' s t \<and> fk_source k' = fk_source (keys_at i v s)
     \<and> held (fk_output k') = held (fk_output (keys_at i v s)) - (byte_keys n - kept_keys keep)
     \<and> held (fk_displaced k') = held (fk_displaced (keys_at i v s)) - (byte_keys n - kept_keys keep))"
proof -
  let ?k = "keys_at i v s" and ?K = "kept_keys keep"
  obtain b where b: "(case keep of None \<Rightarrow> Some 0 | Some k \<Rightarrow> rd8 k n) = Some b"
    "\<And>c. c \<in> byte_keys n \<Longrightarrow> c \<le> KEY_MAX \<Longrightarrow> bit b (c mod 8) \<longleftrightarrow> c \<in> ?K" using keep_byte [OF keep n] by blast
  have ko: "keys_ok ?k" using wf_keys [OF wf i] by (simp add: keys_at_def)
  then have len: "length (fk_output ?k) = 96" "length (fk_displaced ?k) = 96" by (simp_all add: keys_ok_def bitmap_def)
  let ?disp = "(fk_displaced ?k)[n := fk_displaced ?k ! n AND b]"
  have disp: "bitmap ?disp" "held ?disp = held (fk_displaced ?k) - (byte_keys n - ?K)"
    using ko held_and_byte [OF _ n b(2)] by (simp_all add: keys_ok_def bitmap_def)
  have rest: "returns (do { d \<leftarrow> get_device i t; b' \<leftarrow> rd8 (fk_displaced (fd_views d v)) n;
       displaced \<leftarrow> wr8 (fk_displaced (fd_views d v)) n (b' AND b);
       put_device i (set_keys v ((fd_views d v)\<lparr>fk_displaced := displaced\<rparr>) d) t })
     (\<lambda>u. changes i v (?k\<lparr>fk_output := o', fk_displaced := ?disp\<rparr>) s u)"
    if t: "changes i v (?k\<lparr>fk_output := o'\<rparr>) s t" and "bitmap o'" for t o'
  proof -
    have wft: "forward_wf t" "sink_link t" using changes_steady [OF t] steadyD by blast+
    have at: "fd_views (fs_devices t ! i) v = ?k\<lparr>fk_output := o'\<rparr>" using changes_keys_at [OF t wf i] by (simp add: keys_at_def)
    have "changes i v (?k\<lparr>fk_output := o', fk_displaced := ?disp\<rparr>) t
        (t\<lparr>fs_devices := (fs_devices t)[i := set_keys v (?k\<lparr>fk_output := o', fk_displaced := ?disp\<rparr>) (fs_devices t ! i)]\<rparr>)"
      by (rule put_keys_changes [OF wft i]) (use ko disp(1) that(2) at in \<open>simp_all add: keys_ok_def wants_set_keys\<close>)
    then show ?thesis using n len changes_trans [OF t]
      by (simp add: get_device_in [OF wft(1) i] put_device_in [OF wft(1) i] at rd8_def wr8_def)
  qed
  let ?rest = "\<lambda>t. do { d \<leftarrow> get_device i t; b' \<leftarrow> rd8 (fk_displaced (fd_views d v)) n;
       displaced \<leftarrow> wr8 (fk_displaced (fd_views d v)) n (b' AND b);
       put_device i (set_keys v ((fd_views d v)\<lparr>fk_displaced := displaced\<rparr>) d) t }"
  have eq: "release_byte i v keep n s = do { t \<leftarrow> bits_for (\<lambda>k s. set_output_locked i v (of_nat (n * 8 + k)) False s)
       (ucast (fk_output ?k ! n AND NOT b)) s; ?rest t }"
    unfolding release_byte_def b(1) get_device_in [OF wf i] using n len(1) by (simp add: keys_at_def rd8_in)
  have fin: "\<exists>k'. changes i v k' s u \<and> fk_source k' = fk_source ?k \<and> held (fk_output k') = held (fk_output ?k) - (byte_keys n - ?K)
     \<and> held (fk_displaced k') = held (fk_displaced ?k) - (byte_keys n - ?K)"
    if "changes i v (?k\<lparr>fk_output := o', fk_displaced := ?disp\<rparr>) s u" "held o' = held (fk_output ?k) - (byte_keys n - ?K)" for u o'
    using that disp(2) by (intro exI [of _ "?k\<lparr>fk_output := o', fk_displaced := ?disp\<rparr>"]) simp
  have bits: "returns (bits_for (\<lambda>k s. set_output_locked i v (of_nat (n * 8 + k)) False s) (ucast (fk_output ?k ! n AND NOT b)) s)
    (\<lambda>t. \<exists>o'. changes i v (?k\<lparr>fk_output := o'\<rparr>) s t \<and> bitmap o' \<and> held o' = held (fk_output ?k) - (byte_keys n - ?K))"
    by (rule release_bits_spec [OF wf link i n]) (rule b(2))
  show ?thesis unfolding eq
  proof (rule returns_bind [OF bits], elim exE conjE)
    fix t o' assume "changes i v (?k\<lparr>fk_output := o'\<rparr>) s t" "bitmap o'" "held o' = held (fk_output ?k) - (byte_keys n - ?K)"
    then show "returns (?rest t) (\<lambda>t. \<exists>k'. changes i v k' s t \<and> fk_source k' = fk_source ?k
       \<and> held (fk_output k') = held (fk_output ?k) - (byte_keys n - ?K)
       \<and> held (fk_displaced k') = held (fk_displaced ?k) - (byte_keys n - ?K))"
      by (intro returns_mono [OF rest] fin)
  qed
qed

lemma release_outputs_spec:
  assumes wf: "forward_wf s" and link: "sink_link s" and i: "i < 128" and keep: "keep_ok keep"
  shows "returns (release_outputs_locked i v keep s) (\<lambda>t. \<exists>k'. changes i v k' s t \<and> fk_source k' = fk_source (keys_at i v s)
     \<and> held (fk_output k') = held (fk_output (keys_at i v s)) \<inter> kept_keys keep
     \<and> held (fk_displaced k') = held (fk_displaced (keys_at i v s)) \<inter> kept_keys keep)"
proof -
  let ?k = "keys_at i v s"
  define P where "P n t \<longleftrightarrow> (\<exists>k'. changes i v k' s t \<and> fk_source k' = fk_source ?k
     \<and> held (fk_output k') = held (fk_output ?k) - ({c. c div 8 < n} - kept_keys keep)
     \<and> held (fk_displaced k') = held (fk_displaced ?k) - ({c. c div 8 < n} - kept_keys keep))" for n t
  have "P 0 s" using changes_refl [OF wf link i, of v] by (auto simp: P_def)
  moreover have "returns (release_byte i v keep n t) (P (Suc n))" if n: "n < KSI_KEY_BITMAP_BYTES" and p: "P n t" for n t
  proof -
    obtain k' where k': "changes i v k' s t" "fk_source k' = fk_source ?k"
      "held (fk_output k') = held (fk_output ?k) - ({c. c div 8 < n} - kept_keys keep)"
      "held (fk_displaced k') = held (fk_displaced ?k) - ({c. c div 8 < n} - kept_keys keep)" using p by (auto simp: P_def)
    have t: "forward_wf t" "sink_link t" using changes_steady [OF k'(1)] steadyD by blast+
    have at: "keys_at i v t = k'" by (rule changes_keys_at [OF k'(1) wf i])
    have split: "{c. c div 8 < Suc n} = {c. c div 8 < n} \<union> byte_keys n" by (auto simp: byte_keys_def)
    show ?thesis
    proof (rule returns_mono [OF release_byte_spec [OF t i n keep]], elim exE conjE)
      fix u k2 assume u: "changes i v k2 t u" "fk_source k2 = fk_source (keys_at i v t)"
        "held (fk_output k2) = held (fk_output (keys_at i v t)) - (byte_keys n - kept_keys keep)"
        "held (fk_displaced k2) = held (fk_displaced (keys_at i v t)) - (byte_keys n - kept_keys keep)"
      have "changes i v k2 s u" by (rule changes_trans [OF k'(1) u(1)])
      moreover have "held (fk_output k2) = held (fk_output ?k) - ({c. c div 8 < Suc n} - kept_keys keep)"
        "held (fk_displaced k2) = held (fk_displaced ?k) - ({c. c div 8 < Suc n} - kept_keys keep)"
        using u(3,4) k'(3,4) unfolding at split by blast+
      ultimately show "P (Suc n) u" using u(2) k'(2) unfolding at P_def by (intro exI [of _ k2]) simp
    qed
  qed
  ultimately have "returns (release_outputs_locked i v keep s) (P KSI_KEY_BITMAP_BYTES)"
    unfolding release_outputs_locked_def by (intro returns_mem_for_upt)
  moreover have "held x - ({c. c div 8 < KSI_KEY_BITMAP_BYTES} - kept_keys keep) = held x \<inter> kept_keys keep" for x
    using held_bound by fastforce
  ultimately show ?thesis unfolding P_def by simp
qed

lemma insensitive [simp]:
  "steady s (t\<lparr>fs_target_epoch := e\<rparr>) = steady s t" "steady s (t\<lparr>fs_pace := pc\<rparr>) = steady s t"
  "steady s (t\<lparr>fs_retiring_count := n\<rparr>) = steady s t" "steady s (t\<lparr>fs_failure_pending := f\<rparr>) = steady s t"
  "views_of v (t\<lparr>fs_target_epoch := e\<rparr>) = views_of v t" "views_of v (t\<lparr>fs_pace := pc\<rparr>) = views_of v t"
  by (simp_all add: steady_def forward_wf_def sink_link_def frame_def unstuck_def ready_def wanted_def views_of_def)

lemma changes_epoch [simp]: "changes i v k s (t\<lparr>fs_target_epoch := e\<rparr>) = changes i v k s t"
  by (simp add: changes_def)

lemma sink_steady:
  assumes "sink_frame s t" and "ready t \<longrightarrow> ready s \<and> held (sk_down (fs_sink t)) = held (sk_down (fs_sink s))"
  shows "steady s t" "views_of v t = views_of v s" "fs_devices t = fs_devices s"
  using assms sink_frame_wanted [OF assms(1)] sink_frame_frame [OF assms(1)]
  by (auto simp: steady_def sink_frame_def unstuck_def views_of_def)

lemma end_open_reports_spec:
  assumes wf: "forward_wf s" and link: "sink_link s" and i: "i < 128"
  shows "returns (end_open_reports_locked i s) (\<lambda>t. steady s t \<and> (\<forall>v. views_of v t = views_of v s))"
proof -
  let ?d = "fs_devices s ! i"
  let ?first = "if fd_sink_report_open ?d then do { (_, s) \<leftarrow> write_sink_locked report_end s; Some s } else Some s"
  let ?second = "\<lambda>t. if fd_clone_report_open ?d then do { (_, s) \<leftarrow> write_locked i report_end t; Some s } else Some t"
  have none: "fold desktop_event report_end K = K" for K by (simp add: report_end_def desktop_event_def)
  have first: "returns ?first (\<lambda>t. steady s t \<and> (\<forall>v. views_of v t = views_of v s) \<and> fs_devices t = fs_devices s)"
    using write_sink_locked_spec [OF wf link, of report_end] steady_refl [OF wf link] sink_steady [of s]
    by (auto simp: none elim!: returns_mono)
  have second: "returns (?second t) (\<lambda>u. steady s u \<and> (\<forall>v. views_of v u = views_of v s))"
    if t: "steady s t" "\<forall>v. views_of v t = views_of v s" "fs_devices t = fs_devices s" for t
  proof (cases "fd_clone_report_open ?d")
    case True
    then have "fd_output (fs_devices t ! i) \<noteq> None" using wf_device_ok [OF wf i] t(3) by (simp add: device_ok_def)
    with True t show ?thesis using steady_trans [OF t(1)]
      by (auto intro!: returns_mono [OF write_locked_spec [OF steadyD(1,2) [OF t(1)] i]])
  qed (use t in simp)
  have third: "returns (do { d \<leftarrow> get_device i t; put_device i (d\<lparr>fd_sink_report_open := False, fd_clone_report_open := False\<rparr>) t })
      (\<lambda>u. steady s u \<and> (\<forall>v. views_of v u = views_of v s))"
    if t: "steady s t" "\<forall>v. views_of v t = views_of v s" for t
  proof -
    note wft = steadyD(1,2) [OF t(1)]
    let ?e = "(fs_devices t ! i)\<lparr>fd_sink_report_open := False, fd_clone_report_open := False\<rparr>"
    have "steady t (t\<lparr>fs_devices := (fs_devices t)[i := ?e]\<rparr>)"
      by (rule steady_device [OF wft i, where d = ?e]) (use wf_device_ok [OF wft(1) i] in \<open>simp_all add: device_ok_def\<close>)
    then show ?thesis using t steady_trans [OF t(1)]
      by (simp add: get_device_in [OF wft(1) i] put_device_in [OF wft(1) i] views_of_def map_update_same)
  qed
  have eq: "end_open_reports_locked i s = do { t \<leftarrow> ?first; t \<leftarrow> ?second t;
      d \<leftarrow> get_device i t; put_device i (d\<lparr>fd_sink_report_open := False, fd_clone_report_open := False\<rparr>) t }"
    by (simp add: end_open_reports_locked_def get_device_in [OF wf i])
  show ?thesis unfolding eq
    by (rule returns_bind [OF first], elim conjE, rule returns_bind [OF second], assumption+, elim conjE, rule third, assumption+)
qed

lemma changes_after_same:
  "steady s s' \<Longrightarrow> (\<And>w. views_of w s' = views_of w s) \<Longrightarrow> changes i v k s' s'' \<Longrightarrow> changes i v k s s''"
  unfolding changes_def using steady_trans by fastforce

lemma same_keys_at:
  assumes "\<And>w. views_of w s' = views_of w s" and "forward_wf s" "forward_wf s'" and "i < 128"
  shows "keys_at i v s' = keys_at i v s"
  using assms views_of_nth by metis

lemma end_grab_locked_spec:
  assumes wf: "forward_wf s" and link: "sink_link s" and i: "i < 128" and keep: "keep_ok keep"
    and K: "K = (case keep of Some k \<Rightarrow> held k | None \<Rightarrow> held (fk_source (keys_at i v s)))"
  shows "returns (end_grab_locked i v keep s) (\<lambda>t. \<exists>k'. changes i v k' s t \<and> fk_source k' = fk_source (keys_at i v s)
     \<and> held (fk_output k') = held (fk_output (keys_at i v s)) \<inter> K \<and> held (fk_displaced k') = {})"
proof -
  let ?first = "if v = KSI_FORWARD_APPLIED then end_open_reports_locked i s else Some s"
  let ?keep = "\<lambda>t. case keep of Some k \<Rightarrow> Some k | None \<Rightarrow> Some (fk_source (keys_at i v t))"
  let ?none = "replicate KSI_KEY_BITMAP_BYTES 0"
  let ?goal = "\<lambda>t. \<exists>k'. changes i v k' s t \<and> fk_source k' = fk_source (keys_at i v s)
     \<and> held (fk_output k') = held (fk_output (keys_at i v s)) \<inter> K \<and> held (fk_displaced k') = {}"
  have first: "returns ?first (\<lambda>t. steady s t \<and> (\<forall>v. views_of v t = views_of v s))"
    using end_open_reports_spec [OF wf link i] steady_refl [OF wf link] by simp
  have fin: "returns (do { d \<leftarrow> get_device i u; u \<leftarrow> put_device i (set_keys v ((fd_views d v)\<lparr>fk_displaced := ?none\<rparr>) d) u;
        Some (u\<lparr>fs_target_epoch := fs_target_epoch u + 1\<rparr>) }) ?goal"
    if u: "changes i v k s u" "fk_source k = fk_source (keys_at i v s)" "held (fk_output k) = held (fk_output (keys_at i v s)) \<inter> K" for k u
  proof -
    have wfu: "forward_wf u" "sink_link u" using changes_steady [OF u(1)] steadyD by blast+
    have at: "fd_views (fs_devices u ! i) v = k" using changes_keys_at [OF u(1) wf i] by (simp add: keys_at_def)
    have "keys_ok (k\<lparr>fk_displaced := ?none\<rparr>)" using wf_keys [OF wfu(1) i, of v] bitmap_zero(1) by (simp add: at keys_ok_def)
    then have "changes i v (k\<lparr>fk_displaced := ?none\<rparr>) s
        (u\<lparr>fs_devices := (fs_devices u)[i := set_keys v (k\<lparr>fk_displaced := ?none\<rparr>) (fs_devices u ! i)]\<rparr>)"
      by (intro changes_trans [OF u(1)] put_keys_changes [OF wfu i]) (simp_all add: wants_set_keys at)
    then show ?thesis using u bitmap_zero(2)
      by (simp add: get_device_in [OF wfu(1) i] put_device_in [OF wfu(1) i] at) (intro exI [of _ "k\<lparr>fk_displaced := ?none\<rparr>"], simp)
  qed
  have mid: "returns (do { d \<leftarrow> get_device i t;
        u \<leftarrow> release_outputs_locked i v (case keep of Some k \<Rightarrow> Some k | None \<Rightarrow> Some (fk_source (fd_views d v))) t;
        d \<leftarrow> get_device i u; u \<leftarrow> put_device i (set_keys v ((fd_views d v)\<lparr>fk_displaced := ?none\<rparr>) d) u;
        Some (u\<lparr>fs_target_epoch := fs_target_epoch u + 1\<rparr>) }) ?goal"
    if t: "steady s t" "\<forall>v. views_of v t = views_of v s" for t
  proof -
    note wft = steadyD(1,2) [OF t(1)]
    have at: "keys_at i v t = keys_at i v s" using same_keys_at [OF _ wf wft(1) i] t(2) by simp
    have ok: "keep_ok (?keep t)" using keep wf_keys [OF wft(1) i, of v] by (auto simp: keep_ok_def keys_at_def keys_ok_def split: option.splits)
    have Kt: "kept_keys (?keep t) = K" using K at by (auto simp: kept_keys_def split: option.splits)
    show ?thesis unfolding get_device_in [OF wft(1) i] bind.bind_lunit keys_at_def [symmetric]
    proof (rule returns_bind [OF release_outputs_spec [OF wft i ok]], elim exE conjE)
      fix u k assume "changes i v k t u" "fk_source k = fk_source (keys_at i v t)"
        "held (fk_output k) = held (fk_output (keys_at i v t)) \<inter> kept_keys (?keep t)"
      then show "returns (do { d \<leftarrow> get_device i u; u \<leftarrow> put_device i (set_keys v ((fd_views d v)\<lparr>fk_displaced := ?none\<rparr>) d) u;
        Some (u\<lparr>fs_target_epoch := fs_target_epoch u + 1\<rparr>) }) ?goal"
        unfolding Kt unfolding at using t by (intro fin) (auto intro: changes_after_same)
    qed
  qed
  show ?thesis unfolding end_grab_locked_def
    by (rule returns_bind [OF first], elim conjE, rule mid)
qed

lemma find_device:
  assumes wf: "forward_wf s"
  obtains r where "find_device_locked t v s = Some r"
    "\<And>i. r = Some i \<Longrightarrow> i < 128 \<and> unat (t AND 0xff) = i + 1 \<and> fd_target (fs_devices s ! i) v = t \<and> live (fs_devices s ! i)"
    "\<And>i. unat (t AND 0xff) = i + 1 \<Longrightarrow> i < 128 \<Longrightarrow> fd_target (fs_devices s ! i) v = t \<Longrightarrow> \<not> fd_retiring (fs_devices s ! i) \<Longrightarrow> r = Some i"
proof -
  let ?slot = "unat (t AND 0xff)"
  show thesis
  proof (cases "?slot = 0 \<or> ?slot > KSI_MAX_FORWARDING_DEVICES")
    case True
    then show thesis by (intro that [of None]) (auto simp: find_device_locked_def)
  next
    case False
    then have i: "?slot - 1 < 128" and "t \<noteq> 0" by auto
    have "\<forall>v. fd_target (fs_devices s ! (?slot - 1)) v \<noteq> 0 \<longrightarrow> fd_open (fs_devices s ! (?slot - 1))"
      using wf_device_ok [OF wf i] by (simp add: device_ok_def)
    with \<open>t \<noteq> 0\<close> have "fd_target (fs_devices s ! (?slot - 1)) v = t \<Longrightarrow> fd_open (fs_devices s ! (?slot - 1))" by metis
    with False i show thesis
      by (intro that [of "if fd_target (fs_devices s ! (?slot - 1)) v = t \<and> \<not> fd_retiring (fs_devices s ! (?slot - 1)) then Some (?slot - 1) else None"])
        (auto simp: find_device_locked_def get_device_in [OF wf] Let_def live_def split: if_splits)
  qed
qed

section \<open>Synthesis takes keys over\<close>

text \<open>The key state of a source as sets: what it holds downstream, what it physically holds, what was displaced.\<close>

definition key_sets :: "forward_keys \<Rightarrow> nat set \<times> nat set \<times> nat set" where
  "key_sets k = (held (fk_output k), held (fk_source k), held (fk_displaced k))"

definition shift_sets :: "bool \<Rightarrow> nat set \<Rightarrow> nat set \<times> nat set \<times> nat set \<Rightarrow> nat set \<times> nat set \<times> nat set" where
  "shift_sets restore C = (\<lambda>(out, src, dis).
     if restore then (out \<union> (dis \<inter> C), src, dis - C)
     else (out - C, src, (dis - (out \<inter> C)) \<union> (out \<inter> src \<inter> C)))"

lemma changes_others:
  assumes "changes i v k s t" and "forward_wf s" and "j < 128" and "j \<noteq> i \<or> w \<noteq> v"
  shows "keys_at j w t = keys_at j w s"
proof -
  have "forward_wf t" using assms(1) steadyD(1) by (auto simp: changes_def)
  then have "keys_at j w t = views_of w t ! j" "keys_at j w s = views_of w s ! j" using assms(2,3) by (simp_all add: views_of_nth)
  with assms(1,4) show ?thesis by (cases "w = v") (auto simp: changes_def)
qed

lemma shift_code_spec:
  assumes wf: "forward_wf s" and link: "sink_link s" and i: "i < 128" and code: "unat code \<le> KEY_MAX"
  shows "returns (shift_code i v r code (b, s)) (\<lambda>(b', t). \<exists>k'. changes i v k' s t
     \<and> key_sets k' = shift_sets r {unat code} (key_sets (keys_at i v s))
     \<and> (b' \<longleftrightarrow> b \<or> unat code \<in> held (if r then fk_displaced (keys_at i v s) else fk_output (keys_at i v s))))"
proof -
  let ?k = "keys_at i v s" and ?c = "unat code"
  have ko: "keys_ok ?k" using wf_keys [OF wf i] by (simp add: keys_at_def)
  note bit_eq = key_bit_eq [OF _ code]
  have kb: "ksi_key_bit (if r then fk_displaced ?k else fk_output ?k) code = Some (?c \<in> held (if r then fk_displaced ?k else fk_output ?k))"
    "(if r then Some False else ksi_key_bit (fk_source ?k) code) = Some (\<not> r \<and> ?c \<in> held (fk_source ?k))"
    using ko bit_eq by (auto simp: keys_ok_def)
  show ?thesis
  proof (cases "?c \<in> held (if r then fk_displaced ?k else fk_output ?k)")
    case False
    then have "key_sets ?k = shift_sets r {?c} (key_sets ?k)" by (auto simp: key_sets_def shift_sets_def split: if_splits)
    with False kb changes_refl [OF wf link i, of v] show ?thesis
      by (auto simp: shift_code_def get_device_in [OF wf i] keys_at_def [symmetric])
  next
    case True
    obtain x where x: "ksi_set_key_bit (fk_displaced ?k) code (\<not> r \<and> ?c \<in> held (fk_source ?k)) = Some x" "bitmap x"
      "held x = (if \<not> r \<and> ?c \<in> held (fk_source ?k) then insert ?c (held (fk_displaced ?k)) else held (fk_displaced ?k) - {?c})"
      using set_key_bit_eq [OF _ code] ko by (metis keys_ok_def)
    let ?k1 = "?k\<lparr>fk_displaced := x\<rparr>"
    define s1 where "s1 = s\<lparr>fs_devices := (fs_devices s)[i := set_keys v ?k1 (fs_devices s ! i)]\<rparr>"
    have ch: "changes i v ?k1 s s1" unfolding s1_def
      by (rule put_keys_changes [OF wf link i]) (use ko x(2) in \<open>simp_all add: keys_ok_def wants_set_keys keys_at_def\<close>)
    then have s1: "forward_wf s1" "sink_link s1" and at: "keys_at i v s1 = ?k1"
      using changes_steady steadyD changes_keys_at [OF _ wf i] by blast+
    have step: "shift_code i v r code (b, s) = do { s \<leftarrow> set_output_locked i v code r s1; Some (True, s) }"
      unfolding shift_code_def s1_def using True kb x
      by (simp add: get_device_in [OF wf i] put_device_in [OF wf i] keys_at_def [symmetric])
    have "\<exists>k'. changes i v k' s t \<and> key_sets k' = shift_sets r {?c} (key_sets ?k)"
      if "changes i v (?k1\<lparr>fk_output := o'\<rparr>) s1 t" "held o' = (if r then insert ?c (held (fk_output ?k1)) else held (fk_output ?k1) - {?c})" for t o'
      using changes_trans [OF ch that(1)] that(2) True x(3)
      by (intro exI [of _ "?k1\<lparr>fk_output := o'\<rparr>"]) (auto simp: key_sets_def shift_sets_def)
    with True show ?thesis unfolding step returns_bind_eq
      by (intro returns_mono [OF set_output_spec [OF s1 i code, of v r, unfolded at]]) auto
  qed
qed

lemma shift_sets_twice: "shift_sets r C (shift_sets r {c} x) = shift_sets r (insert c C) x"
  by (cases x) (auto simp: shift_sets_def)

definition moved :: "bool \<Rightarrow> nat set \<Rightarrow> forward_keys \<Rightarrow> bool" where
  "moved restore C k \<longleftrightarrow> (if restore then held (fk_displaced k) else held (fk_output k)) \<inter> C \<noteq> {}"

lemma frame_live: "frame s t \<Longrightarrow> i < length (fs_devices s) \<Longrightarrow> live (fs_devices t ! i) = live (fs_devices s ! i)"
  using frame_shape [of s t i] by (simp add: shape_def live_def)

lemma moved_insert:
  assumes "key_sets k' = shift_sets r {c} (key_sets k)" and "c' \<noteq> c"
  shows "moved r {c'} k' \<longleftrightarrow> moved r {c'} k"
  using assms by (cases r) (auto simp: key_sets_def shift_sets_def moved_def)

lemma mem_for_Nil: "mem_for f [] = Some"
  by (rule ext) simp

lemma mem_for_single: "mem_for f [x] = f x"
  by (rule ext) (simp add: mem_for_Nil)

lemma shift_device_spec:
  assumes wf: "forward_wf s" and link: "sink_link s" and i: "i < 128" and code: "unat code \<le> KEY_MAX"
  defines "C \<equiv> {unat code, unat (ksi_button_alias code)}"
  shows "returns (shift_device [code, ksi_button_alias code] v r i (b, s)) (\<lambda>(b', t). \<exists>k'. changes i v k' s t
     \<and> key_sets k' = (if live (fs_devices s ! i) then shift_sets r C (key_sets (keys_at i v s)) else key_sets (keys_at i v s))
     \<and> (b' \<longleftrightarrow> b \<or> live (fs_devices s ! i) \<and> moved r C (keys_at i v s)))"
proof -
  let ?c' = "ksi_button_alias code" and ?k = "keys_at i v s"
  note one = shift_code_spec [OF wf link i code, of v r b, folded moved_def]
  show ?thesis
  proof (cases "live (fs_devices s ! i)")
    case False
    with changes_refl [OF wf link i, of v] show ?thesis by (auto simp: shift_device_def get_device_in [OF wf i])
  next
    case live: True
    have m1: "(unat code \<in> held (if r then fk_displaced ?k else fk_output ?k)) = moved r {unat code} ?k" by (simp add: moved_def)
    show ?thesis
    proof (cases "?c' = code")
      case True
      then have "shift_device [code, ?c'] v r i (b, s) = shift_code i v r code (b, s)"
        using live by (simp add: shift_device_def get_device_in [OF wf i] arr_get_def mem_for_Nil)
      with one True live show ?thesis by (simp add: C_def m1)
    next
      case False
      have ne: "unat ?c' \<noteq> unat code" using False by (simp add: word_unat_eq_iff)
      have eq: "shift_device [code, ?c'] v r i (b, s) = do { x \<leftarrow> shift_code i v r code (b, s); shift_code i v r ?c' x }"
        using live False by (simp add: shift_device_def get_device_in [OF wf i] arr_get_def upt_rec mem_for_single)
      show ?thesis unfolding eq
      proof (rule returns_bind [OF one])
        fix y assume "case y of (b1, t) \<Rightarrow> \<exists>k1. changes i v k1 s t \<and> key_sets k1 = shift_sets r {unat code} (key_sets ?k)
          \<and> (b1 \<longleftrightarrow> b \<or> unat code \<in> held (if r then fk_displaced ?k else fk_output ?k))"
        then obtain b1 t k1 where y: "y = (b1, t)" and t: "changes i v k1 s t" "key_sets k1 = shift_sets r {unat code} (key_sets ?k)"
          and b1: "b1 \<longleftrightarrow> b \<or> unat code \<in> held (if r then fk_displaced ?k else fk_output ?k)" by (cases y) blast
        have wft: "forward_wf t" "sink_link t" using changes_steady [OF t(1)] steadyD by blast+
        have at: "keys_at i v t = k1" by (rule changes_keys_at [OF t(1) wf i])
        have mm: "(unat ?c' \<in> held (if r then fk_displaced k1 else fk_output k1)) = moved r {unat ?c'} ?k"
          using moved_insert [OF t(2) ne] by (cases r) (simp_all add: moved_def)
        have both: "moved r C ?k \<longleftrightarrow> moved r {unat code} ?k \<or> moved r {unat ?c'} ?k" by (auto simp: moved_def C_def)
        have sets: "shift_sets r {unat ?c'} (shift_sets r {unat code} x) = shift_sets r C x" for x
          by (simp add: shift_sets_twice C_def)
        show "returns (shift_code i v r ?c' y) (\<lambda>(b', u). \<exists>k'. changes i v k' s u
           \<and> key_sets k' = (if live (fs_devices s ! i) then shift_sets r C (key_sets ?k) else key_sets ?k)
           \<and> (b' \<longleftrightarrow> b \<or> live (fs_devices s ! i) \<and> moved r C ?k))"
          unfolding y
          by (rule returns_mono [OF shift_code_spec [OF wft i alias_bound [OF code], of v r b1, unfolded at mm t(2) sets]])
            (use live changes_trans [OF t(1)] in \<open>auto simp: both b1 [unfolded m1]\<close>)
      qed
    qed
  qed
qed

lemma shift_key_spec:
  fixes code :: u16
  assumes wf: "forward_wf s" and link: "sink_link s"
  defines "C \<equiv> {unat code, unat (ksi_button_alias code)}"
  shows "returns (shift_key code v r s) (\<lambda>(b, t). steady s t \<and> (\<forall>w. w \<noteq> v \<longrightarrow> views_of w t = views_of w s)
     \<and> (unat code \<le> KEY_MAX \<longrightarrow>
         (\<forall>i < 128. key_sets (keys_at i v t) = (if live (fs_devices s ! i) then shift_sets r C (key_sets (keys_at i v s)) else key_sets (keys_at i v s)))
         \<and> (b \<longleftrightarrow> (\<exists>i < 128. live (fs_devices s ! i) \<and> moved r C (keys_at i v s)))))"
proof (cases "unat code \<le> KEY_MAX")
  case False
  then show ?thesis using steady_refl [OF wf link] by (simp add: shift_key_def)
next
  case code: True
  let ?n = "fs_slot_limit s" and ?live = "\<lambda>i. live (fs_devices s ! i)"
  define P where "P n x \<longleftrightarrow> (case x of (b, t) \<Rightarrow> steady s t \<and> (\<forall>w. w \<noteq> v \<longrightarrow> views_of w t = views_of w s)
     \<and> (\<forall>i < 128. key_sets (keys_at i v t) = (if i < n \<and> ?live i then shift_sets r C (key_sets (keys_at i v s)) else key_sets (keys_at i v s)))
     \<and> (\<forall>i < 128. i \<ge> n \<longrightarrow> keys_at i v t = keys_at i v s)
     \<and> (b \<longleftrightarrow> (\<exists>i < n. ?live i \<and> moved r C (keys_at i v s))))" for n x
  have "P 0 (False, s)" using steady_refl [OF wf link] by (simp add: P_def)
  moreover have "returns (shift_device [code, ksi_button_alias code] v r n x) (P (Suc n))" if n: "n < ?n" and p: "P n x" for n x
  proof -
    obtain b t where x: "x = (b, t)" by fastforce
    have t: "steady s t" "forward_wf t" "sink_link t" and n128: "n < 128"
      using p n wf_limit [OF wf] steadyD by (auto simp: P_def x)
    have at: "keys_at n v t = keys_at n v s" using p n128 by (simp add: P_def x)
    have live: "live (fs_devices t ! n) = ?live n" using frame_live [OF steadyD(3) [OF t(1)]] n128 by (simp add: wf_length [OF wf])
    show ?thesis unfolding x
    proof (rule returns_mono [OF shift_device_spec [OF t(2,3) n128 code, of v r b, folded C_def, unfolded live at]])
      fix y assume "case y of (b', u) \<Rightarrow> \<exists>k'. changes n v k' t u
        \<and> key_sets k' = (if ?live n then shift_sets r C (key_sets (keys_at n v s)) else key_sets (keys_at n v s))
        \<and> (b' \<longleftrightarrow> b \<or> ?live n \<and> moved r C (keys_at n v s))"
      then obtain b' u k' where y: "y = (b', u)" and u: "changes n v k' t u"
        "key_sets k' = (if ?live n then shift_sets r C (key_sets (keys_at n v s)) else key_sets (keys_at n v s))"
        and b': "b' \<longleftrightarrow> b \<or> ?live n \<and> moved r C (keys_at n v s)" by (cases y) blast
      have other: "keys_at i v u = keys_at i v t" if "i < 128" "i \<noteq> n" for i using changes_others [OF u(1) t(2) that(1)] that(2) by simp
      have same: "keys_at n v u = k'" by (rule changes_keys_at [OF u(1) t(2) n128])
      have "steady s u" using steady_trans [OF t(1) changes_steady [OF u(1)]] .
      moreover have "views_of w u = views_of w s" if "w \<noteq> v" for w using that u(1) p by (auto simp: changes_def P_def x)
      moreover have "key_sets (keys_at i v u) = (if i < Suc n \<and> ?live i then shift_sets r C (key_sets (keys_at i v s)) else key_sets (keys_at i v s))"
        if "i < 128" for i
        using that p u(2) other [OF that] same by (cases "i = n") (auto simp: P_def x less_Suc_eq)
      moreover have "keys_at i v u = keys_at i v s" if "i < 128" "i \<ge> Suc n" for i using that p other [OF that(1)] by (simp add: P_def x)
      ultimately show "P (Suc n) y" unfolding y using b' p by (auto simp: P_def x less_Suc_eq)
    qed
  qed
  ultimately have "returns (shift_key code v r s) (P ?n)"
    unfolding shift_key_def Let_def using code by (simp, intro returns_mem_for_upt) auto
  moreover have "i < ?n" if "i < 128" "?live i" for i using that wf_open [OF wf] by (simp add: live_def)
  ultimately show ?thesis using wf_limit [OF wf]
    by (elim returns_mono) (auto simp: P_def dest: less_le_trans)
qed

end
