(* ===== verification/Forward_Inv.thy ===== *)
theory Forward_Inv
  imports Forward_Laws
begin

text \<open>
  The operations of the forwarding table on key state, grabs, closing and the sink keep its
  invariant, whatever the environment answers, and never access memory out of bounds; and what a
  release followed by a restore does to the key state.
\<close>

section \<open>The operations keep the invariant\<close>

text \<open>
  The invariant of the component: the type invariant, the link between the sink's bitmap and what
  the desktop saw, and that no key is down on a working sink that nobody holds.
\<close>

definition forward_inv :: "forward_state \<Rightarrow> bool" where
  "forward_inv s \<longleftrightarrow> forward_wf s \<and> sink_link s \<and> unstuck {} s"

lemma forward_invD: "forward_inv s \<Longrightarrow> forward_wf s" "forward_inv s \<Longrightarrow> sink_link s" "forward_inv s \<Longrightarrow> unstuck {} s"
  by (simp_all add: forward_inv_def)

lemma steady_inv: "steady s t \<Longrightarrow> forward_inv s \<Longrightarrow> forward_inv t \<and> frame s t"
  by (simp add: steady_def forward_inv_def)

lemma inv_insensitive [simp]:
  "forward_inv (t\<lparr>fs_target_epoch := e\<rparr>) = forward_inv t" "forward_inv (t\<lparr>fs_pace := pc\<rparr>) = forward_inv t"
  "forward_inv (t\<lparr>fs_retiring_count := n\<rparr>) = forward_inv t" "forward_inv (t\<lparr>fs_failure_pending := f\<rparr>) = forward_inv t"
  "frame s (t\<lparr>fs_target_epoch := e\<rparr>) = frame s t" "frame s (t\<lparr>fs_pace := pc\<rparr>) = frame s t"
  "frame s (t\<lparr>fs_retiring_count := n\<rparr>) = frame s t" "frame s (t\<lparr>fs_failure_pending := f\<rparr>) = frame s t"
  by (simp_all add: forward_inv_def forward_wf_def sink_link_def frame_def unstuck_def ready_def wanted_def)

lemma initial_inv: "forward_inv (initial_forward_state answers)"
proof -
  have "device_ok i zero_forwarding_device" for i
    using bitmap_zero(1) by (simp add: device_ok_def zero_forwarding_device_def keys_ok_def zero_forward_keys_def)
  then show ?thesis using bitmap_zero(1)
    by (simp add: forward_inv_def forward_wf_def initial_forward_state_def sink_link_def unstuck_def ready_def zero_forwarding_device_def)
qed

lemma attach_sink_inv:
  assumes "forward_inv s"
  shows "forward_inv (ksi_linux_forward_attach_sink fd s) \<and> frame s (ksi_linux_forward_attach_sink fd s)"
  using assms bitmap_zero
  by (simp add: forward_inv_def forward_wf_def sink_link_def unstuck_def ready_def ksi_linux_forward_attach_sink_def Let_def
      desktop_keys_append frame_def)

lemma sink_repress_inv:
  assumes inv: "forward_inv s"
  shows "returns (ksi_linux_forward_sink_tap code s) (\<lambda>(r, t). forward_inv t \<and> frame s t)"
    "returns (ksi_linux_forward_sink_repress code s) (\<lambda>(r, t). forward_inv t \<and> frame s t)"
proof -
  note i = forward_invD [OF inv]
  have tap: "returns (tap_locked code s) (\<lambda>(r, t). forward_inv t \<and> frame s t)" if "unat code \<le> KEY_MAX"
    by (rule returns_mono [OF tap_spec [OF i(1,2) that]]) (auto dest!: sink_steady(1) dest: steady_inv [OF _ inv])
  then show "returns (ksi_linux_forward_sink_tap code s) (\<lambda>(r, t). forward_inv t \<and> frame s t)"
    using inv by (simp add: ksi_linux_forward_sink_tap_def)
  have "needs_repress_locked code s \<noteq> None" if "unat code \<le> KEY_MAX"
    using key_bit_eq [OF wf_sink(1) [OF i(1)] that] by (cases "unat code \<in> set repress_exempt"; cases "ksi_linux_key_code_is_keyboard (unat code)") (simp_all add: needs_repress_locked_def)
  with tap inv show "returns (ksi_linux_forward_sink_repress code s) (\<lambda>(r, t). forward_inv t \<and> frame s t)"
    by (auto simp: ksi_linux_forward_sink_repress_def not_less)
qed

text \<open>Reconciling one code after a change of what is wanted at that code.\<close>

lemma reconcile_inv:
  assumes "unstuck X s" and "ready s1 = ready s" and "sk_down (fs_sink s1) = sk_down (fs_sink s)"
    and "wanted s1 - {unat code} = wanted s - {unat code}" and wf: "forward_wf s1" "sink_link s1" and code: "unat code \<le> KEY_MAX"
  shows "returns (reconcile_locked code s1) (\<lambda>(r, t). forward_wf t \<and> sink_link t \<and> unstuck (X - {unat code}) t
    \<and> fs_devices t = fs_devices s1 \<and> frame s1 t \<and> sk_synth (fs_sink t) = sk_synth (fs_sink s1))"
proof (rule returns_mono [OF reconcile_spec [OF wf code]], clarify)
  fix t assume t: "sink_frame s1 t" "ready t \<longrightarrow> ready s1 \<and> held (sk_down (fs_sink t))
    = (if unat code \<in> wanted s1 then insert (unat code) (held (sk_down (fs_sink s1))) else held (sk_down (fs_sink s1)) - {unat code})"
  from unstuck_reconcile(2) [OF assms(1-4) t] sink_frame_frame [OF t(1)] t(1)
  show "forward_wf t \<and> sink_link t \<and> unstuck (X - {unat code}) t
    \<and> fs_devices t = fs_devices s1 \<and> frame s1 t \<and> sk_synth (fs_sink t) = sk_synth (fs_sink s1)" by (simp add: sink_frame_def)
qed

lemma synth_update:
  assumes inv: "forward_wf s" "sink_link s" and b: "bitmap b"
  defines "t \<equiv> s\<lparr>fs_sink := (fs_sink s)\<lparr>sk_synth := b\<rparr>\<rparr>"
  shows "forward_wf t" "sink_link t" "ready t = ready s" "sk_down (fs_sink t) = sk_down (fs_sink s)" "frame s t"
    "held b - C = held (sk_synth (fs_sink s)) - C \<Longrightarrow> wanted t - C = wanted s - C"
  using assms by (auto simp: forward_wf_def sink_link_def ready_def frame_def wanted_def)

lemma sink_key_inv:
  assumes inv: "forward_inv s"
  shows "returns (ksi_linux_forward_sink_key code h s) (\<lambda>(r, t). forward_inv t \<and> frame s t)"
proof (cases "unat code \<le> KEY_MAX")
  case True
  note i = forward_invD [OF inv]
  obtain b where b: "ksi_set_key_bit (sk_synth (fs_sink s)) code h = Some b" "bitmap b"
    "held b = (if h then insert (unat code) (held (sk_synth (fs_sink s))) else held (sk_synth (fs_sink s)) - {unat code})"
    using set_key_bit_eq [OF wf_sink(2) [OF i(1)] True] by blast
  note u = synth_update [OF i(1,2) b(2)]
  have "held b - {unat code} = held (sk_synth (fs_sink s)) - {unat code}" using b(3) by auto
  from reconcile_inv [OF i(3) u(3,4) u(6) [OF this] u(1,2) True] frame_trans [OF u(5)] True b(1) show ?thesis
    by (auto simp: ksi_linux_forward_sink_key_def forward_inv_def elim!: returns_mono)
qed (use inv in \<open>simp add: ksi_linux_forward_sink_key_def\<close>)

lemma clear_synth_byte_spec:
  assumes wf: "forward_wf s" "sink_link s" and un: "unstuck {} s" and n: "n < KSI_KEY_BITMAP_BYTES"
  shows "returns (clear_synth_byte n s) (\<lambda>t. forward_inv t \<and> frame s t \<and> held (sk_synth (fs_sink t)) = held (sk_synth (fs_sink s)) - byte_keys n)"
proof -
  let ?b = "sk_synth (fs_sink s) ! n" and ?z = "(sk_synth (fs_sink s))[n := 0]"
  let ?w = "ucast ?b :: u32"
  let ?xs = "filter (bit ?w) [0..<32]"
  have bm: "bitmap (sk_synth (fs_sink s))" by (rule wf_sink(2) [OF wf(1)])
  then have len: "length (sk_synth (fs_sink s)) = 96" by (simp add: bitmap_def)
  have z: "bitmap ?z" "held ?z = held (sk_synth (fs_sink s)) - byte_keys n"
    using bm held_and_byte [OF bm n, of 0 "{}"] by (simp_all add: bitmap_def)
  define s1 where "s1 = s\<lparr>fs_sink := (fs_sink s)\<lparr>sk_synth := ?z\<rparr>\<rparr>"
  note u = synth_update [OF wf z(1), folded s1_def]
  have w: "bit ?w x \<longleftrightarrow> x < 8 \<and> bit ?b x" for x by (auto simp: bit_simps dest: bit_word_imp_less)
  have sx: "set ?xs = {x. x < 8 \<and> bit ?b x}" by (auto simp: w)
  have cover: "byte_keys n \<inter> held (sk_synth (fs_sink s)) \<subseteq> (\<lambda>x. n * 8 + x) ` set ?xs"
  proof
    fix c assume c: "c \<in> byte_keys n \<inter> held (sk_synth (fs_sink s))"
    then have "c mod 8 \<in> set ?xs" unfolding sx by (auto simp: byte_keys_def held_def)
    moreover have "c = n * 8 + c mod 8" using c div_mult_mod_eq [of c 8] by (simp add: byte_keys_def)
    ultimately show "c \<in> (\<lambda>x. n * 8 + x) ` set ?xs" by (rule rev_image_eqI)
  qed
  have un1: "unstuck ((\<lambda>x. n * 8 + x) ` set ?xs) s1"
  proof -
    have "wanted s \<subseteq> wanted s1 \<union> (byte_keys n \<inter> held (sk_synth (fs_sink s)))" using z(2) by (auto simp: wanted_def s1_def)
    with cover un u(3,4) show ?thesis by (auto simp: unstuck_def)
  qed
  define P where "P ys t \<longleftrightarrow> forward_wf t \<and> sink_link t \<and> frame s t \<and> sk_synth (fs_sink t) = ?z
    \<and> unstuck ((\<lambda>x. n * 8 + x) ` set ?xs - (\<lambda>x. n * 8 + x) ` set ys) t" for ys t
  have "returns (mem_for (\<lambda>k s. do { (_, s) \<leftarrow> reconcile_locked (of_nat (n * 8 + k)) s; Some s }) ?xs s1) (P ?xs)"
  proof (rule returns_mem_for, goal_cases)
    case 1
    then show ?case using u un1 by (simp add: P_def s1_def)
  next
    case (2 ys x zs t)
    have "x \<in> set ?xs" using 2(1) by simp
    then have "x < 8" unfolding sx by simp
    then have code: "unat (of_nat (n * 8 + x) :: u16) = n * 8 + x" "n * 8 + x \<le> KEY_MAX" using n code_of_nat [of "n * 8 + x"] by (simp_all del: of_nat_add of_nat_mult)
    from 2(2) have p: "forward_wf t" "sink_link t" "frame s t" "sk_synth (fs_sink t) = ?z"
      "unstuck ((\<lambda>x. n * 8 + x) ` set ?xs - (\<lambda>x. n * 8 + x) ` set ys) t" by (simp_all add: P_def)
    have "(\<lambda>x. n * 8 + x) ` set ?xs - (\<lambda>x. n * 8 + x) ` set ys - {n * 8 + x}
        = (\<lambda>x. n * 8 + x) ` set ?xs - (\<lambda>x. n * 8 + x) ` set (ys @ [x])" by auto
    note rest = this
    have "unat (of_nat (n * 8 + x) :: u16) \<le> KEY_MAX" unfolding code(1) by (rule code(2))
    note spec = reconcile_inv [OF p(5) refl refl refl p(1,2) this, unfolded code(1) rest]
    show ?case unfolding returns_bind_eq
      by (rule returns_mono [OF spec]) (use p(4) frame_trans [OF p(3)] in \<open>auto simp: P_def\<close>)
  qed
  then have "returns (clear_synth_byte n s) (P ?xs)"
    unfolding clear_synth_byte_def bits_for_eq using n len by (simp add: rd8_def wr8_def s1_def)
  then show ?thesis by (rule returns_mono) (simp add: P_def forward_inv_def z(2))
qed

lemma sink_clear_synth_inv:
  assumes inv: "forward_inv s"
  shows "returns (ksi_linux_forward_sink_clear_synth s) (\<lambda>t. forward_inv t \<and> frame s t \<and> held (sk_synth (fs_sink t)) = {})"
proof -
  have "returns (ksi_linux_forward_sink_clear_synth s) (\<lambda>t. forward_inv t \<and> frame s t
      \<and> held (sk_synth (fs_sink t)) = held (sk_synth (fs_sink s)) - {c. c div 8 < KSI_KEY_BITMAP_BYTES})"
    unfolding ksi_linux_forward_sink_clear_synth_def
  proof (rule returns_mem_for_upt, goal_cases)
    case 1
    then show ?case using inv by simp
  next
    case (2 n t)
    have "{c. c div 8 < Suc n} = {c. c div 8 < n} \<union> byte_keys n" by (auto simp: byte_keys_def)
    with 2 frame_trans [of s t] show ?case
      by (intro returns_mono [OF clear_synth_byte_spec [OF _ _ _ 2(1)]]) (auto simp: forward_inv_def)
  qed
  moreover have "held x - {c. c div 8 < KSI_KEY_BITMAP_BYTES} = {}" for x using held_bound by fastforce
  ultimately show ?thesis by (elim returns_mono) auto
qed

lemma shift_key_inv:
  assumes inv: "forward_inv s"
  shows "returns (ksi_linux_forward_release_key code v s) (\<lambda>t. forward_inv t \<and> frame s t)"
    "returns (ksi_linux_forward_restore_key code v s) (\<lambda>(b, t). forward_inv t \<and> frame s t)"
proof -
  have "returns (shift_key code v r s) (\<lambda>(b, t). forward_inv t \<and> frame s t)" for r
    by (rule returns_mono [OF shift_key_spec [OF forward_invD(1,2) [OF inv]]]) (auto dest: steady_inv [OF _ inv])
  then show "returns (ksi_linux_forward_release_key code v s) (\<lambda>t. forward_inv t \<and> frame s t)"
    "returns (ksi_linux_forward_restore_key code v s) (\<lambda>(b, t). forward_inv t \<and> frame s t)"
    by (simp_all add: ksi_linux_forward_release_key_def ksi_linux_forward_restore_key_def split_def)
qed

lemma release_all_spec:
  assumes wf: "forward_wf s" and link: "sink_link s"
  shows "returns (ksi_linux_forward_release_all v s) (\<lambda>t. steady s t \<and> (\<forall>w. w \<noteq> v \<longrightarrow> views_of w t = views_of w s)
     \<and> (\<forall>i < 128. live (fs_devices s ! i) \<longrightarrow> held (fk_output (keys_at i v t)) = {} \<and> held (fk_displaced (keys_at i v t)) = {}))"
proof -
  let ?live = "\<lambda>i. live (fs_devices s ! i)"
  define P where "P n t \<longleftrightarrow> steady s t \<and> (\<forall>w. w \<noteq> v \<longrightarrow> views_of w t = views_of w s)
     \<and> (\<forall>i < n. ?live i \<longrightarrow> held (fk_output (keys_at i v t)) = {} \<and> held (fk_displaced (keys_at i v t)) = {})" for n t
  have "returns (ksi_linux_forward_release_all v s) (P (fs_slot_limit s))"
    unfolding ksi_linux_forward_release_all_def
  proof (rule returns_mem_for_upt)
    show "P 0 s" using steady_refl [OF wf link] by (simp add: P_def)
    fix n t assume n: "n < fs_slot_limit s" and p: "P n t"
    have t: "steady s t" "forward_wf t" "sink_link t" and n128: "n < 128" using p n wf_limit [OF wf] steadyD by (auto simp: P_def)
    have live: "live (fs_devices t ! n) = ?live n" using frame_live [OF steadyD(3) [OF t(1)]] n128 by (simp add: wf_length [OF wf])
    have "P (Suc n) u" if u: "changes n v k' t u" "held (fk_output k') = {}" "held (fk_displaced k') = {}" for u k'
    proof -
      have "keys_at n v u = k'" by (rule changes_keys_at [OF u(1) t(2) n128])
      moreover have "keys_at j v u = keys_at j v t" if "j < n" for j using changes_others [OF u(1) t(2), of j v] that n128 by simp
      ultimately show ?thesis using p u steady_trans [OF t(1)] by (auto simp: P_def less_Suc_eq changes_def)
    qed
    moreover have "P (Suc n) t" if "\<not> ?live n" using p that by (auto simp: P_def less_Suc_eq)
    ultimately show "returns (do { d \<leftarrow> get_device n t; if live d then release_outputs_locked n v None t else Some t }) (P (Suc n))"
      using release_outputs_spec [OF t(2,3) n128, of None v]
      by (auto simp: get_device_in [OF t(2) n128] live keep_ok_def kept_keys_def elim!: returns_mono)
  qed
  moreover have "i < fs_slot_limit s" if "i < 128" "?live i" for i using that wf_open [OF wf] by (simp add: live_def)
  ultimately show ?thesis by (elim returns_mono) (simp add: P_def)
qed

lemma release_all_inv:
  assumes inv: "forward_inv s"
  shows "returns (ksi_linux_forward_release_all v s) (\<lambda>t. forward_inv t \<and> frame s t)"
  by (rule returns_mono [OF release_all_spec [OF forward_invD(1,2) [OF inv]]]) (auto dest: steady_inv [OF _ inv])

section \<open>Noted keys\<close>

definition packet_wf :: "ksi_forward_packet \<Rightarrow> bool" where
  "packet_wf p \<longleftrightarrow> length (pk_events p) = KSI_FORWARD_PACKET_EVENTS"

lemma key_values_returns: "packet_wf p \<Longrightarrow> ksi_forward_key_values p \<noteq> None"
proof -
  assume wf: "packet_wf p"
  have "returns (ksi_forward_key_values p) (\<lambda>_. True)" unfolding ksi_forward_key_values_def
    by (rule returns_mem_for_inv) (use wf in \<open>auto simp: packet_wf_def arr_get_def\<close>)
  then show ?thesis by (auto simp: returns_ex)
qed

lemma note_key_event_steady:
  assumes wf: "forward_wf s" and link: "sink_link s" and dev: "dev < 128" and i: "i < length (pk_events p)" and v: "source \<or> v = KSI_FORWARD_ENQUEUED"
  shows "returns (note_key_event dev p v source i s) (steady s)"
proof -
  let ?e = "pk_events p ! i" and ?k = "keys_at dev v s" and ?d = "fs_devices s ! dev"
  have ko: "keys_ok ?k" using wf_keys [OF wf dev] by (simp add: keys_at_def)
  show ?thesis
  proof (cases "fe_type ?e \<noteq> EV_KEY \<or> unat (fe_code ?e) > KEY_MAX \<or> fe_value ?e = 2")
    case True
    then show ?thesis using i steady_refl [OF wf link] by (simp add: note_key_event_def arr_get_def)
  next
    case False
    then have code: "unat (fe_code ?e) \<le> KEY_MAX" by simp
    note set_bit = set_key_bit_eq [OF _ code]
    obtain a where a: "ksi_set_key_bit (fk_source ?k) (fe_code ?e) (fe_value ?e \<noteq> 0) = Some a" "bitmap a"
      using set_bit ko by (metis keys_ok_def)
    obtain b where b: "ksi_set_key_bit (fk_output ?k) (fe_code ?e) (fe_value ?e \<noteq> 0) = Some b" "bitmap b"
      using set_bit ko by (metis keys_ok_def)
    obtain c where c: "ksi_set_key_bit (fk_displaced ?k) (fe_code ?e) False = Some c" "bitmap c"
      using set_bit ko by (metis keys_ok_def)
    define k where "k = (let k = (if source then ?k\<lparr>fk_source := a\<rparr> else ?k\<lparr>fk_output := b\<rparr>)
      in if source \<and> fe_value ?e = 0 then k\<lparr>fk_displaced := c\<rparr> else k)"
    have k: "keys_ok k" using ko a(2) b(2) c(2) by (simp add: k_def keys_ok_def Let_def)
    have "wants (set_keys v k ?d) = wants ?d"
      using v by (cases source) (auto simp: wants_set_keys k_def Let_def keys_at_def)
    then have "steady s (s\<lparr>fs_devices := (fs_devices s)[dev := set_keys v k ?d]\<rparr>)"
      using put_keys_changes [OF wf link dev k] changes_steady by blast
    moreover have "note_key_event dev p v source i s = Some (s\<lparr>fs_devices := (fs_devices s)[dev := set_keys v k ?d]\<rparr>)"
      using False i a(1) b(1) c(1)
      by (simp add: note_key_event_def arr_get_def get_device_in [OF wf dev] put_device_in [OF wf dev] keys_at_def [symmetric] k_def Let_def)
    ultimately show ?thesis by simp
  qed
qed

lemma note_keys_inv:
  assumes inv: "forward_inv s" and p: "packet_wf p" and v: "source \<or> v = KSI_FORWARD_ENQUEUED"
  shows "returns (note_keys p v source s) (\<lambda>t. forward_inv t \<and> frame s t)"
proof -
  note i = forward_invD [OF inv]
  obtain r where r: "find_device_locked (pk_target p) v s = Some r" "\<And>i. r = Some i \<Longrightarrow> i < 128"
    using find_device [OF i(1)] by metis
  have "returns (note_keys p v source s) (steady s)"
  proof (cases "unat (pk_count p) > KSI_FORWARD_PACKET_EVENTS")
    case False
    have "returns (mem_for (note_key_event dev p v source) [0..<unat (pk_count p)] s) (steady s)" if "dev < 128" for dev
      using False p that
      by (intro returns_mem_for_inv steady_refl [OF i(1,2)])
        (auto simp: packet_wf_def intro!: returns_mono [OF note_key_event_steady [OF _ _ _ _ v]] dest: steadyD intro: steady_trans)
    with False r key_values_returns [OF p] steady_refl [OF i(1,2)] show ?thesis
      by (auto simp: note_keys_def split: option.split)
  qed (use steady_refl [OF i(1,2)] in \<open>simp add: note_keys_def\<close>)
  then show ?thesis by (rule returns_mono) (rule steady_inv [OF _ inv])
qed

section \<open>Ending grabs and closing\<close>

text \<open>Replacing a device by one that wants the same keys.\<close>

lemma put_inv:
  assumes inv: "forward_inv s" and i: "i < 128" and d: "device_ok i d" "fd_open d \<Longrightarrow> i < fs_slot_limit s" "wants d = wants (fs_devices s ! i)"
  shows "forward_inv (s\<lparr>fs_devices := (fs_devices s)[i := d]\<rparr>)"
proof -
  have "forward_wf (s\<lparr>fs_devices := (fs_devices s)[i := d]\<rparr>)" by (rule wf_update [OF forward_invD(1) [OF inv] i d(1,2)])
  moreover have "wanted (s\<lparr>fs_devices := (fs_devices s)[i := d]\<rparr>) = wanted s" by (rule wanted_update [OF d(3)]) simp_all
  ultimately show ?thesis using forward_invD [OF inv] by (simp add: forward_inv_def sink_link_def unstuck_def ready_def)
qed

lemma serial_insensitive [simp]: "forward_inv (t\<lparr>fs_next_serial := n\<rparr>) = forward_inv t"
  by (simp add: forward_inv_def forward_wf_def sink_link_def unstuck_def ready_def wanted_def)

lemma close_inv:
  assumes inv: "forward_inv s"
  shows "returns (ksi_linux_forward_close target s) forward_inv"
proof -
  note wf = forward_invD(1) [OF inv]
  obtain r where r: "find_device_locked target KSI_FORWARD_ENQUEUED s = Some r" "\<And>i. r = Some i \<Longrightarrow> i < 128"
    using find_device [OF wf] by metis
  show ?thesis
  proof (cases r)
    case None
    with r inv show ?thesis by (simp add: ksi_linux_forward_close_def)
  next
    case (Some i)
    let ?d = "fs_devices s ! i"
    let ?d' = "(set_target KSI_FORWARD_ENQUEUED 0 (set_keys KSI_FORWARD_ENQUEUED zero_forward_keys ?d))\<lparr>fd_closing := True\<rparr>"
    have i: "i < 128" using r Some by simp
    have "device_ok i ?d'" using wf_device_ok [OF wf i] bitmap_zero(1)
      by (auto simp: device_ok_def set_target_def set_keys_def keys_ok_def zero_forward_keys_def)
    moreover have "wants ?d' = wants ?d" by (simp add: wants_def set_target_def set_keys_def live_def)
    moreover have "fd_open ?d' = fd_open ?d" by (simp add: set_target_def set_keys_def)
    ultimately have "forward_inv (s\<lparr>fs_devices := (fs_devices s)[i := ?d']\<rparr>)"
      using wf_open [OF wf i] by (intro put_inv [OF inv i]) simp_all
    with Some r i show ?thesis
      by (simp add: ksi_linux_forward_close_def get_device_in [OF wf] put_device_in [OF wf])
  qed
qed

text \<open>Setting a target that names the slot keeps the invariant.\<close>

lemma set_target_inv:
  assumes inv: "forward_inv s" and i: "i < 128" and t: "unat (t AND 0xff) = i + 1" and open1: "fd_open (fs_devices s ! i)"
  shows "forward_inv (s\<lparr>fs_devices := (fs_devices s)[i := set_target v t (fs_devices s ! i)]\<rparr>)"
proof (rule put_inv [OF inv i])
  note wf = forward_invD(1) [OF inv]
  show "device_ok i (set_target v t (fs_devices s ! i))"
    using wf_device_ok [OF wf i] t open1 by (auto simp: device_ok_def set_target_def)
  show "i < fs_slot_limit s" using wf_open [OF wf i] open1 by simp
  show "wants (set_target v t (fs_devices s ! i)) = wants (fs_devices s ! i)" by (simp add: wants_def set_target_def live_def)
qed

lemma apply_end_grab_inv:
  assumes inv: "forward_inv s" and keep: "keep_ok keys"
  shows "returns (ksi_linux_forward_apply_end_grab next keys s) forward_inv"
proof (cases "unat (next AND 0xff) \<noteq> 0 \<and> unat (next AND 0xff) \<le> 128")
  case False
  then show ?thesis using inv by (auto simp: ksi_linux_forward_apply_end_grab_def Let_def)
next
  case True
  define i where "i = unat (next AND 0xff) - 1"
  have i: "i < 128" "unat (next AND 0xff) = i + 1" using True by (auto simp: i_def)
  note wf = forward_invD(1) [OF inv] and link = forward_invD(2) [OF inv]
  have "returns (do { s \<leftarrow> end_grab_locked i KSI_FORWARD_APPLIED keys s; d \<leftarrow> get_device i s; put_device i (set_target KSI_FORWARD_APPLIED next d) s }) forward_inv"
    if live: "live (fs_devices s ! i)"
  proof (rule returns_bind [OF end_grab_locked_spec [OF wf link i(1) keep refl]])
    fix t assume "\<exists>k'. changes i KSI_FORWARD_APPLIED k' s t \<and> fk_source k' = fk_source (keys_at i KSI_FORWARD_APPLIED s)
      \<and> held (fk_output k') = held (fk_output (keys_at i KSI_FORWARD_APPLIED s)) \<inter> (case keys of Some k \<Rightarrow> held k | None \<Rightarrow> held (fk_source (keys_at i KSI_FORWARD_APPLIED s)))
      \<and> held (fk_displaced k') = {}"
    then have st: "steady s t" by (auto dest: changes_steady)
    then have t: "forward_inv t" "frame s t" using steady_inv [OF _ inv] by auto
    have wt: "forward_wf t" by (rule forward_invD(1) [OF t(1)])
    have "live (fs_devices t ! i)" using frame_live [OF t(2)] i live wf_length [OF wf] by simp
    then have "fd_open (fs_devices t ! i)" by (simp add: live_def)
    from set_target_inv [OF t(1) i(1) i(2) this]
    show "returns (do { d \<leftarrow> get_device i t; put_device i (set_target KSI_FORWARD_APPLIED next d) t }) forward_inv"
      by (simp add: get_device_in [OF wt i(1)] put_device_in [OF wt i(1)])
  qed
  then show ?thesis using i(1) inv
    by (simp add: ksi_linux_forward_apply_end_grab_def Let_def i(2) get_device_in [OF wf i(1)])
qed

lemma new_target_slot:
  assumes "i < 128"
  shows "unat ((push_bit 8 (n :: u64) OR of_nat (i + 1)) AND 0xff) = i + 1"
proof -
  have "(0xff :: u64) = mask 8" by (simp add: mask_eq_exp_minus_1)
  then have "(push_bit 8 n OR of_nat (i + 1)) AND 0xff = take_bit 8 (push_bit 8 n OR of_nat (i + 1))" by (simp only: take_bit_eq_mask)
  also have "\<dots> = take_bit 8 (of_nat (i + 1))" by (simp only: take_bit_or take_bit_push_bit) simp
  finally show ?thesis using assms
    by (simp only: unsigned_take_bit_eq unsigned_of_nat) (simp add: take_bit_nat_eq_self)
qed

lemma end_grab_inv:
  assumes inv: "forward_inv s" and keys: "KSI_KEY_BITMAP_BYTES \<le> length keys"
  shows "returns (ksi_linux_forward_end_grab target keys s) (\<lambda>(t, keys', s'). forward_inv s')"
proof -
  note wf = forward_invD(1) [OF inv] and link = forward_invD(2) [OF inv]
  obtain r where r: "find_device_locked target KSI_FORWARD_ENQUEUED s = Some r" "\<And>i. r = Some i \<Longrightarrow> i < 128 \<and> live (fs_devices s ! i)"
    using find_device [OF wf] by metis
  show ?thesis
  proof (cases r)
    case None
    with r inv keys show ?thesis by (simp add: ksi_linux_forward_end_grab_def mem_simps)
  next
    case (Some i)
    then have i: "i < 128" and live: "live (fs_devices s ! i)" using r(2) by auto
    have src: "mem_read (fk_source (fd_views (fs_devices s ! i) KSI_FORWARD_ENQUEUED)) 0 KSI_KEY_BITMAP_BYTES
        = Some (fk_source (fd_views (fs_devices s ! i) KSI_FORWARD_ENQUEUED))"
      using wf_keys [OF wf i] by (simp add: mem_read_def keys_ok_def bitmap_def get_bytes_def)
    have copy: "mem_copy (put_bytes keys 0 (replicate KSI_KEY_BITMAP_BYTES 0)) 0 (fk_source (fd_views (fs_devices s ! i) KSI_FORWARD_ENQUEUED)) \<noteq> None"
      using keys wf_keys [OF wf i] by (simp add: mem_copy_def keys_ok_def bitmap_def)
    have after: "returns (do { s \<leftarrow> end_grab_locked i KSI_FORWARD_ENQUEUED None s; let (target, s) = new_target_locked i s; d \<leftarrow> get_device i s;
        s \<leftarrow> put_device i (set_target KSI_FORWARD_ENQUEUED target d) s; Some (target, keys', s) }) (\<lambda>(t, keys', s'). forward_inv s')" for keys'
    proof (rule returns_bind [OF end_grab_locked_spec [OF wf link i _ refl]], simp add: keep_ok_def)
      fix t assume "\<exists>k'. changes i KSI_FORWARD_ENQUEUED k' s t \<and> fk_source k' = fk_source (keys_at i KSI_FORWARD_ENQUEUED s)
        \<and> held (fk_output k') = held (fk_output (keys_at i KSI_FORWARD_ENQUEUED s)) \<inter> (case None of Some k \<Rightarrow> held k | None \<Rightarrow> held (fk_source (keys_at i KSI_FORWARD_ENQUEUED s)))
        \<and> held (fk_displaced k') = {}"
      then have "steady s t" by (auto dest: changes_steady)
      then have t: "forward_inv (t\<lparr>fs_next_serial := fs_next_serial t + 1\<rparr>)" "frame s t" using steady_inv [OF _ inv] by auto
      let ?t = "t\<lparr>fs_next_serial := fs_next_serial t + 1\<rparr>"
      have wt: "forward_wf ?t" by (rule forward_invD(1) [OF t(1)])
      have "fd_open (fs_devices ?t ! i)" using frame_live [OF t(2), of i] i live wf_length [OF wf] by (simp add: live_def)
      from set_target_inv [OF t(1) i new_target_slot [OF i, of "fs_next_serial t"] this, of KSI_FORWARD_ENQUEUED]
      show "returns (let (target, s) = new_target_locked i t in do { d \<leftarrow> get_device i s;
        s \<leftarrow> put_device i (set_target KSI_FORWARD_ENQUEUED target d) s; Some (target, keys', s) }) (\<lambda>(t, keys', s'). forward_inv s')"
        by (simp add: new_target_locked_def get_device_in [OF wt i] put_device_in [OF wt i])
    qed
    from copy obtain keys1 where "mem_copy (put_bytes keys 0 (replicate KSI_KEY_BITMAP_BYTES 0)) 0 (fk_source (fd_views (fs_devices s ! i) KSI_FORWARD_ENQUEUED)) = Some keys1" by auto
    with Some r keys src after [of keys1] show ?thesis
      by (simp add: ksi_linux_forward_end_grab_def mem_zero_def mem_copy_def get_device_in [OF wf i] split: if_splits)
  qed
qed

lemma zero_device_ok: "device_ok i zero_forwarding_device" "wants zero_forwarding_device = {}" "\<not> fd_open zero_forwarding_device"
  using bitmap_zero(1)
  by (simp_all add: device_ok_def zero_forwarding_device_def keys_ok_def zero_forward_keys_def wants_def live_def)

text \<open>The end of a close: the slot is emptied, or its device retires with no keys.\<close>

lemma retire_inv:
  assumes inv: "forward_inv s" and i: "i < 128" and none: "held (fk_output (keys_at i KSI_FORWARD_APPLIED s)) = {}"
    and open1: "fd_open (fs_devices s ! i)"
  shows "returns (do { d \<leftarrow> get_device i s;
    s \<leftarrow> (if fd_output d = None then put_device i zero_forwarding_device s
      else do { s \<leftarrow> put_device i (d\<lparr>fd_views := \<lambda>_. zero_forward_keys, fd_retiring := True, fd_retire_ms := ms\<rparr>) s;
        Some (s\<lparr>fs_retiring_count := fs_retiring_count s + 1\<rparr>) });
    Some (s\<lparr>fs_target_epoch := fs_target_epoch s + 1\<rparr>) }) forward_inv"
proof -
  note wf = forward_invD(1) [OF inv]
  let ?d = "fs_devices s ! i" and ?r = "(fs_devices s ! i)\<lparr>fd_views := \<lambda>_. zero_forward_keys, fd_retiring := True, fd_retire_ms := ms\<rparr>"
  have w: "wants ?d = {}" using none by (simp add: wants_def keys_at_def)
  have "forward_inv (s\<lparr>fs_devices := (fs_devices s)[i := zero_forwarding_device]\<rparr>)"
    using zero_device_ok w by (intro put_inv [OF inv i]) simp_all
  moreover have "forward_inv (s\<lparr>fs_devices := (fs_devices s)[i := ?r]\<rparr>)" if "fd_output ?d \<noteq> None"
  proof (rule put_inv [OF inv i])
    show "device_ok i ?r" using wf_device_ok [OF wf i] open1 that bitmap_zero(1)
      by (auto simp: device_ok_def keys_ok_def zero_forward_keys_def)
    show "i < fs_slot_limit s" using wf_open [OF wf i] open1 by simp
    show "wants ?r = wants ?d" using w by (simp add: wants_def live_def)
  qed
  ultimately show ?thesis by (simp add: get_device_in [OF wf i] put_device_in [OF wf i])
qed

lemma apply_close_inv:
  assumes inv: "forward_inv s"
  shows "returns (ksi_linux_forward_apply_close clock target s) forward_inv"
proof (cases "unat (target AND 0xff) \<noteq> 0 \<and> unat (target AND 0xff) \<le> 128")
  case False
  then show ?thesis using inv by (auto simp: ksi_linux_forward_apply_close_def Let_def)
next
  case True
  define i where "i = unat (target AND 0xff) - 1"
  have i: "i < 128" "unat (target AND 0xff) = i + 1" using True by (auto simp: i_def)
  note wf = forward_invD(1) [OF inv] and link = forward_invD(2) [OF inv]
  have main: "returns (do { s \<leftarrow> end_open_reports_locked i s; s \<leftarrow> release_outputs_locked i KSI_FORWARD_APPLIED None s; d \<leftarrow> get_device i s;
      s \<leftarrow> (if fd_output d = None then put_device i zero_forwarding_device s
        else do { s \<leftarrow> put_device i (d\<lparr>fd_views := \<lambda>_. zero_forward_keys, fd_retiring := True, fd_retire_ms := ksi_linux_monotonic_ms clock\<rparr>) s;
          Some (s\<lparr>fs_retiring_count := fs_retiring_count s + 1\<rparr>) });
      Some (s\<lparr>fs_target_epoch := fs_target_epoch s + 1\<rparr>) }) forward_inv" if live: "live (fs_devices s ! i)"
  proof (rule returns_bind [OF end_open_reports_spec [OF wf link i(1)]])
    fix t assume "steady s t \<and> (\<forall>v. views_of v t = views_of v s)"
    then have t: "forward_inv t" "frame s t" using steady_inv [OF _ inv] by auto
    show "returns (do { s \<leftarrow> release_outputs_locked i KSI_FORWARD_APPLIED None t; d \<leftarrow> get_device i s;
      s \<leftarrow> (if fd_output d = None then put_device i zero_forwarding_device s
        else do { s \<leftarrow> put_device i (d\<lparr>fd_views := \<lambda>_. zero_forward_keys, fd_retiring := True, fd_retire_ms := ksi_linux_monotonic_ms clock\<rparr>) s;
          Some (s\<lparr>fs_retiring_count := fs_retiring_count s + 1\<rparr>) });
      Some (s\<lparr>fs_target_epoch := fs_target_epoch s + 1\<rparr>) }) forward_inv"
    proof (rule returns_bind [OF release_outputs_spec [OF forward_invD(1,2) [OF t(1)] i(1)]])
      show "keep_ok None" by (simp add: keep_ok_def)
      fix u assume "\<exists>k'. changes i KSI_FORWARD_APPLIED k' t u \<and> fk_source k' = fk_source (keys_at i KSI_FORWARD_APPLIED t)
        \<and> held (fk_output k') = held (fk_output (keys_at i KSI_FORWARD_APPLIED t)) \<inter> kept_keys None
        \<and> held (fk_displaced k') = held (fk_displaced (keys_at i KSI_FORWARD_APPLIED t)) \<inter> kept_keys None"
      then obtain k' where k: "changes i KSI_FORWARD_APPLIED k' t u" "held (fk_output k') = {}" by (auto simp: kept_keys_def)
      then have u: "forward_inv u" "frame t u" using steady_inv [OF changes_steady t(1)] by auto
      have "keys_at i KSI_FORWARD_APPLIED u = k'" by (rule changes_keys_at [OF k(1) forward_invD(1) [OF t(1)] i(1)])
      moreover have "fd_open (fs_devices u ! i)"
        using frame_live [OF frame_trans [OF t(2) u(2)], of i] i live wf_length [OF wf] by (simp add: live_def)
      ultimately show "returns (do { d \<leftarrow> get_device i u;
      s \<leftarrow> (if fd_output d = None then put_device i zero_forwarding_device u
        else do { s \<leftarrow> put_device i (d\<lparr>fd_views := \<lambda>_. zero_forward_keys, fd_retiring := True, fd_retire_ms := ksi_linux_monotonic_ms clock\<rparr>) u;
          Some (s\<lparr>fs_retiring_count := fs_retiring_count s + 1\<rparr>) });
      Some (s\<lparr>fs_target_epoch := fs_target_epoch s + 1\<rparr>) }) forward_inv"
        using retire_inv [OF u(1) i(1)] k(2) by simp
    qed
  qed
  have skip: "ksi_linux_forward_apply_close clock target s = Some s" if "\<not> (fd_closing (fs_devices s ! i) \<and> live (fs_devices s ! i))"
    using that i(1) by (auto simp: ksi_linux_forward_apply_close_def Let_def i(2) get_device_in [OF wf i(1)])
  have run: "ksi_linux_forward_apply_close clock target s = do { s \<leftarrow> end_open_reports_locked i s;
      s \<leftarrow> release_outputs_locked i KSI_FORWARD_APPLIED None s; d \<leftarrow> get_device i s;
      s \<leftarrow> (if fd_output d = None then put_device i zero_forwarding_device s
        else do { s \<leftarrow> put_device i (d\<lparr>fd_views := \<lambda>_. zero_forward_keys, fd_retiring := True, fd_retire_ms := ksi_linux_monotonic_ms clock\<rparr>) s;
          Some (s\<lparr>fs_retiring_count := fs_retiring_count s + 1\<rparr>) });
      Some (s\<lparr>fs_target_epoch := fs_target_epoch s + 1\<rparr>) }" if "fd_closing (fs_devices s ! i) \<and> live (fs_devices s ! i)"
    using that i(1) by (simp add: ksi_linux_forward_apply_close_def Let_def i(2) get_device_in [OF wf i(1)] cong: if_cong)
  show ?thesis
  proof (cases "fd_closing (fs_devices s ! i) \<and> live (fs_devices s ! i)")
    case True
    show ?thesis unfolding run [OF True] by (rule main) (use True in simp)
  next
    case False
    show ?thesis unfolding skip [OF False] using inv by simp
  qed
qed

section \<open>Keys never get stuck\<close>

text \<open>
  The operations on key state and on the keyboard sink, in any order and with any answers of the
  devices written to: synthesis presses, taps and releases keys, takes over and gives back physical
  keys, source and output transitions are noted, grabs end, devices are closed (on the enqueueing side and
  then on the applying side), and the sink is attached or replaced.
\<close>

inductive key_step :: "forward_state \<Rightarrow> forward_state \<Rightarrow> bool" where
  sink_key: "ksi_linux_forward_sink_key code down s = Some (r, t) \<Longrightarrow> key_step s t"
| sink_tap: "ksi_linux_forward_sink_tap code s = Some (r, t) \<Longrightarrow> key_step s t"
| sink_repress: "ksi_linux_forward_sink_repress code s = Some (r, t) \<Longrightarrow> key_step s t"
| sink_clear_synth: "ksi_linux_forward_sink_clear_synth s = Some t \<Longrightarrow> key_step s t"
| attach_sink: "key_step s (ksi_linux_forward_attach_sink fd s)"
| release_key: "ksi_linux_forward_release_key code view s = Some t \<Longrightarrow> key_step s t"
| restore_key: "ksi_linux_forward_restore_key code view s = Some (b, t) \<Longrightarrow> key_step s t"
| release_all: "ksi_linux_forward_release_all view s = Some t \<Longrightarrow> key_step s t"
| note_output: "packet_wf p \<Longrightarrow> ksi_linux_forward_note_output p s = Some t \<Longrightarrow> key_step s t"
| note_source: "packet_wf p \<Longrightarrow> ksi_linux_forward_note_source p view s = Some t \<Longrightarrow> key_step s t"
| end_grab: "KSI_KEY_BITMAP_BYTES \<le> length keys \<Longrightarrow> ksi_linux_forward_end_grab target keys s = Some (next, keys', t) \<Longrightarrow> key_step s t"
| apply_end_grab: "keep_ok keys \<Longrightarrow> ksi_linux_forward_apply_end_grab next keys s = Some t \<Longrightarrow> key_step s t"
| close: "ksi_linux_forward_close target s = Some t \<Longrightarrow> key_step s t"
| apply_close: "ksi_linux_forward_apply_close clock target s = Some t \<Longrightarrow> key_step s t"

lemma note_inv:
  assumes "forward_inv s" and "packet_wf p"
  shows "returns (ksi_linux_forward_note_output p s) forward_inv" "returns (ksi_linux_forward_note_source p view s) forward_inv"
  unfolding ksi_linux_forward_note_output_def ksi_linux_forward_note_source_def
  by (rule returns_mono [OF note_keys_inv [OF assms]]; simp)+

lemma key_step_inv:
  assumes "key_step s t" and "forward_inv s"
  shows "forward_inv t"
  using assms(1)
proof cases
  case (sink_key code down r)
  with sink_key_inv [OF assms(2), of code down] show ?thesis by simp
next
  case (sink_tap code r)
  with sink_repress_inv(1) [OF assms(2), of code] show ?thesis by simp
next
  case (sink_repress code r)
  with sink_repress_inv(2) [OF assms(2), of code] show ?thesis by simp
next
  case sink_clear_synth
  with sink_clear_synth_inv [OF assms(2)] show ?thesis by simp
next
  case (attach_sink fd)
  with attach_sink_inv [OF assms(2)] show ?thesis by simp
next
  case (release_key code view)
  with shift_key_inv(1) [OF assms(2), of code view] show ?thesis by simp
next
  case (restore_key code view b)
  with shift_key_inv(2) [OF assms(2), of code view] show ?thesis by simp
next
  case (release_all view)
  with release_all_inv [OF assms(2), of view] show ?thesis by simp
next
  case (note_output p)
  with note_inv(1) [OF assms(2), of p] show ?thesis by simp
next
  case (note_source p view)
  with note_inv(2) [OF assms(2), of p view] show ?thesis by simp
next
  case (end_grab keys target nxt keys')
  with end_grab_inv [OF assms(2), of keys target] show ?thesis by simp
next
  case (apply_end_grab keys nxt)
  with apply_end_grab_inv [OF assms(2), of keys nxt] show ?thesis by simp
next
  case (close target)
  with close_inv [OF assms(2), of target] show ?thesis by simp
next
  case (apply_close clock target)
  with apply_close_inv [OF assms(2), of clock target] show ?thesis by simp
qed

text \<open>
  C5. No key gets stuck on the shared virtual keyboard. Start from any state whose tables are well
  formed, whose sink bitmap is what the desktop has seen, and in which every key down on the sink is
  wanted (the state at start-up is one). After any sequence of the operations on key state, grabs, closing
  and sink, whichever writes fail, the tables are still well formed and every key that the desktop sees down on a
  working sink is wanted: synthesis holds it, or a forwarded keyboard does. Every further operation
  stays inside its tables.
\<close>

theorem no_stuck_keys:
  assumes "forward_inv s0" and "key_step\<^sup>*\<^sup>* s0 s"
  shows "forward_wf s \<and> (ready s \<longrightarrow> desktop_keys (fs_log s) \<subseteq> wanted s)
    \<and> ksi_linux_forward_sink_key code down s \<noteq> None \<and> ksi_linux_forward_sink_tap code s \<noteq> None
    \<and> ksi_linux_forward_sink_repress code s \<noteq> None \<and> ksi_linux_forward_sink_clear_synth s \<noteq> None
    \<and> ksi_linux_forward_release_key code view s \<noteq> None \<and> ksi_linux_forward_restore_key code view s \<noteq> None
    \<and> ksi_linux_forward_release_all view s \<noteq> None
    \<and> ksi_linux_forward_close target s \<noteq> None \<and> ksi_linux_forward_apply_close clock target s \<noteq> None"
proof -
  have inv: "forward_inv s" using assms(2,1) by (induction rule: rtranclp_induct) (use key_step_inv in blast)+
  then have "forward_wf s" "ready s \<longrightarrow> desktop_keys (fs_log s) \<subseteq> wanted s"
    by (auto simp: forward_inv_def unstuck_def sink_link_def)
  moreover note sink_key_inv [OF inv, of code down] sink_repress_inv [OF inv, of code] sink_clear_synth_inv [OF inv]
    shift_key_inv [OF inv, of code view] release_all_inv [OF inv, of view] close_inv [OF inv, of target] apply_close_inv [OF inv, of clock target]
  ultimately show ?thesis by (auto simp: returns_ex)
qed

theorem no_stuck_keys_witness:
  "\<exists>s. key_step\<^sup>*\<^sup>* (initial_forward_state (\<lambda>_. True)) s \<and> forward_wf s \<and> ready s \<and> desktop_keys (fs_log s) \<subseteq> wanted s"
proof -
  let ?start = "initial_forward_state (\<lambda>_. True)"
  let ?after = "ksi_linux_forward_attach_sink 5 ?start"
  have "key_step ?start ?after" by (rule key_step.attach_sink)
  then have run: "key_step\<^sup>*\<^sup>* ?start ?after" by (rule r_into_rtranclp)
  have "ready ?after" by (simp add: ready_def ksi_linux_forward_attach_sink_def Let_def)
  with no_stuck_keys [OF initial_inv run] run show ?thesis by blast
qed




end
