(* ===== verification/Vk_Evdev.thy ===== *)
theory Vk_Evdev
  imports Linux_Keys
begin

text \<open>
  The table between Windows virtual keys and kernel key codes, src/src/platform/vk_evdev.c, with
  its first-match lookups. The kernel's key codes are those of linux/input-event-codes.h.
\<close>

section \<open>Key codes of the kernel interface\<close>

definition KEY_ESC :: int where [simp]: "KEY_ESC = 1"
definition KEY_1 :: int where [simp]: "KEY_1 = 2"
definition KEY_2 :: int where [simp]: "KEY_2 = 3"
definition KEY_3 :: int where [simp]: "KEY_3 = 4"
definition KEY_4 :: int where [simp]: "KEY_4 = 5"
definition KEY_5 :: int where [simp]: "KEY_5 = 6"
definition KEY_6 :: int where [simp]: "KEY_6 = 7"
definition KEY_7 :: int where [simp]: "KEY_7 = 8"
definition KEY_8 :: int where [simp]: "KEY_8 = 9"
definition KEY_9 :: int where [simp]: "KEY_9 = 10"
definition KEY_0 :: int where [simp]: "KEY_0 = 11"
definition KEY_MINUS :: int where [simp]: "KEY_MINUS = 12"
definition KEY_EQUAL :: int where [simp]: "KEY_EQUAL = 13"
definition KEY_BACKSPACE :: int where [simp]: "KEY_BACKSPACE = 14"
definition KEY_TAB :: int where [simp]: "KEY_TAB = 15"
definition KEY_Q :: int where [simp]: "KEY_Q = 16"
definition KEY_W :: int where [simp]: "KEY_W = 17"
definition KEY_E :: int where [simp]: "KEY_E = 18"
definition KEY_R :: int where [simp]: "KEY_R = 19"
definition KEY_T :: int where [simp]: "KEY_T = 20"
definition KEY_Y :: int where [simp]: "KEY_Y = 21"
definition KEY_U :: int where [simp]: "KEY_U = 22"
definition KEY_I :: int where [simp]: "KEY_I = 23"
definition KEY_O :: int where [simp]: "KEY_O = 24"
definition KEY_P :: int where [simp]: "KEY_P = 25"
definition KEY_LEFTBRACE :: int where [simp]: "KEY_LEFTBRACE = 26"
definition KEY_RIGHTBRACE :: int where [simp]: "KEY_RIGHTBRACE = 27"
definition KEY_ENTER :: int where [simp]: "KEY_ENTER = 28"
definition KEY_LEFTCTRL :: int where [simp]: "KEY_LEFTCTRL = 29"
definition KEY_A :: int where [simp]: "KEY_A = 30"
definition KEY_S :: int where [simp]: "KEY_S = 31"
definition KEY_D :: int where [simp]: "KEY_D = 32"
definition KEY_F :: int where [simp]: "KEY_F = 33"
definition KEY_G :: int where [simp]: "KEY_G = 34"
definition KEY_H :: int where [simp]: "KEY_H = 35"
definition KEY_J :: int where [simp]: "KEY_J = 36"
definition KEY_K :: int where [simp]: "KEY_K = 37"
definition KEY_L :: int where [simp]: "KEY_L = 38"
definition KEY_SEMICOLON :: int where [simp]: "KEY_SEMICOLON = 39"
definition KEY_APOSTROPHE :: int where [simp]: "KEY_APOSTROPHE = 40"
definition KEY_GRAVE :: int where [simp]: "KEY_GRAVE = 41"
definition KEY_LEFTSHIFT :: int where [simp]: "KEY_LEFTSHIFT = 42"
definition KEY_BACKSLASH :: int where [simp]: "KEY_BACKSLASH = 43"
definition KEY_Z :: int where [simp]: "KEY_Z = 44"
definition KEY_X :: int where [simp]: "KEY_X = 45"
definition KEY_C :: int where [simp]: "KEY_C = 46"
definition KEY_V :: int where [simp]: "KEY_V = 47"
definition KEY_B :: int where [simp]: "KEY_B = 48"
definition KEY_N :: int where [simp]: "KEY_N = 49"
definition KEY_M :: int where [simp]: "KEY_M = 50"
definition KEY_COMMA :: int where [simp]: "KEY_COMMA = 51"
definition KEY_DOT :: int where [simp]: "KEY_DOT = 52"
definition KEY_SLASH :: int where [simp]: "KEY_SLASH = 53"
definition KEY_RIGHTSHIFT :: int where [simp]: "KEY_RIGHTSHIFT = 54"
definition KEY_KPASTERISK :: int where [simp]: "KEY_KPASTERISK = 55"
definition KEY_LEFTALT :: int where [simp]: "KEY_LEFTALT = 56"
definition KEY_SPACE :: int where [simp]: "KEY_SPACE = 57"
definition KEY_CAPSLOCK :: int where [simp]: "KEY_CAPSLOCK = 58"
definition KEY_F1 :: int where [simp]: "KEY_F1 = 59"
definition KEY_F2 :: int where [simp]: "KEY_F2 = 60"
definition KEY_F3 :: int where [simp]: "KEY_F3 = 61"
definition KEY_F4 :: int where [simp]: "KEY_F4 = 62"
definition KEY_F5 :: int where [simp]: "KEY_F5 = 63"
definition KEY_F6 :: int where [simp]: "KEY_F6 = 64"
definition KEY_F7 :: int where [simp]: "KEY_F7 = 65"
definition KEY_F8 :: int where [simp]: "KEY_F8 = 66"
definition KEY_F9 :: int where [simp]: "KEY_F9 = 67"
definition KEY_F10 :: int where [simp]: "KEY_F10 = 68"
definition KEY_NUMLOCK :: int where [simp]: "KEY_NUMLOCK = 69"
definition KEY_SCROLLLOCK :: int where [simp]: "KEY_SCROLLLOCK = 70"
definition KEY_KP7 :: int where [simp]: "KEY_KP7 = 71"
definition KEY_KP8 :: int where [simp]: "KEY_KP8 = 72"
definition KEY_KP9 :: int where [simp]: "KEY_KP9 = 73"
definition KEY_KPMINUS :: int where [simp]: "KEY_KPMINUS = 74"
definition KEY_KP4 :: int where [simp]: "KEY_KP4 = 75"
definition KEY_KP5 :: int where [simp]: "KEY_KP5 = 76"
definition KEY_KP6 :: int where [simp]: "KEY_KP6 = 77"
definition KEY_KPPLUS :: int where [simp]: "KEY_KPPLUS = 78"
definition KEY_KP1 :: int where [simp]: "KEY_KP1 = 79"
definition KEY_KP2 :: int where [simp]: "KEY_KP2 = 80"
definition KEY_KP3 :: int where [simp]: "KEY_KP3 = 81"
definition KEY_KP0 :: int where [simp]: "KEY_KP0 = 82"
definition KEY_KPDOT :: int where [simp]: "KEY_KPDOT = 83"
definition KEY_102ND :: int where [simp]: "KEY_102ND = 86"
definition KEY_F11 :: int where [simp]: "KEY_F11 = 87"
definition KEY_F12 :: int where [simp]: "KEY_F12 = 88"
definition KEY_RO :: int where [simp]: "KEY_RO = 89"
definition KEY_KATAKANA :: int where [simp]: "KEY_KATAKANA = 90"
definition KEY_HIRAGANA :: int where [simp]: "KEY_HIRAGANA = 91"
definition KEY_HENKAN :: int where [simp]: "KEY_HENKAN = 92"
definition KEY_KATAKANAHIRAGANA :: int where [simp]: "KEY_KATAKANAHIRAGANA = 93"
definition KEY_MUHENKAN :: int where [simp]: "KEY_MUHENKAN = 94"
definition KEY_KPJPCOMMA :: int where [simp]: "KEY_KPJPCOMMA = 95"
definition KEY_KPENTER :: int where [simp]: "KEY_KPENTER = 96"
definition KEY_RIGHTCTRL :: int where [simp]: "KEY_RIGHTCTRL = 97"
definition KEY_KPSLASH :: int where [simp]: "KEY_KPSLASH = 98"
definition KEY_SYSRQ :: int where [simp]: "KEY_SYSRQ = 99"
definition KEY_RIGHTALT :: int where [simp]: "KEY_RIGHTALT = 100"
definition KEY_HOME :: int where [simp]: "KEY_HOME = 102"
definition KEY_UP :: int where [simp]: "KEY_UP = 103"
definition KEY_PAGEUP :: int where [simp]: "KEY_PAGEUP = 104"
definition KEY_LEFT :: int where [simp]: "KEY_LEFT = 105"
definition KEY_RIGHT :: int where [simp]: "KEY_RIGHT = 106"
definition KEY_END :: int where [simp]: "KEY_END = 107"
definition KEY_DOWN :: int where [simp]: "KEY_DOWN = 108"
definition KEY_PAGEDOWN :: int where [simp]: "KEY_PAGEDOWN = 109"
definition KEY_INSERT :: int where [simp]: "KEY_INSERT = 110"
definition KEY_DELETE :: int where [simp]: "KEY_DELETE = 111"
definition KEY_MUTE :: int where [simp]: "KEY_MUTE = 113"
definition KEY_VOLUMEDOWN :: int where [simp]: "KEY_VOLUMEDOWN = 114"
definition KEY_VOLUMEUP :: int where [simp]: "KEY_VOLUMEUP = 115"
definition KEY_KPEQUAL :: int where [simp]: "KEY_KPEQUAL = 117"
definition KEY_PAUSE :: int where [simp]: "KEY_PAUSE = 119"
definition KEY_KPCOMMA :: int where [simp]: "KEY_KPCOMMA = 121"
definition KEY_HANGEUL :: int where [simp]: "KEY_HANGEUL = 122"
definition KEY_HANJA :: int where [simp]: "KEY_HANJA = 123"
definition KEY_YEN :: int where [simp]: "KEY_YEN = 124"
definition KEY_LEFTMETA :: int where [simp]: "KEY_LEFTMETA = 125"
definition KEY_RIGHTMETA :: int where [simp]: "KEY_RIGHTMETA = 126"
definition KEY_COMPOSE :: int where [simp]: "KEY_COMPOSE = 127"
definition KEY_STOP :: int where [simp]: "KEY_STOP = 128"
definition KEY_OPEN :: int where [simp]: "KEY_OPEN = 134"
definition KEY_HELP :: int where [simp]: "KEY_HELP = 138"
definition KEY_MENU :: int where [simp]: "KEY_MENU = 139"
definition KEY_SLEEP :: int where [simp]: "KEY_SLEEP = 142"
definition KEY_PROG1 :: int where [simp]: "KEY_PROG1 = 148"
definition KEY_PROG2 :: int where [simp]: "KEY_PROG2 = 149"
definition KEY_WWW :: int where [simp]: "KEY_WWW = 150"
definition KEY_MAIL :: int where [simp]: "KEY_MAIL = 155"
definition KEY_BOOKMARKS :: int where [simp]: "KEY_BOOKMARKS = 156"
definition KEY_BACK :: int where [simp]: "KEY_BACK = 158"
definition KEY_FORWARD :: int where [simp]: "KEY_FORWARD = 159"
definition KEY_NEXTSONG :: int where [simp]: "KEY_NEXTSONG = 163"
definition KEY_PLAYPAUSE :: int where [simp]: "KEY_PLAYPAUSE = 164"
definition KEY_PREVIOUSSONG :: int where [simp]: "KEY_PREVIOUSSONG = 165"
definition KEY_STOPCD :: int where [simp]: "KEY_STOPCD = 166"
definition KEY_HOMEPAGE :: int where [simp]: "KEY_HOMEPAGE = 172"
definition KEY_REFRESH :: int where [simp]: "KEY_REFRESH = 173"
definition KEY_F13 :: int where [simp]: "KEY_F13 = 183"
definition KEY_F14 :: int where [simp]: "KEY_F14 = 184"
definition KEY_F15 :: int where [simp]: "KEY_F15 = 185"
definition KEY_F16 :: int where [simp]: "KEY_F16 = 186"
definition KEY_F17 :: int where [simp]: "KEY_F17 = 187"
definition KEY_F18 :: int where [simp]: "KEY_F18 = 188"
definition KEY_F19 :: int where [simp]: "KEY_F19 = 189"
definition KEY_F20 :: int where [simp]: "KEY_F20 = 190"
definition KEY_F21 :: int where [simp]: "KEY_F21 = 191"
definition KEY_F22 :: int where [simp]: "KEY_F22 = 192"
definition KEY_F23 :: int where [simp]: "KEY_F23 = 193"
definition KEY_F24 :: int where [simp]: "KEY_F24 = 194"
definition KEY_PLAYCD :: int where [simp]: "KEY_PLAYCD = 200"
definition KEY_PAUSECD :: int where [simp]: "KEY_PAUSECD = 201"
definition KEY_PLAY :: int where [simp]: "KEY_PLAY = 207"
definition KEY_PRINT :: int where [simp]: "KEY_PRINT = 210"
definition KEY_EMAIL :: int where [simp]: "KEY_EMAIL = 215"
definition KEY_SEARCH :: int where [simp]: "KEY_SEARCH = 217"
definition KEY_CANCEL :: int where [simp]: "KEY_CANCEL = 223"
definition KEY_MEDIA :: int where [simp]: "KEY_MEDIA = 226"
definition KEY_SELECT :: int where [simp]: "KEY_SELECT = 353"
definition KEY_CLEAR :: int where [simp]: "KEY_CLEAR = 355"
definition KEY_FAVORITES :: int where [simp]: "KEY_FAVORITES = 364"
definition KEY_MODE :: int where [simp]: "KEY_MODE = 373"

section \<open>The table\<close>

text \<open>A row holds two \<open>uint16_t\<close>, here the integers they stand for.\<close>

type_synonym ksi_vk_evdev_entry = "int \<times> int"

definition ksi_vk_evdev_table :: "ksi_vk_evdev_entry list" where
  "ksi_vk_evdev_table = [
    (0x41, KEY_A), (0x42, KEY_B), (0x43, KEY_C), (0x44, KEY_D), (0x45, KEY_E),
    (0x46, KEY_F), (0x47, KEY_G), (0x48, KEY_H), (0x49, KEY_I), (0x4a, KEY_J),
    (0x4b, KEY_K), (0x4c, KEY_L), (0x4d, KEY_M), (0x4e, KEY_N), (0x4f, KEY_O),
    (0x50, KEY_P), (0x51, KEY_Q), (0x52, KEY_R), (0x53, KEY_S), (0x54, KEY_T),
    (0x55, KEY_U), (0x56, KEY_V), (0x57, KEY_W), (0x58, KEY_X), (0x59, KEY_Y),
    (0x5a, KEY_Z), (0x30, KEY_0), (0x31, KEY_1), (0x32, KEY_2), (0x33, KEY_3),
    (0x34, KEY_4), (0x35, KEY_5), (0x36, KEY_6), (0x37, KEY_7), (0x38, KEY_8),
    (0x39, KEY_9), (0x03, KEY_CANCEL), (0x08, KEY_BACKSPACE), (0x09, KEY_TAB), (0x0c, KEY_CLEAR),
    (0x0d, KEY_ENTER), (0x0d, KEY_KPENTER), (0x1b, KEY_ESC), (0x20, KEY_SPACE), (0x21, KEY_PAGEUP),
    (0x22, KEY_PAGEDOWN), (0x23, KEY_END), (0x24, KEY_HOME), (0x25, KEY_LEFT), (0x26, KEY_UP),
    (0x27, KEY_RIGHT), (0x28, KEY_DOWN), (0x2d, KEY_INSERT), (0x2e, KEY_DELETE), (0x29, KEY_SELECT),
    (0x2a, KEY_PRINT), (0x2b, KEY_OPEN), (0x2c, KEY_SYSRQ), (0x2f, KEY_HELP), (0x13, KEY_PAUSE),
    (0x14, KEY_CAPSLOCK), (0x90, KEY_NUMLOCK), (0x91, KEY_SCROLLLOCK), (0x15, KEY_KATAKANAHIRAGANA), (0x15, KEY_KATAKANA),
    (0x15, KEY_HIRAGANA), (0x15, KEY_HANGEUL), (0x19, KEY_HANJA), (0x1c, KEY_HENKAN), (0x1d, KEY_MUHENKAN),
    (0x1f, KEY_MODE), (0x10, KEY_LEFTSHIFT), (0x11, KEY_LEFTCTRL), (0x12, KEY_LEFTALT), (0xa0, KEY_LEFTSHIFT),
    (0xa1, KEY_RIGHTSHIFT), (0xa2, KEY_LEFTCTRL), (0xa3, KEY_RIGHTCTRL), (0xa4, KEY_LEFTALT), (0xa5, KEY_RIGHTALT),
    (0x5b, KEY_LEFTMETA), (0x5c, KEY_RIGHTMETA), (0x5d, KEY_COMPOSE), (0x5d, KEY_MENU), (0x5f, KEY_SLEEP),
    (0x70, KEY_F1), (0x71, KEY_F2), (0x72, KEY_F3), (0x73, KEY_F4), (0x74, KEY_F5),
    (0x75, KEY_F6), (0x76, KEY_F7), (0x77, KEY_F8), (0x78, KEY_F9), (0x79, KEY_F10),
    (0x7a, KEY_F11), (0x7b, KEY_F12), (0x7c, KEY_F13), (0x7d, KEY_F14), (0x7e, KEY_F15),
    (0x7f, KEY_F16), (0x80, KEY_F17), (0x81, KEY_F18), (0x82, KEY_F19), (0x83, KEY_F20),
    (0x84, KEY_F21), (0x85, KEY_F22), (0x86, KEY_F23), (0x87, KEY_F24), (0x60, KEY_KP0),
    (0x61, KEY_KP1), (0x62, KEY_KP2), (0x63, KEY_KP3), (0x64, KEY_KP4), (0x65, KEY_KP5),
    (0x66, KEY_KP6), (0x67, KEY_KP7), (0x68, KEY_KP8), (0x69, KEY_KP9), (0x6a, KEY_KPASTERISK),
    (0x6b, KEY_KPPLUS), (0x6c, KEY_KPCOMMA), (0x6c, KEY_KPJPCOMMA), (0x6d, KEY_KPMINUS), (0x6e, KEY_KPDOT),
    (0x6f, KEY_KPSLASH), (0xa6, KEY_BACK), (0xa7, KEY_FORWARD), (0xa8, KEY_REFRESH), (0xa9, KEY_STOP),
    (0xaa, KEY_SEARCH), (0xab, KEY_BOOKMARKS), (0xab, KEY_FAVORITES), (0xac, KEY_HOMEPAGE), (0xac, KEY_WWW),
    (0xad, KEY_MUTE), (0xae, KEY_VOLUMEDOWN), (0xaf, KEY_VOLUMEUP), (0xb0, KEY_NEXTSONG), (0xb1, KEY_PREVIOUSSONG),
    (0xb2, KEY_STOPCD), (0xb3, KEY_PLAYPAUSE), (0xb3, KEY_PLAYCD), (0xb3, KEY_PAUSECD), (0xb3, KEY_PLAY),
    (0xb4, KEY_MAIL), (0xb4, KEY_EMAIL), (0xb5, KEY_MEDIA), (0xb6, KEY_PROG1), (0xb7, KEY_PROG2),
    (0xba, KEY_SEMICOLON), (0xbb, KEY_EQUAL), (0xbb, KEY_KPEQUAL), (0xbc, KEY_COMMA), (0xbd, KEY_MINUS),
    (0xbe, KEY_DOT), (0xbf, KEY_SLASH), (0xc0, KEY_GRAVE), (0xdb, KEY_LEFTBRACE), (0xdc, KEY_BACKSLASH),
    (0xdc, KEY_YEN), (0xdd, KEY_RIGHTBRACE), (0xde, KEY_APOSTROPHE), (0xe2, KEY_102ND), (0xe2, KEY_RO)
  ]"

definition KSI_VK_EVDEV_TABLE_SIZE :: nat where
  "KSI_VK_EVDEV_TABLE_SIZE = length ksi_vk_evdev_table"





definition ksi_vk_evdev_key_count :: nat where
  "ksi_vk_evdev_key_count = KSI_VK_EVDEV_TABLE_SIZE"

definition ksi_vk_evdev_key_at :: "nat \<Rightarrow> u32 mem" where
  "ksi_vk_evdev_key_at index =
    (if index < KSI_VK_EVDEV_TABLE_SIZE then do { row \<leftarrow> arr_get ksi_vk_evdev_table index; Some (word_of_int (snd row)) } else Some 0)"

section \<open>Lookups\<close>
















end
