(* ===== verification/Synth_Holds.thy ===== *)
theory Synth_Holds
  imports Forward_Inv Vk_Evdev Codec "HOL-Library.Multiset"
begin

text \<open>
  Who holds which synthesised key, src/src/platform/linux_synth.c: the claims of the owners, the number
  of holders of every key and the bitmap of held keys, in the view of the written output and in the
  view of the admitted output; the resolution of an input to a key; and the admission of a batch.
  A claim is referred to by its index in the table.
\<close>

unbundle bit_operations_syntax

section \<open>State\<close>

definition KSI_SYNTH_CLAIM_CAPACITY :: nat where [simp]: "KSI_SYNTH_CLAIM_CAPACITY = 1024"

record ksi_synth_owner =
  so_target :: u64
  so_connection_id :: u64
  so_hook_type :: u32
  so_source_type :: u16
  so_source_code :: u16

record synth_claim =
  cm_owner :: ksi_synth_owner
  cm_keys :: bytes

record synth_holds =
  sh_view :: ksi_forward_view
  sh_epoch :: u32
  sh_used :: nat
  sh_holders :: "u16 list"
  sh_held :: bytes
  sh_claims :: "synth_claim list"

definition anonymous_owner :: ksi_synth_owner where
  "anonymous_owner = \<lparr>so_target = 0, so_connection_id = 0, so_hook_type = 0, so_source_type = 0, so_source_code = 0\<rparr>"

definition zero_claim :: synth_claim where
  "zero_claim = \<lparr>cm_owner = anonymous_owner, cm_keys = replicate KSI_KEY_BITMAP_BYTES 0\<rparr>"

definition initial_holds :: "ksi_forward_view \<Rightarrow> synth_holds" where
  "initial_holds view = \<lparr>sh_view = view, sh_epoch = 0, sh_used = 0, sh_holders = replicate (KEY_MAX + 1) 0,
     sh_held = replicate KSI_KEY_BITMAP_BYTES 0, sh_claims = replicate KSI_SYNTH_CLAIM_CAPACITY zero_claim\<rparr>"

section \<open>Claims\<close>

definition owner_matches :: "ksi_synth_owner \<Rightarrow> ksi_synth_owner \<Rightarrow> bool" where
  "owner_matches owner f \<longleftrightarrow>
     (so_target f = 0 \<or> so_target owner = so_target f)
     \<and> (so_connection_id f = 0 \<or> so_connection_id owner = so_connection_id f)
     \<and> (so_hook_type f = 0 \<or> so_hook_type owner = so_hook_type f)
     \<and> (so_source_type f = 0 \<or> so_source_type owner = so_source_type f)
     \<and> (so_source_code f = 0 \<or> so_source_code owner = so_source_code f)"

definition owner_is_dead :: "ksi_synth_owner ptr \<Rightarrow> ksi_forward_view \<Rightarrow> forward_state \<Rightarrow> bool mem" where
  "owner_is_dead owner view s =
     (case owner of
        None \<Rightarrow> Some False
      | Some ow \<Rightarrow> if so_target ow = 0 then Some False else ksi_linux_forward_failed (so_target ow) view s)"

definition find_claim :: "synth_holds \<Rightarrow> ksi_synth_owner \<Rightarrow> nat ptr mem" where
  "find_claim holds owner =
     mem_for (\<lambda>i found. case found of
         Some j \<Rightarrow> Some (Some j)
       | None \<Rightarrow> do { c \<leftarrow> arr_get (sh_claims holds) i; Some (if cm_owner c = owner then Some i else None) })
       [0..<sh_used holds] None"

definition remove_holder :: "synth_holds \<Rightarrow> u16 \<Rightarrow> (bool \<times> synth_holds) mem" where
  "remove_holder holds code = do {
     n \<leftarrow> arr_get (sh_holders holds) (unat code);
     holders \<leftarrow> arr_set (sh_holders holds) (unat code) (n - 1);
     let holds = holds\<lparr>sh_holders := holders\<rparr>;
     if n - 1 \<noteq> 0 then Some (False, holds)
     else do {
       held' \<leftarrow> ksi_set_key_bit (sh_held holds) code False;
       Some (True, holds\<lparr>sh_held := held'\<rparr>)
     }
   }"

definition hold_claim_key :: "synth_holds \<Rightarrow> nat \<Rightarrow> u16 \<Rightarrow> synth_holds mem" where
  "hold_claim_key holds i code = do {
     c \<leftarrow> arr_get (sh_claims holds) i;
     b \<leftarrow> ksi_key_bit (cm_keys c) code;
     if b then Some holds
     else do {
       keys \<leftarrow> ksi_set_key_bit (cm_keys c) code True;
       claims \<leftarrow> arr_set (sh_claims holds) i (c\<lparr>cm_keys := keys\<rparr>);
       n \<leftarrow> arr_get (sh_holders holds) (unat code);
       holders \<leftarrow> arr_set (sh_holders holds) (unat code) (n + 1);
       let holds = holds\<lparr>sh_claims := claims, sh_holders := holders\<rparr>;
       if n = 0 then do {
         held' \<leftarrow> ksi_set_key_bit (sh_held holds) code True;
         Some (holds\<lparr>sh_held := held'\<rparr>)
       } else Some holds
     }
   }"

definition hold_key :: "synth_holds \<Rightarrow> ksi_synth_owner \<Rightarrow> u16 \<Rightarrow> (int \<times> synth_holds) mem" where
  "hold_key holds owner code = do {
     claim \<leftarrow> find_claim holds owner;
     case claim of
       Some i \<Rightarrow> do { holds \<leftarrow> hold_claim_key holds i code; Some (0, holds) }
     | None \<Rightarrow>
         if sh_used holds = KSI_SYNTH_CLAIM_CAPACITY then Some (-1, holds)
         else do {
           let i = sh_used holds;
           claims \<leftarrow> arr_set (sh_claims holds) i
             \<lparr>cm_owner = owner, cm_keys = replicate KSI_KEY_BITMAP_BYTES 0\<rparr>;
           holds \<leftarrow> hold_claim_key (holds\<lparr>sh_claims := claims, sh_used := i + 1\<rparr>) i code;
           Some (0, holds)
         }
   }"

text \<open>\<open>*claim = holds->claims[--holds->used]\<close>.\<close>

definition swap_remove :: "synth_holds \<Rightarrow> nat \<Rightarrow> synth_holds mem" where
  "swap_remove holds i = do {
     let n = size_t_sub (sh_used holds) 1;
     c \<leftarrow> arr_get (sh_claims holds) n;
     claims \<leftarrow> arr_set (sh_claims holds) i c;
     Some (holds\<lparr>sh_claims := claims, sh_used := n\<rparr>)
   }"

definition drop_key :: "synth_holds \<Rightarrow> nat \<Rightarrow> u16 \<Rightarrow> synth_holds mem" where
  "drop_key holds i code = do {
     c \<leftarrow> arr_get (sh_claims holds) i;
     keys \<leftarrow> ksi_set_key_bit (cm_keys c) code False;
     claims \<leftarrow> arr_set (sh_claims holds) i (c\<lparr>cm_keys := keys\<rparr>);
     (_, holds) \<leftarrow> remove_holder (holds\<lparr>sh_claims := claims\<rparr>) code;
     any \<leftarrow> ksi_any_key_bit keys;
     if \<not> any then swap_remove holds i else Some holds
   }"

fun release_from :: "u16 \<Rightarrow> nat \<Rightarrow> synth_holds \<Rightarrow> synth_holds mem" where
  "release_from code i holds = do {
     b \<leftarrow> ksi_key_bit (sh_held holds) code;
     if \<not> b then Some holds
     else case i of
       0 \<Rightarrow> Some holds
     | Suc i \<Rightarrow> do {
         c \<leftarrow> arr_get (sh_claims holds) i;
         k \<leftarrow> ksi_key_bit (cm_keys c) code;
         holds \<leftarrow> (if k then drop_key holds i code else Some holds);
         release_from code i holds
       }
   }"

declare release_from.simps [simp del]

definition release_code :: "synth_holds \<Rightarrow> u16 \<Rightarrow> synth_holds mem" where
  "release_code holds code = release_from code (sh_used holds) holds"

definition set_released :: "bytes ptr \<Rightarrow> u16 \<Rightarrow> bytes ptr mem" where
  "set_released released code =
     (case released of
        None \<Rightarrow> Some None
      | Some r \<Rightarrow> do { r \<leftarrow> ksi_set_key_bit r code True; Some (Some r) })"

definition remove_claim_code :: "nat \<Rightarrow> nat \<Rightarrow> synth_holds \<times> bytes ptr \<Rightarrow> (synth_holds \<times> bytes ptr) mem" where
  "remove_claim_code byte k = (\<lambda>(holds, released). do {
     let code = of_nat (byte * 8 + k);
     (gone, holds) \<leftarrow> remove_holder holds code;
     released \<leftarrow> (if gone then set_released released code else Some released);
     Some (holds, released)
   })"

definition remove_claim :: "synth_holds \<Rightarrow> nat \<Rightarrow> bytes ptr \<Rightarrow> (synth_holds \<times> bytes ptr) mem" where
  "remove_claim holds i released = do {
     (holds, released) \<leftarrow> mem_for (\<lambda>byte (holds, released). do {
         c \<leftarrow> arr_get (sh_claims holds) i;
         b \<leftarrow> rd8 (cm_keys c) byte;
         bits_for (remove_claim_code byte) (ucast b) (holds, released)
       }) [0..<KSI_KEY_BITMAP_BYTES] (holds, released);
     holds \<leftarrow> swap_remove holds i;
     Some (holds, released)
   }"

fun drop_claims_from :: "ksi_synth_owner ptr \<Rightarrow> forward_state \<Rightarrow> nat \<Rightarrow> synth_holds \<Rightarrow> bytes ptr \<Rightarrow>
    (synth_holds \<times> bytes ptr) mem" where
  "drop_claims_from f s 0 holds released = Some (holds, released)"
| "drop_claims_from f s (Suc i) holds released = do {
     c \<leftarrow> arr_get (sh_claims holds) i;
     selected \<leftarrow> (case f of
         Some flt \<Rightarrow> Some (owner_matches (cm_owner c) flt)
       | None \<Rightarrow> owner_is_dead (Some (cm_owner c)) (sh_view holds) s);
     (holds, released) \<leftarrow> (if selected then remove_claim holds i released else Some (holds, released));
     drop_claims_from f s i holds released
   }"

definition drop_claims :: "synth_holds \<Rightarrow> ksi_synth_owner ptr \<Rightarrow> bytes ptr \<Rightarrow> forward_state \<Rightarrow> (synth_holds \<times> bytes ptr) mem" where
  "drop_claims holds f released s = drop_claims_from f s (sh_used holds) holds released"

definition sweep_dead_targets :: "synth_holds \<Rightarrow> bytes ptr \<Rightarrow> forward_state \<Rightarrow> (synth_holds \<times> bytes ptr) mem" where
  "sweep_dead_targets holds released s =
     (let epoch = ksi_linux_forward_epoch s
      in if sh_epoch holds = epoch then Some (holds, released)
         else drop_claims (holds\<lparr>sh_epoch := epoch\<rparr>) None released s)"

definition apply_key :: "synth_holds \<Rightarrow> u16 \<Rightarrow> bool \<Rightarrow> bool \<Rightarrow> ksi_synth_owner ptr \<Rightarrow> forward_state \<Rightarrow>
    (int \<times> synth_holds \<times> forward_state) mem" where
  "apply_key holds code down restore owner s = do {
     let ow = (case owner of None \<Rightarrow> anonymous_owner | Some ow \<Rightarrow> ow);
     if down then do {
       (restored, s) \<leftarrow> (if restore then ksi_linux_forward_restore_key code (sh_view holds) s else Some (False, s));
       if restored then Some (0, holds, s)
       else do { (r, holds) \<leftarrow> hold_key holds ow code; Some (r, holds, s) }
     } else do {
       claim \<leftarrow> find_claim holds ow;
       mine \<leftarrow> (case claim of
           None \<Rightarrow> Some None
         | Some i \<Rightarrow> do { c \<leftarrow> arr_get (sh_claims holds) i; b \<leftarrow> ksi_key_bit (cm_keys c) code;
                         Some (if b then Some i else None) });
       case mine of
         Some i \<Rightarrow> do { holds \<leftarrow> drop_key holds i code; Some (0, holds, s) }
       | None \<Rightarrow> do {
           s \<leftarrow> ksi_linux_forward_release_key code (sh_view holds) s;
           holds \<leftarrow> release_code holds code;
           Some (0, holds, s)
         }
     }
   }"

section \<open>Invariant\<close>

type_synonym claim_view = "ksi_synth_owner \<times> nat set"

definition claim_of :: "synth_claim \<Rightarrow> claim_view" where
  "claim_of c = (cm_owner c, held (cm_keys c))"

definition claims_of :: "synth_holds \<Rightarrow> claim_view list" where
  "claims_of h = map claim_of (take (sh_used h) (sh_claims h))"

definition holders_of :: "claim_view multiset \<Rightarrow> nat \<Rightarrow> nat" where
  "holders_of M c = size (filter_mset (\<lambda>x. c \<in> snd x) M)"

definition table_ok :: "synth_holds \<Rightarrow> bool" where
  "table_ok h \<longleftrightarrow> length (sh_claims h) = KSI_SYNTH_CLAIM_CAPACITY \<and> sh_used h \<le> KSI_SYNTH_CLAIM_CAPACITY
     \<and> (\<forall>c \<in> set (sh_claims h). bitmap (cm_keys c))"

definition counted :: "synth_holds \<Rightarrow> (nat \<Rightarrow> nat) \<Rightarrow> bool" where
  "counted h N \<longleftrightarrow> length (sh_holders h) = KEY_MAX + 1 \<and> bitmap (sh_held h)
     \<and> (\<forall>c \<le> KEY_MAX. unat (sh_holders h ! c) = N c \<and> (c \<in> held (sh_held h) \<longleftrightarrow> N c \<noteq> 0))"

definition holds_ok :: "synth_holds \<Rightarrow> bool" where
  "holds_ok h \<longleftrightarrow> table_ok h \<and> counted h (holders_of (mset (claims_of h)))
     \<and> distinct (map fst (claims_of h)) \<and> (\<forall>x \<in> set (claims_of h). snd x \<noteq> {})"

text \<open>Which owner holds which key.\<close>

definition pairs_of :: "claim_view list \<Rightarrow> (ksi_synth_owner \<times> nat) set" where
  "pairs_of L = {(ow, c). \<exists>x \<in> set L. fst x = ow \<and> c \<in> snd x}"

definition pairs :: "synth_holds \<Rightarrow> (ksi_synth_owner \<times> nat) set" where
  "pairs h = pairs_of (claims_of h)"

section \<open>Lists of claims\<close>

lemma mset_swap_remove:
  assumes "i < n" "n \<le> length xs"
  shows "mset (take (n - 1) (xs[i := xs ! (n - 1)])) = mset (take n xs) - {#xs ! i#}"
proof -
  obtain m where n: "n = Suc m" using assms(1) by (cases n) auto
  have all: "mset (take n xs) = add_mset (xs ! m) (mset (take m xs))" using assms(2) by (simp add: n take_Suc_conv_app_nth)
  show ?thesis
  proof (cases "i = m")
    case True then show ?thesis using all by (simp add: n)
  next
    case False
    then have i: "i < length (take m xs)" using assms by (simp add: n)
    then have "mset ((take m xs)[i := xs ! m]) = add_mset (xs ! m) (mset (take m xs) - {#xs ! i#})" by (simp add: mset_update)
    moreover have "xs ! i \<in># mset (take m xs)" using i nth_mem [OF i] by simp
    ultimately show ?thesis using all by (simp add: n take_update_swap)
  qed
qed

lemma distinct_count: "distinct xs \<longleftrightarrow> (\<forall>a. count (mset xs) a \<le> 1)"
  by (auto simp: distinct_count_atmost_1 Suc_leI count_eq_zero_iff [symmetric] le_Suc_eq)

lemma distinct_smaller:
  assumes "mset L' = mset L - {#x#}" "distinct (map f L)"
  shows "distinct (map f L')"
proof -
  have "mset (map f L') \<subseteq># mset (map f L)" using assms(1) by (simp add: image_mset_subseteq_mono)
  then have "count (mset (map f L')) a \<le> count (mset (map f L)) a" for a by (rule mset_subset_eq_count)
  then show ?thesis using assms(2) unfolding distinct_count using le_trans by blast
qed

lemma set_smaller:
  assumes "mset L' = mset L - {#x#}" "distinct L"
  shows "set L' = set L - {x}"
proof (rule set_eqI)
  fix a
  have one: "count (mset L) a \<le> 1" using assms(2) by (simp add: distinct_count)
  have eq: "count (mset L') a = count (mset L) a - (if a = x then 1 else 0)" using assms(1) by simp
  show "a \<in> set L' \<longleftrightarrow> a \<in> set L - {x}"
  proof (cases "a = x")
    case True
    then have "count (mset L') a = 0" using one eq by simp
    then show ?thesis using True by (simp add: count_eq_zero_iff)
  next
    case False
    then have "a \<in># mset L' \<longleftrightarrow> a \<in># mset L" unfolding count_greater_zero_iff [symmetric] eq by simp
    then show ?thesis using False by simp
  qed
qed

definition list_ok :: "claim_view list \<Rightarrow> bool" where
  "list_ok L \<longleftrightarrow> distinct (map fst L) \<and> (\<forall>x \<in> set L. snd x \<noteq> {})"

lemma owners_differ: "distinct (map fst L) \<Longrightarrow> i < length L \<Longrightarrow> x \<in> set L \<Longrightarrow> fst x = fst (L ! i) \<Longrightarrow> x = L ! i"
  by (metis distinct_map inj_on_eq_iff nth_mem)

lemma list_ok_removed:
  assumes "mset L' = mset L - {#L ! i#}" "list_ok L" "i < length L"
  shows "list_ok L'" "pairs_of L' = {p \<in> pairs_of L. fst p \<noteq> fst (L ! i)}"
    "holders_of (mset L') c = holders_of (mset L) c - (if c \<in> snd (L ! i) then 1 else 0)"
    "c \<in> snd (L ! i) \<Longrightarrow> holders_of (mset L) c > 0"
proof -
  have d: "distinct (map fst L)" "distinct L" using assms(2) by (auto simp: list_ok_def distinct_map)
  have s: "set L' = set L - {L ! i}" by (rule set_smaller [OF assms(1) d(2)])
  show "list_ok L'" using assms(2) s distinct_smaller [OF assms(1) d(1)] by (auto simp: list_ok_def)
  show "pairs_of L' = {p \<in> pairs_of L. fst p \<noteq> fst (L ! i)}"
    using s owners_differ [OF d(1) assms(3)] by (auto simp: pairs_of_def)
  have m: "L ! i \<in># mset L" using assms(3) by simp
  show "holders_of (mset L') c = holders_of (mset L) c - (if c \<in> snd (L ! i) then 1 else 0)"
    using m unfolding assms(1) holders_of_def by (auto simp: size_Diff_singleton)
  show "c \<in> snd (L ! i) \<Longrightarrow> holders_of (mset L) c > 0"
    using m by (auto simp: holders_of_def nonempty_has_size [symmetric] filter_mset_eq_conv)
qed

lemma list_ok_changed:
  assumes "distinct (map fst L)" "\<forall>x \<in> set L - {L ! i}. snd x \<noteq> {}" "i < length L" "S \<noteq> {}"
  shows "list_ok (L[i := (fst (L ! i), S)])"
    "pairs_of (L[i := (fst (L ! i), S)]) = {p \<in> pairs_of L. fst p \<noteq> fst (L ! i)} \<union> {fst (L ! i)} \<times> S"
    "holders_of (mset (L[i := (fst (L ! i), S)])) c =
       holders_of (mset L) c - (if c \<in> snd (L ! i) then 1 else 0) + (if c \<in> S then 1 else 0)"
proof -
  let ?y = "(fst (L ! i), S)"
  have d: "distinct (map fst L)" "distinct L" using assms(1) by (auto simp: distinct_map)
  have s: "set (L[i := ?y]) = insert ?y (set L - {L ! i})" by (rule set_update_distinct [OF d(2) assms(3)])
  have "map fst (L[i := ?y]) = map fst L" using assms(3) by (simp add: map_update list_update_same_conv)
  then show "list_ok (L[i := ?y])" using assms(1,2,4) s by (auto simp: list_ok_def)
  show "pairs_of (L[i := ?y]) = {p \<in> pairs_of L. fst p \<noteq> fst (L ! i)} \<union> {fst (L ! i)} \<times> S"
    using s owners_differ [OF d(1) assms(3)] by (auto simp: pairs_of_def)
  have m: "L ! i \<in># mset L" using assms(3) by simp
  show "holders_of (mset (L[i := ?y])) c = holders_of (mset L) c - (if c \<in> snd (L ! i) then 1 else 0) + (if c \<in> S then 1 else 0)"
    using m by (simp add: mset_update [OF assms(3)] holders_of_def size_Diff_singleton)
qed

lemma holders_of_bound: "holders_of (mset L) c \<le> length L"
  unfolding holders_of_def by (metis size_filter_mset_lesseq size_mset)

section \<open>The operations on the table\<close>

lemma claims_of_length: "table_ok h \<Longrightarrow> length (claims_of h) = sh_used h"
  by (simp add: table_ok_def claims_of_def)

lemma claims_of_nth: "table_ok h \<Longrightarrow> i < sh_used h \<Longrightarrow> claims_of h ! i = claim_of (sh_claims h ! i)"
  by (simp add: table_ok_def claims_of_def)

lemma table_keys: "table_ok h \<Longrightarrow> i < 1024 \<Longrightarrow> bitmap (cm_keys (sh_claims h ! i))"
  by (simp add: table_ok_def)

lemma table_get: "table_ok h \<Longrightarrow> i < 1024 \<Longrightarrow> arr_get (sh_claims h) i = Some (sh_claims h ! i)"
  by (simp add: table_ok_def arr_get_def)

lemma table_set: "table_ok h \<Longrightarrow> i < 1024 \<Longrightarrow> arr_set (sh_claims h) i c = Some ((sh_claims h)[i := c])"
  by (simp add: table_ok_def arr_set_def)

lemma table_ok_update:
  "table_ok h \<Longrightarrow> bitmap (cm_keys c) \<Longrightarrow> table_ok (h\<lparr>sh_claims := (sh_claims h)[i := c]\<rparr>)"
  by (auto simp: table_ok_def dest: set_update_subset_insert [THEN subsetD])

lemma table_used: "table_ok h \<Longrightarrow> sh_used h \<le> 1024"
  by (simp add: table_ok_def)

lemma find_claim_spec:
  assumes "table_ok h"
  obtains r where "find_claim h owner = Some r"
    "\<And>i. r = Some i \<Longrightarrow> i < sh_used h \<and> fst (claims_of h ! i) = owner"
    "r = None \<Longrightarrow> owner \<notin> fst ` set (claims_of h)"
proof -
  have "returns (find_claim h owner) (\<lambda>r. (case r of Some i \<Rightarrow> i < sh_used h \<and> cm_owner (sh_claims h ! i) = owner
      | None \<Rightarrow> \<forall>j < sh_used h. cm_owner (sh_claims h ! j) \<noteq> owner))"
    unfolding find_claim_def
    by (rule returns_mem_for_upt [where P = "\<lambda>n r. case r of Some i \<Rightarrow> i < n \<and> cm_owner (sh_claims h ! i) = owner
        | None \<Rightarrow> \<forall>j < n. cm_owner (sh_claims h ! j) \<noteq> owner"])
      (use assms table_used [OF assms] in \<open>auto simp: table_get less_Suc_eq split: option.splits\<close>)
  then obtain r where r: "find_claim h owner = Some r" "case r of Some i \<Rightarrow> i < sh_used h \<and> cm_owner (sh_claims h ! i) = owner
      | None \<Rightarrow> \<forall>j < sh_used h. cm_owner (sh_claims h ! j) \<noteq> owner" by (rule returnsE)
  show thesis
    by (rule that [OF r(1)])
      (use r(2) assms in \<open>auto simp: claims_of_nth claims_of_length claim_of_def in_set_conv_nth split: option.splits\<close>)
qed

definition same_table :: "synth_holds \<Rightarrow> synth_holds \<Rightarrow> bool" where
  "same_table h h' \<longleftrightarrow> sh_claims h' = sh_claims h \<and> sh_used h' = sh_used h \<and> sh_view h' = sh_view h \<and> sh_epoch h' = sh_epoch h"

lemma same_tableD: "same_table h h' \<Longrightarrow> claims_of h' = claims_of h" "same_table h h' \<Longrightarrow> table_ok h' = table_ok h"
  by (simp_all add: same_table_def claims_of_def table_ok_def)

lemma counted_held: "counted h N \<Longrightarrow> unat code \<le> KEY_MAX \<Longrightarrow> ksi_key_bit (sh_held h) code = Some (N (unat code) \<noteq> 0)"
  by (simp add: counted_def key_bit_eq)

lemma counted_cong: "counted h N \<Longrightarrow> (\<And>c. c \<le> KEY_MAX \<Longrightarrow> N c = N' c) \<Longrightarrow> counted h N'"
  by (simp add: counted_def)

lemma remove_holder_spec:
  assumes "counted h N" "unat code \<le> KEY_MAX" "N (unat code) > 0"
  shows "returns (remove_holder h code) (\<lambda>(gone, h'). counted h' (N(unat code := N (unat code) - 1))
     \<and> gone = (N (unat code) = 1) \<and> same_table h h')"
proof -
  let ?c = "unat code" and ?n = "sh_holders h ! unat code"
  have len: "?c < length (sh_holders h)" and n: "unat ?n = N ?c" using assms by (simp_all add: counted_def)
  have pos: "?n \<noteq> 0" using n assms(3) by auto
  have dec: "unat (?n - 1) = N ?c - 1" using n pos by (simp add: unat_minus_one)
  have zero: "?n - 1 = 0 \<longleftrightarrow> N ?c = 1" using dec assms(3) by (metis One_nat_def Suc_pred diff_Suc_1 unat_eq_0)
  obtain held' where h: "ksi_set_key_bit (sh_held h) code False = Some held'" "bitmap held'" "held held' = held (sh_held h) - {?c}"
    using set_key_bit_eq [of "sh_held h" code False] assms(1,2) by (auto simp: counted_def)
  show ?thesis
  proof (cases "N ?c = 1")
    case True
    then show ?thesis using len h zero dec assms
      by (auto simp: remove_holder_def arr_get_def arr_set_def counted_def same_table_def nth_list_update)
  next
    case False
    then show ?thesis using len h zero dec assms
      by (auto simp: remove_holder_def arr_get_def arr_set_def counted_def same_table_def nth_list_update)
  qed
qed

definition synced :: "synth_holds \<Rightarrow> bool" where
  "synced h \<longleftrightarrow> table_ok h \<and> counted h (holders_of (mset (claims_of h)))"

definition same_view :: "synth_holds \<Rightarrow> synth_holds \<Rightarrow> bool" where
  "same_view h h' \<longleftrightarrow> sh_view h' = sh_view h \<and> sh_epoch h' = sh_epoch h"

lemma holds_ok_alt: "holds_ok h \<longleftrightarrow> synced h \<and> list_ok (claims_of h)"
  by (auto simp: holds_ok_def synced_def list_ok_def)

lemma claims_of_update:
  "table_ok h \<Longrightarrow> i < sh_used h \<Longrightarrow> sh_claims h' = (sh_claims h)[i := c] \<Longrightarrow> sh_used h' = sh_used h \<Longrightarrow>
   claims_of h' = (claims_of h)[i := claim_of c]"
  by (simp add: claims_of_def table_ok_def take_update_swap map_update)

lemma holders_replaced:
  assumes "i < length L"
  shows "holders_of (mset (L[i := y])) c = holders_of (mset L) c - (if c \<in> snd (L ! i) then 1 else 0) + (if c \<in> snd y then 1 else 0)"
  using assms by (simp add: mset_update holders_of_def size_Diff_singleton)

lemma holders_pos: "i < length L \<Longrightarrow> c \<in> snd (L ! i) \<Longrightarrow> holders_of (mset L) c > 0"
  by (auto simp: holders_of_def nonempty_has_size [symmetric] filter_mset_eq_conv)

lemma hold_claim_key_spec:
  assumes h: "synced h" and i: "i < sh_used h" and code: "unat code \<le> KEY_MAX"
  shows "returns (hold_claim_key h i code) (\<lambda>h'. synced h' \<and> same_view h h'
     \<and> claims_of h' = (claims_of h)[i := (fst (claims_of h ! i), insert (unat code) (snd (claims_of h ! i)))])"
proof -
  let ?c = "unat code" and ?x = "sh_claims h ! i" and ?L = "claims_of h"
  have t: "table_ok h" and k: "counted h (holders_of (mset ?L))" using h by (simp_all add: synced_def)
  have i': "i < 1024" "i < length ?L" using i table_used [OF t] claims_of_length [OF t] by simp_all
  have Li: "?L ! i = (cm_owner ?x, held (cm_keys ?x))" using claims_of_nth [OF t i] by (simp add: claim_of_def)
  note bm = table_keys [OF t i'(1)]
  show ?thesis
  proof (cases "?c \<in> held (cm_keys ?x)")
    case True
    then have "?L[i := (fst (?L ! i), insert ?c (snd (?L ! i)))] = ?L" using Li by (simp add: insert_absorb list_update_same_conv [OF i'(2)])
    then show ?thesis using True h by (simp add: hold_claim_key_def table_get [OF t i'(1)] key_bit_eq [OF bm code] same_view_def)
  next
    case False
    obtain keys where keys: "ksi_set_key_bit (cm_keys ?x) code True = Some keys" "bitmap keys" "held keys = insert ?c (held (cm_keys ?x))"
      using set_key_bit_eq [OF bm code, of True] by auto
    obtain held' where h': "ksi_set_key_bit (sh_held h) code True = Some held'" "bitmap held'" "held held' = insert ?c (held (sh_held h))"
      using set_key_bit_eq [of "sh_held h" code True] code k by (auto simp: counted_def)
    let ?n = "sh_holders h ! ?c"
    have n: "unat ?n = holders_of (mset ?L) ?c" and len: "?c < length (sh_holders h)" using k code by (simp_all add: counted_def)
    have "unat ?n \<le> 1024" using n holders_of_bound [of ?L ?c] claims_of_length [OF t] table_used [OF t] by simp
    then have inc: "unat (?n + 1) = unat ?n + 1" by (simp add: unat_word_ariths)
    have nz: "?n = 0 \<longleftrightarrow> holders_of (mset ?L) ?c = 0" unfolding n [symmetric] by (rule unat_eq_0 [symmetric])
    define g where "g = h\<lparr>sh_claims := (sh_claims h)[i := ?x\<lparr>cm_keys := keys\<rparr>], sh_holders := (sh_holders h)[?c := ?n + 1],
      sh_held := (if ?n = 0 then held' else sh_held h)\<rparr>"
    have eq: "hold_claim_key h i code = Some g"
      using False keys(1) h'(1) len i'(1) t by (simp add: table_ok_def hold_claim_key_def table_get [OF t i'(1)] table_set [OF t i'(1)] key_bit_eq [OF bm code]
          arr_get_def arr_set_def g_def)
    have cl: "claims_of g = ?L[i := (fst (?L ! i), insert ?c (snd (?L ! i)))]"
      using claims_of_update [OF t i, of g "?x\<lparr>cm_keys := keys\<rparr>"] keys(3) Li by (simp add: g_def claim_of_def)
    have "table_ok g" using table_ok_update [OF t, of "?x\<lparr>cm_keys := keys\<rparr>" i] keys(2) by (simp add: g_def table_ok_def)
    moreover have "holders_of (mset (claims_of g)) c = (if c = ?c then holders_of (mset ?L) c + 1 else holders_of (mset ?L) c)" for c
      unfolding cl holders_replaced [OF i'(2)] using False Li holders_pos [OF i'(2), of c] by auto
    then have "counted g (holders_of (mset (claims_of g)))"
      using k len inc n nz h' unfolding counted_def by (auto simp: g_def nth_list_update)
    ultimately show ?thesis using eq cl by (simp add: synced_def same_view_def g_def)
  qed
qed

lemma pair_at:
  assumes "distinct (map fst L)" "i < length L"
  shows "(fst (L ! i), c) \<in> pairs_of L \<longleftrightarrow> c \<in> snd (L ! i)"
proof -
  have "c \<in> snd (L ! i)" if "x \<in> set L" "fst x = fst (L ! i)" "c \<in> snd x" for x
    using owners_differ [OF assms that(1,2)] that(3) by simp
  then show ?thesis using nth_mem [OF assms(2)] unfolding pairs_of_def by blast
qed

lemma pairs_split:
  assumes "distinct (map fst L)" "i < length L"
  shows "pairs_of L = {p \<in> pairs_of L. fst p \<noteq> fst (L ! i)} \<union> {fst (L ! i)} \<times> snd (L ! i)"
  using pair_at [OF assms] by auto

lemma hold_key_spec:
  assumes h: "holds_ok h" and code: "unat code \<le> KEY_MAX"
  shows "returns (hold_key h owner code) (\<lambda>(r, h'). holds_ok h' \<and> same_view h h'
     \<and> (r = 0 \<and> pairs h' = insert (owner, unat code) (pairs h)
        \<or> r = -1 \<and> h' = h \<and> sh_used h = KSI_SYNTH_CLAIM_CAPACITY \<and> (\<forall>c. (owner, c) \<notin> pairs h)))"
proof -
  let ?L = "claims_of h" and ?c = "unat code"
  have sy: "synced h" "table_ok h" and ok: "list_ok ?L" using h by (simp_all add: holds_ok_alt synced_def)
  obtain r where r: "find_claim h owner = Some r" "\<And>i. r = Some i \<Longrightarrow> i < sh_used h \<and> fst (?L ! i) = owner"
    "r = None \<Longrightarrow> owner \<notin> fst ` set ?L" by (rule find_claim_spec [OF sy(2)]) blast
  show ?thesis
  proof (cases r)
    case (Some i)
    then have i: "i < sh_used h" "fst (?L ! i) = owner" "i < length ?L" using r(2) claims_of_length [OF sy(2)] by auto
    note ch = list_ok_changed [of ?L i "insert ?c (snd (?L ! i))"]
    have "pairs_of (?L[i := (fst (?L ! i), insert ?c (snd (?L ! i)))]) = insert (owner, ?c) (pairs_of ?L)"
      using ch(2) pairs_split [OF _ i(3)] ok i by (auto simp: list_ok_def)
    then show ?thesis using hold_claim_key_spec [OF sy(1) i(1) code] ch(1) ok i(3) Some r(1)
      by (auto simp: hold_key_def holds_ok_alt list_ok_def pairs_def elim!: returns_mono)
  next
    case None
    note new = r(3) [OF None]
    show ?thesis
    proof (cases "sh_used h = KSI_SYNTH_CLAIM_CAPACITY")
      case True
      then show ?thesis using None r(1) h new by (auto simp: hold_key_def same_view_def pairs_def pairs_of_def)
    next
      case False
      then have u: "sh_used h < 1024" using table_used [OF sy(2)] by simp
      define e where "e = \<lparr>cm_owner = owner, cm_keys = replicate KSI_KEY_BITMAP_BYTES (0 :: byte)\<rparr>"
      define g where "g = h\<lparr>sh_claims := (sh_claims h)[sh_used h := e], sh_used := sh_used h + 1\<rparr>"
      have e: "claim_of e = (owner, {})" by (simp add: claim_of_def e_def del: KSI_KEY_BITMAP_BYTES_def)
      have cl: "claims_of g = ?L @ [(owner, {})]"
        using u sy(2) e by (simp add: claims_of_def g_def table_ok_def take_Suc_conv_app_nth)
      have "table_ok g" using table_ok_update [OF sy(2), of e "sh_used h"] u by (simp add: g_def table_ok_def e_def del: KSI_KEY_BITMAP_BYTES_def)
      moreover have "holders_of (mset (claims_of g)) = holders_of (mset ?L)" by (intro ext) (simp add: cl holders_of_def)
      ultimately have sg: "synced g" using sy(1) by (simp add: synced_def counted_def g_def)
      have n: "sh_used h = length ?L" using claims_of_length [OF sy(2)] by simp
      have upd: "(claims_of g)[sh_used h := (fst (claims_of g ! sh_used h), insert ?c (snd (claims_of g ! sh_used h)))] = ?L @ [(owner, {?c})]"
        unfolding cl n by simp
      have "list_ok (?L @ [(owner, {?c})])" "pairs_of (?L @ [(owner, {?c})]) = insert (owner, ?c) (pairs_of ?L)"
        using ok new by (auto simp: list_ok_def pairs_of_def)
      moreover have "hold_key h owner code = do { holds \<leftarrow> hold_claim_key g (sh_used h) code; Some (0, holds) }"
        using None r(1) False u by (simp add: Let_def hold_key_def table_set [OF sy(2)] e_def g_def)
      moreover have "sh_view g = sh_view h" "sh_epoch g = sh_epoch h" "sh_used h < sh_used g" by (simp_all add: g_def)
      ultimately show ?thesis using hold_claim_key_spec [OF sg _ code, of "sh_used h"]
        by (auto simp: upd holds_ok_alt pairs_def same_view_def elim!: returns_mono)
    qed
  qed
qed

lemma swap_remove_spec:
  assumes "table_ok h" "i < sh_used h"
  shows "returns (swap_remove h i) (\<lambda>h'. table_ok h' \<and> mset (claims_of h') = mset (claims_of h) - {#claims_of h ! i#}
     \<and> sh_used h' = sh_used h - 1 \<and> same_view h h' \<and> sh_holders h' = sh_holders h \<and> sh_held h' = sh_held h
     \<and> (\<forall>j < i. claims_of h' ! j = claims_of h ! j))"
proof -
  let ?n = "sh_used h"
  have n: "?n \<le> 1024" "?n - 1 < 1024" "i < 1024" "length (sh_claims h) = 1024" using assms table_used [OF assms(1)] by (auto simp: table_ok_def)
  have sub: "size_t_sub ?n 1 = ?n - 1" using assms(2) n(1) by (intro size_t_sub_small) (simp_all add: size_t_mod_def)
  define g where "g = h\<lparr>sh_claims := (sh_claims h)[i := sh_claims h ! (?n - 1)], sh_used := ?n - 1\<rparr>"
  have eq: "swap_remove h i = Some g"
    unfolding swap_remove_def sub Let_def using n by (simp add: arr_get_def arr_set_def g_def)
  have cg: "claims_of g = map claim_of (take (?n - 1) ((sh_claims h)[i := sh_claims h ! (?n - 1)]))" by (simp add: claims_of_def g_def)
  have "mset (claims_of g) = image_mset claim_of (mset (take ?n (sh_claims h)) - {#sh_claims h ! i#})"
    unfolding cg mset_map using mset_swap_remove [OF assms(2), of "sh_claims h"] n by simp
  also have "\<dots> = mset (claims_of h) - {#claims_of h ! i#}"
  proof -
    have "sh_claims h ! i \<in># mset (take ?n (sh_claims h))" using assms(2) n by (auto simp: in_set_conv_nth)
    then show ?thesis using claims_of_nth [OF assms] by (simp add: image_mset_Diff claims_of_def)
  qed
  finally have "mset (claims_of g) = mset (claims_of h) - {#claims_of h ! i#}" .
  moreover have "table_ok g" using table_ok_update [OF assms(1), of "sh_claims h ! (?n - 1)" i] table_keys [OF assms(1) n(2)] n(1)
    by (simp add: g_def table_ok_def)
  moreover have "\<forall>j < i. claims_of g ! j = claims_of h ! j"
    unfolding cg unfolding claims_of_def using assms(2) n by simp
  ultimately show ?thesis using eq by (simp add: same_view_def g_def)
qed

lemma drop_key_spec:
  assumes h: "holds_ok h" and i: "i < sh_used h" and code: "unat code \<le> KEY_MAX" and mine: "unat code \<in> snd (claims_of h ! i)"
  shows "returns (drop_key h i code) (\<lambda>h'. holds_ok h' \<and> same_view h h' \<and> i \<le> sh_used h'
     \<and> pairs h' = pairs h - {(fst (claims_of h ! i), unat code)} \<and> (\<forall>j < i. claims_of h' ! j = claims_of h ! j))"
proof -
  let ?c = "unat code" and ?x = "sh_claims h ! i" and ?L = "claims_of h"
  have t: "table_ok h" and k: "counted h (holders_of (mset ?L))" and ok: "list_ok ?L" using h by (simp_all add: holds_ok_alt synced_def)
  have i': "i < 1024" "i < length ?L" using i table_used [OF t] claims_of_length [OF t] by simp_all
  have Li: "?L ! i = (cm_owner ?x, held (cm_keys ?x))" using claims_of_nth [OF t i] by (simp add: claim_of_def)
  obtain keys where keys: "ksi_set_key_bit (cm_keys ?x) code False = Some keys" "bitmap keys" "held keys = held (cm_keys ?x) - {?c}"
    using set_key_bit_eq [OF table_keys [OF t i'(1)] code, of False] by auto
  let ?S = "held keys" and ?y = "(fst (?L ! i), held keys)"
  define g where "g = h\<lparr>sh_claims := (sh_claims h)[i := ?x\<lparr>cm_keys := keys\<rparr>]\<rparr>"
  have cg: "claims_of g = ?L[i := ?y]" using claims_of_update [OF t i, of g "?x\<lparr>cm_keys := keys\<rparr>"] Li by (simp add: g_def claim_of_def)
  have tg: "table_ok g" using table_ok_update [OF t] keys(2) by (simp add: g_def)
  have kg: "counted g (holders_of (mset ?L))" using k by (simp add: counted_def g_def)
  have N: "holders_of (mset (?L[i := ?y])) c = ((holders_of (mset ?L))(?c := holders_of (mset ?L) ?c - 1)) c" for c
    unfolding holders_replaced [OF i'(2)] using mine Li keys(3) holders_pos [OF i'(2), of c] by auto
  have start: "drop_key h i code = do { (_, g') \<leftarrow> remove_holder g code; any \<leftarrow> ksi_any_key_bit keys;
      if \<not> any then swap_remove g' i else Some g' }"
    by (simp add: drop_key_def table_get [OF t i'(1)] table_set [OF t i'(1)] keys(1) g_def)
  have d: "distinct (map fst ?L)" "\<forall>x \<in> set ?L - {?L ! i}. snd x \<noteq> {}" using ok by (auto simp: list_ok_def)
  have pr: "{p \<in> pairs_of ?L. fst p \<noteq> fst (?L ! i)} \<union> {fst (?L ! i)} \<times> ?S = pairs_of ?L - {(fst (?L ! i), ?c)}"
    using pairs_split [OF d(1) i'(2)] keys(3) Li by auto
  show ?thesis unfolding start
  proof (rule returns_bind [OF remove_holder_spec [OF kg code holders_pos [OF i'(2) mine]]], clarify)
    fix gone g' assume r: "counted g' ((holders_of (mset ?L))(?c := holders_of (mset ?L) ?c - 1))" "same_table g g'"
    have g': "table_ok g'" "claims_of g' = ?L[i := ?y]" "sh_used g' = sh_used h" "same_view h g'"
      using same_tableD [OF r(2)] tg cg r(2) by (auto simp: same_table_def same_view_def g_def)
    have cnt: "counted g' (holders_of (mset (?L[i := ?y])))" by (rule counted_cong [OF r(1)]) (simp only: N)
    show "returns (do { any \<leftarrow> ksi_any_key_bit keys; if \<not> any then swap_remove g' i else Some g' })
        (\<lambda>h'. holds_ok h' \<and> same_view h h' \<and> i \<le> sh_used h' \<and> pairs h' = pairs h - {(fst (?L ! i), ?c)} \<and> (\<forall>j < i. claims_of h' ! j = ?L ! j))"
    proof (cases "?S = {}")
      case False
      note ch = list_ok_changed [OF d i'(2) False]
      show ?thesis using False g' cnt ch(1,2) pr i by (simp add: any_key_bit_eq [OF keys(2)] holds_ok_alt synced_def pairs_def)
    next
      case True
      have "returns (swap_remove g' i) (\<lambda>h'. holds_ok h' \<and> same_view h h' \<and> i \<le> sh_used h' \<and> pairs h' = pairs h - {(fst (?L ! i), ?c)} \<and> (\<forall>j < i. claims_of h' ! j = ?L ! j))"
      proof (rule returns_mono [OF swap_remove_spec [OF g'(1)]], use i g'(3) in simp, elim conjE)
        fix h' assume h': "table_ok h'" "mset (claims_of h') = mset (claims_of g') - {#claims_of g' ! i#}" "sh_used h' = sh_used g' - 1"
          "same_view g' h'" "sh_holders h' = sh_holders g'" "sh_held h' = sh_held g'" "\<forall>j < i. claims_of h' ! j = claims_of g' ! j"
        have m: "mset (claims_of h') = mset ?L - {#?L ! i#}" using h'(2) i'(2) by (simp add: g'(2) mset_update)
        note rm = list_ok_removed [OF m ok i'(2)]
        have "holders_of (mset (claims_of h')) = holders_of (mset (?L[i := ?y]))"
          unfolding h'(2) g'(2) using i'(2) True by (intro ext) (simp add: holders_of_def mset_update)
        then have "counted h' (holders_of (mset (claims_of h')))" using cnt h'(5,6) by (simp add: counted_def)
        then show "holds_ok h' \<and> same_view h h' \<and> i \<le> sh_used h' \<and> pairs h' = pairs h - {(fst (?L ! i), ?c)} \<and> (\<forall>j < i. claims_of h' ! j = ?L ! j)"
          using rm(1,2) h'(1,3,4,7) g'(2,3,4) pr True i by (simp add: holds_ok_alt synced_def pairs_def same_view_def)
      qed
      then show ?thesis using True by (simp add: any_key_bit_eq [OF keys(2)])
    qed
  qed
qed

lemma holders_zero: "holders_of (mset L) c = 0 \<longleftrightarrow> c \<notin> snd ` pairs_of L"
  by (force simp: holders_of_def pairs_of_def filter_mset_eq_conv)

lemma take_same:
  assumes "\<forall>j < i. xs ! j = ys ! j" "i \<le> length xs" "i \<le> length ys"
  shows "take i xs = take i ys"
  using assms by (intro nth_take_lemma) auto

lemma owner_pairs: "list_ok L \<Longrightarrow> ow \<in> fst ` set L \<longleftrightarrow> (\<exists>c. (ow, c) \<in> pairs_of L)"
  by (force simp: list_ok_def pairs_of_def)

lemma release_from_spec:
  assumes "holds_ok h" "i \<le> sh_used h" "unat code \<le> KEY_MAX"
    "{ow. (ow, unat code) \<in> pairs h} \<subseteq> fst ` set (take i (claims_of h))"
  shows "returns (release_from code i h) (\<lambda>h'. holds_ok h' \<and> same_view h h' \<and> pairs h' = {p \<in> pairs h. snd p \<noteq> unat code})"
  using assms
proof (induction i arbitrary: h)
  case 0
  then have all: "{p \<in> pairs h. snd p \<noteq> unat code} = pairs h" by auto
  have "counted h (holders_of (mset (claims_of h)))" using 0(1) by (simp add: holds_ok_alt synced_def)
  note bit = counted_held [OF this 0(3)]
  show ?case unfolding release_from.simps [of code 0] bit all using 0(1) by (simp add: same_view_def)
next
  case (Suc i)
  let ?c = "unat code" and ?L = "claims_of h"
  have t: "table_ok h" and k: "counted h (holders_of (mset ?L))" and ok: "list_ok ?L" using Suc.prems(1) by (simp_all add: holds_ok_alt synced_def)
  have i: "i < sh_used h" "i < 1024" "i < length ?L" using Suc.prems(2) table_used [OF t] claims_of_length [OF t] by simp_all
  have Li: "snd (?L ! i) = held (cm_keys (sh_claims h ! i))" using claims_of_nth [OF t i(1)] by (simp add: claim_of_def)
  have d: "distinct (map fst ?L)" using ok by (simp add: list_ok_def)
  have tk: "fst ` set (take (Suc i) ?L) = insert (fst (?L ! i)) (fst ` set (take i ?L))" using i(3) by (simp add: take_Suc_conv_app_nth)
  show ?case
  proof (cases "holders_of (mset ?L) ?c = 0")
    case True
    then have "?c \<notin> snd ` pairs h" unfolding holders_zero pairs_def .
    then have "snd p \<noteq> ?c" if "p \<in> pairs h" for p using that by (metis imageI)
    then have all: "{p \<in> pairs h. snd p \<noteq> ?c} = pairs h" by blast
    show ?thesis unfolding release_from.simps [of code "Suc i"] counted_held [OF k Suc.prems(3)] all
      using True Suc.prems(1) by (simp add: same_view_def)
  next
    case False
    have eq: "release_from code (Suc i) h = do { h' \<leftarrow> (if ?c \<in> snd (?L ! i) then drop_key h i code else Some h); release_from code i h' }"
      using False counted_held [OF k Suc.prems(3)] key_bit_eq [OF table_keys [OF t i(2)] Suc.prems(3)] Li
      by (simp add: release_from.simps [of code "Suc i"] table_get [OF t i(2)])
    show ?thesis
    proof (cases "?c \<in> snd (?L ! i)")
      case False
      then have "(fst (?L ! i), ?c) \<notin> pairs h" using pair_at [OF d i(3)] by (simp add: pairs_def)
      then have nin: "fst (?L ! i) \<notin> {ow. (ow, ?c) \<in> pairs h}" by simp
      have sub: "{ow. (ow, ?c) \<in> pairs h} \<subseteq> fst ` set (take i ?L)" using Suc.prems(4) unfolding tk subset_insert [OF nin] .
      have "i \<le> sh_used h" using i(1) by simp
      from Suc.IH [OF Suc.prems(1) this Suc.prems(3) sub] show ?thesis unfolding eq if_not_P [OF False] bind.bind_lunit .
    next
      case True
      have "returns (do { h' \<leftarrow> drop_key h i code; release_from code i h' })
          (\<lambda>h'. holds_ok h' \<and> same_view h h' \<and> pairs h' = {p \<in> pairs h. snd p \<noteq> ?c})"
      proof (rule returns_bind [OF drop_key_spec [OF Suc.prems(1) i(1) Suc.prems(3) True]], elim conjE)
        fix g assume g: "holds_ok g" "same_view h g" "i \<le> sh_used g" "pairs g = pairs h - {(fst (?L ! i), ?c)}"
          "\<forall>j < i. claims_of g ! j = ?L ! j"
        have "length (claims_of g) = sh_used g" using g(1) claims_of_length by (simp add: holds_ok_alt synced_def)
        then have "take i (claims_of g) = take i ?L" using g(3,5) i(3) by (intro take_same) auto
        moreover have "{ow. (ow, ?c) \<in> pairs g} = {ow. (ow, ?c) \<in> pairs h} - {fst (?L ! i)}" unfolding g(4) by auto
        then have "{ow. (ow, ?c) \<in> pairs g} \<subseteq> fst ` set (take i ?L)" using Suc.prems(4) unfolding tk by (simp only: Diff_subset_conv insert_is_Un [of "fst (?L ! i)" "fst ` set (take i ?L)"])
        ultimately have "{ow. (ow, ?c) \<in> pairs g} \<subseteq> fst ` set (take i (claims_of g))" by simp
        from Suc.IH [OF g(1,3) Suc.prems(3) this] show "returns (release_from code i g) (\<lambda>h'. holds_ok h' \<and> same_view h h' \<and> pairs h' = {p \<in> pairs h. snd p \<noteq> ?c})"
        proof (rule returns_mono, elim conjE)
          fix h' assume h': "holds_ok h'" "same_view g h'" "pairs h' = {p \<in> pairs g. snd p \<noteq> ?c}"
          have "{p \<in> pairs g. snd p \<noteq> ?c} = {p \<in> pairs h. snd p \<noteq> ?c}" unfolding g(4) by auto
          then show "holds_ok h' \<and> same_view h h' \<and> pairs h' = {p \<in> pairs h. snd p \<noteq> ?c}"
            using h' g(2) by (simp add: same_view_def)
        qed
      qed
      then show ?thesis unfolding eq if_P [OF True] .
    qed
  qed
qed

lemma release_code_spec:
  assumes "holds_ok h" "unat code \<le> KEY_MAX"
  shows "returns (release_code h code) (\<lambda>h'. holds_ok h' \<and> same_view h h' \<and> pairs h' = {p \<in> pairs h. snd p \<noteq> unat code})"
proof -
  have "table_ok h" using assms(1) by (simp add: holds_ok_alt synced_def)
  then show ?thesis unfolding release_code_def
    by (intro release_from_spec) (use assms in \<open>auto simp: pairs_def pairs_of_def claims_of_length\<close>)
qed

section \<open>Loops over the keys of a bitmap\<close>

lemma byte_loop:
  assumes keys: "bitmap keys" and n: "n < KSI_KEY_BITMAP_BYTES" and P: "P C s" "\<forall>c \<in> C. c div 8 < n"
    and step: "\<And>C c t. c \<in> held keys \<Longrightarrow> c \<notin> C \<Longrightarrow> P C t \<Longrightarrow> returns (f (c div 8) (c mod 8) t) (P (insert c C))"
  shows "returns (bits_for (f n) (ucast (keys ! n)) s) (P (C \<union> {c \<in> held keys. c div 8 = n}))"
proof -
  let ?w = "ucast (keys ! n) :: u32"
  let ?xs = "filter (bit ?w) [0..<32]"
  have w: "bit ?w x \<longleftrightarrow> x < 8 \<and> bit (keys ! n) x" for x by (auto simp: bit_simps dest: bit_word_imp_less)
  have key: "n * 8 + x \<in> held keys" if "x \<in> set ?xs" for x using that w n by (auto simp: held_def)
  have small: "x < 8" if "x \<in> set ?xs" for x using that w by simp
  have "returns (mem_for (f n) ?xs s) (\<lambda>t. P (C \<union> (\<lambda>x. n * 8 + x) ` set ?xs) t)"
  proof (rule returns_mem_for [where P = "\<lambda>ys. P (C \<union> (\<lambda>x. n * 8 + x) ` set ys)"], goal_cases)
    case 1 then show ?case using P(1) by simp
  next
    case (2 ys x zs t)
    have "distinct ?xs" by simp
    then have x: "x \<in> set ?xs" "x \<notin> set ys" unfolding 2(1) by auto
    note x8 = small [OF x(1)]
    have dm: "(n * 8 + x) div 8 = n" "(n * 8 + x) mod 8 = x" using x8 by simp_all
    then have "n * 8 + x \<notin> C" using P(2) by (metis less_irrefl)
    then have new: "n * 8 + x \<notin> C \<union> (\<lambda>x. n * 8 + x) ` set ys" using x(2) by auto
    have ext: "insert (n * 8 + x) (C \<union> (\<lambda>x. n * 8 + x) ` set ys) = C \<union> (\<lambda>x. n * 8 + x) ` set (ys @ [x])" by auto
    show ?case using step [OF key [OF x(1)] new 2(2)] unfolding dm ext .
  qed
  moreover have "(\<lambda>x. n * 8 + x) ` set ?xs = {c \<in> held keys. c div 8 = n}"
  proof (intro equalityI subsetI)
    fix c assume "c \<in> {c \<in> held keys. c div 8 = n}"
    then have "bit ?w (c mod 8)" "c = n * 8 + c mod 8" using w div_mult_mod_eq [of c 8] by (auto simp: held_def)
    moreover have "c mod 8 < 32" by (rule less_trans [of _ 8]) simp_all
    ultimately show "c \<in> (\<lambda>x. n * 8 + x) ` set ?xs" by (intro rev_image_eqI [of "c mod 8"]) simp_all
  qed (use key small in auto)
  ultimately show ?thesis by (simp add: bits_for_eq)
qed

lemma key_loop:
  assumes keys: "bitmap keys" and P: "P {} s"
    and step: "\<And>C c t. c \<in> held keys \<Longrightarrow> c \<notin> C \<Longrightarrow> P C t \<Longrightarrow> returns (f (c div 8) (c mod 8) t) (P (insert c C))"
    and body: "\<And>n C t. n < KSI_KEY_BITMAP_BYTES \<Longrightarrow> P C t \<Longrightarrow> g n t = bits_for (f n) (ucast (keys ! n)) t"
  shows "returns (mem_for g [0..<KSI_KEY_BITMAP_BYTES] s) (P (held keys))"
proof -
  have "returns (mem_for g [0..<KSI_KEY_BITMAP_BYTES] s) (P {c \<in> held keys. c div 8 < KSI_KEY_BITMAP_BYTES})"
  proof (rule returns_mem_for_upt [where P = "\<lambda>n. P {c \<in> held keys. c div 8 < n}"])
    fix n t assume n: "n < KSI_KEY_BITMAP_BYTES" and Pt: "P {c \<in> held keys. c div 8 < n} t"
    have "{c \<in> held keys. c div 8 < n} \<union> {c \<in> held keys. c div 8 = n} = {c \<in> held keys. c div 8 < Suc n}" by auto
    then show "returns (g n t) (P {c \<in> held keys. c div 8 < Suc n})"
      using byte_loop [of keys n P "{c \<in> held keys. c div 8 < n}" t f, OF keys n Pt _ step] body [OF n Pt] by simp
  qed (use P in simp)
  moreover have "{c \<in> held keys. c div 8 < KSI_KEY_BITMAP_BYTES} = held keys" using held_bound by fastforce
  ultimately show ?thesis by simp
qed

section \<open>Removing whole claims\<close>

text \<open>The keys in the bitmap \<open>released\<close>, when there is one, grow by the set.\<close>

definition grown :: "bytes ptr \<Rightarrow> nat set \<Rightarrow> bytes ptr \<Rightarrow> bool" where
  "grown r K r' = (case r of None \<Rightarrow> r' = None | Some b \<Rightarrow> \<exists>b'. r' = Some b' \<and> bitmap b' \<and> held b' = held b \<union> K)"

definition optional_bitmap :: "bytes ptr \<Rightarrow> bool" where
  "optional_bitmap r = (case r of None \<Rightarrow> True | Some b \<Rightarrow> bitmap b)"

lemma grown_empty: "optional_bitmap r \<Longrightarrow> grown r {} r"
  by (simp add: grown_def optional_bitmap_def split: option.splits)

lemma grown_trans: "grown r K r' \<Longrightarrow> grown r' K' r'' \<Longrightarrow> grown r (K \<union> K') r''"
  by (auto simp: grown_def split: option.splits)

lemma grown_bitmap: "grown r K r' \<Longrightarrow> optional_bitmap r'"
  by (auto simp: grown_def optional_bitmap_def split: option.splits)

lemma set_released_spec:
  assumes "optional_bitmap r" "unat code \<le> KEY_MAX"
  shows "returns (set_released r code) (grown r {unat code})"
proof (cases r)
  case (Some b)
  then have "bitmap b" using assms(1) by (simp add: optional_bitmap_def)
  then show ?thesis using set_key_bit_eq [of b code True] assms(2) Some by (auto simp: set_released_def grown_def)
qed (simp add: set_released_def grown_def)

lemma remove_claim_spec:
  assumes h: "holds_ok h" and i: "i < sh_used h" and r: "optional_bitmap r"
  shows "returns (remove_claim h i r) (\<lambda>(h', r'). holds_ok h' \<and> same_view h h' \<and> i \<le> sh_used h'
     \<and> pairs h' = {p \<in> pairs h. fst p \<noteq> fst (claims_of h ! i)} \<and> grown r (snd ` pairs h - snd ` pairs h') r'
     \<and> (\<forall>j < i. claims_of h' ! j = claims_of h ! j))"
proof -
  let ?L = "claims_of h" and ?x = "sh_claims h ! i"
  let ?N = "holders_of (mset ?L)" and ?K = "held (cm_keys ?x)"
  have t: "table_ok h" and k: "counted h ?N" and ok: "list_ok ?L" using h by (simp_all add: holds_ok_alt synced_def)
  have i': "i < 1024" "i < length ?L" using i table_used [OF t] claims_of_length [OF t] by simp_all
  have Li: "snd (?L ! i) = ?K" using claims_of_nth [OF t i] by (simp add: claim_of_def)
  note bm = table_keys [OF t i'(1)]
  define Q where "Q C = (\<lambda>(g, r'). counted g (\<lambda>c. ?N c - (if c \<in> C then 1 else 0)) \<and> same_table h g \<and> grown r {c \<in> C. ?N c = 1} r')" for C
  have loop: "returns (mem_for (\<lambda>byte (holds, released). do {
         c \<leftarrow> arr_get (sh_claims holds) i;
         b \<leftarrow> rd8 (cm_keys c) byte;
         bits_for (remove_claim_code byte) (ucast b) (holds, released)
       }) [0..<KSI_KEY_BITMAP_BYTES] (h, r)) (Q ?K)"
  proof (rule key_loop [OF bm, where P = Q and f = remove_claim_code])
    show "Q {} (h, r)" using k grown_empty [OF r] by (simp add: Q_def same_table_def)
  next
    fix C c y assume c: "c \<in> ?K" "c \<notin> C" and y: "Q C y"
    obtain g r' where gr: "y = (g, r')" by force
    have code: "unat (of_nat c :: u16) = c" "c \<le> KEY_MAX" using held_bound [OF c(1)] code_of_nat by auto
    have dm: "c div 8 * 8 + c mod 8 = c" by simp
    have y': "counted g (\<lambda>c. ?N c - (if c \<in> C then 1 else 0))" "same_table h g" "grown r {c \<in> C. ?N c = 1} r'" using y by (simp_all add: Q_def gr)
    have pos: "?N c > 0" using holders_pos [OF i'(2), of c] c(1) Li by simp
    have rh: "returns (remove_holder g (of_nat c)) (\<lambda>(gone, g'). counted g' ((\<lambda>c. ?N c - (if c \<in> C then 1 else 0))(c := ?N c - 1))
        \<and> gone = (?N c = 1) \<and> same_table g g')"
      using remove_holder_spec [OF y'(1), of "of_nat c"] code c(2) pos by simp
    have upd: "(\<lambda>c. ?N c - (if c \<in> C then 1 else 0))(c := ?N c - 1) = (\<lambda>d. ?N d - (if d \<in> insert c C then 1 else 0))" using c(2) by auto
    show "returns (remove_claim_code (c div 8) (c mod 8) y) (Q (insert c C))"
      unfolding remove_claim_code_def gr prod.case dm Let_def
    proof (rule returns_bind [OF rh], clarify)
      fix g' assume g': "counted g' ((\<lambda>c. ?N c - (if c \<in> C then 1 else 0))(c := ?N c - 1))" "same_table g g'"
      have st: "same_table h g'" using y'(2) g'(2) by (simp add: same_table_def)
      show "returns (do { released \<leftarrow> (if ?N c = 1 then set_released r' (of_nat c) else Some r'); Some (g', released) }) (Q (insert c C))"
      proof (cases "?N c = 1")
        case True
        have "{d \<in> insert c C. ?N d = 1} = {d \<in> C. ?N d = 1} \<union> {c}" using True by auto
        then have fin: "Q (insert c C) (g', x)" if "grown r' {c} x" for x
          using g'(1) [unfolded upd] st grown_trans [OF y'(3) that] unfolding Q_def prod.case by simp
        have "returns (set_released r' (of_nat c)) (grown r' {c})"
          using set_released_spec [OF grown_bitmap [OF y'(3)], of "of_nat c"] code by simp
        then show ?thesis unfolding if_P [OF True] by (rule returns_bind) (simp add: fin)
      next
        case False
        then have "{d \<in> insert c C. ?N d = 1} = {d \<in> C. ?N d = 1}" by auto
        then show ?thesis using False g'(1) [unfolded upd] st y'(3) unfolding if_not_P [OF False] by (simp add: Q_def)
      qed
    qed
  next
    fix n C y assume "n < KSI_KEY_BITMAP_BYTES" "Q C y"
    then show "(case y of (holds, released) \<Rightarrow> do { c \<leftarrow> arr_get (sh_claims holds) i; b \<leftarrow> rd8 (cm_keys c) n;
        bits_for (remove_claim_code n) (ucast b) (holds, released) }) = bits_for (remove_claim_code n) (ucast (cm_keys ?x ! n)) y"
      using bm t i'(1) by (cases y) (simp add: Q_def same_table_def table_get rd8_def bitmap_def)
  qed
  show ?thesis unfolding remove_claim_def
  proof (rule returns_bind [OF loop], clarify)
    fix g r' assume "Q ?K (g, r')"
    then have g: "counted g (\<lambda>c. ?N c - (if c \<in> ?K then 1 else 0))" "same_table h g" "grown r {c \<in> ?K. ?N c = 1} r'" by (simp_all add: Q_def)
    have tg: "table_ok g" "claims_of g = ?L" "sh_used g = sh_used h" "same_view h g"
      using same_tableD [OF g(2)] t g(2) by (simp_all add: same_table_def same_view_def)
    show "returns (do { holds \<leftarrow> swap_remove g i; Some (holds, r') }) (\<lambda>(h', r'). holds_ok h' \<and> same_view h h' \<and> i \<le> sh_used h'
       \<and> pairs h' = {p \<in> pairs h. fst p \<noteq> fst (?L ! i)} \<and> grown r (snd ` pairs h - snd ` pairs h') r' \<and> (\<forall>j < i. claims_of h' ! j = ?L ! j))"
    proof (rule returns_bind [OF swap_remove_spec [OF tg(1)]], use i tg(3) in simp, elim conjE)
      fix h' assume h': "table_ok h'" "mset (claims_of h') = mset (claims_of g) - {#claims_of g ! i#}" "sh_used h' = sh_used g - 1"
        "same_view g h'" "sh_holders h' = sh_holders g" "sh_held h' = sh_held g" "\<forall>j < i. claims_of h' ! j = claims_of g ! j"
      note rm = list_ok_removed [OF h'(2) [unfolded tg(2)] ok i'(2)]
      have N': "holders_of (mset (claims_of h')) c = ?N c - (if c \<in> ?K then 1 else 0)" for c using rm(3) Li by simp
      have "counted h' (holders_of (mset (claims_of h')))" using g(1) h'(5,6) by (simp add: counted_def N')
      moreover have "{c \<in> ?K. ?N c = 1} = snd ` pairs h - snd ` pairs h'"
      proof (rule set_eqI)
        fix c
        have "c \<in> ?K \<Longrightarrow> ?N c > 0" using rm(4) Li by simp
        then have "c \<in> ?K \<and> ?N c = 1 \<longleftrightarrow> ?N c \<noteq> 0 \<and> holders_of (mset (claims_of h')) c = 0" unfolding N' by auto
        then show "c \<in> {c \<in> ?K. ?N c = 1} \<longleftrightarrow> c \<in> snd ` pairs h - snd ` pairs h'"
          unfolding holders_zero by (simp add: pairs_def)
      qed
      ultimately show "returns (Some (h', r')) (\<lambda>(h', r'). holds_ok h' \<and> same_view h h' \<and> i \<le> sh_used h'
         \<and> pairs h' = {p \<in> pairs h. fst p \<noteq> fst (?L ! i)} \<and> grown r (snd ` pairs h - snd ` pairs h') r' \<and> (\<forall>j < i. claims_of h' ! j = ?L ! j))"
        using rm(1,2) h'(1,3,4,7) tg(2-4) g(3) i by (simp add: holds_ok_alt synced_def pairs_def same_view_def)
    qed
  qed
qed

lemma owner_is_dead_returns:
  assumes "forward_wf s"
  obtains b where "owner_is_dead ow v s = Some b"
proof (cases "ow = None \<or> so_target (the ow) = 0")
  case True
  then have "owner_is_dead ow v s = Some False" by (auto simp: owner_is_dead_def split: option.splits)
  then show thesis by (rule that)
next
  case False
  then obtain x where x: "ow = Some x" "so_target x \<noteq> 0" by auto
  obtain r where r: "find_device_locked (so_target x) v s = Some r" "\<And>i. r = Some i \<Longrightarrow> i < 128"
    by (rule find_device [OF assms, of "so_target x" v]) blast
  then have "owner_is_dead ow v s \<noteq> None" using x get_device_in [OF assms]
    by (cases r) (auto simp: owner_is_dead_def ksi_linux_forward_failed_def)
  then show thesis using that by blast
qed

text \<open>Which owners a filter selects: those it matches, or without a filter those whose source has ended.\<close>

definition selects :: "ksi_synth_owner ptr \<Rightarrow> ksi_forward_view \<Rightarrow> forward_state \<Rightarrow> ksi_synth_owner \<Rightarrow> bool" where
  "selects f v s ow = (case f of Some flt \<Rightarrow> owner_matches ow flt | None \<Rightarrow> owner_is_dead (Some ow) v s = Some True)"

lemma diff_chain: "C \<subseteq> B \<Longrightarrow> B \<subseteq> A \<Longrightarrow> (A - B) \<union> (B - C) = A - C"
  by blast

lemma drop_claims_from_spec:
  assumes "holds_ok h" "i \<le> sh_used h" "optional_bitmap r" "forward_wf s" "v = sh_view h"
    "{ow \<in> fst ` set (claims_of h). selects f v s ow} \<subseteq> fst ` set (take i (claims_of h))"
  shows "returns (drop_claims_from f s i h r) (\<lambda>(h', r'). holds_ok h' \<and> same_view h h'
     \<and> pairs h' = {p \<in> pairs h. \<not> selects f v s (fst p)} \<and> grown r (snd ` pairs h - snd ` pairs h') r')"
  using assms
proof (induction i arbitrary: h r)
  case 0
  then have "\<not> selects f v s ow" if "ow \<in> fst ` set (claims_of h)" for ow using that by auto
  moreover have "fst p \<in> fst ` set (claims_of h)" if "p \<in> pairs h" for p using that by (auto simp: pairs_def pairs_of_def intro: rev_image_eqI)
  ultimately have all: "{p \<in> pairs h. \<not> selects f v s (fst p)} = pairs h" by blast
  show ?case using 0(1,3) by (simp add: all same_view_def grown_empty)
next
  case (Suc i)
  let ?L = "claims_of h"
  have t: "table_ok h" and ok: "list_ok ?L" using Suc.prems(1) by (simp_all add: holds_ok_alt synced_def)
  have i: "i < sh_used h" "i < 1024" "i < length ?L" "i \<le> sh_used h" using Suc.prems(2) table_used [OF t] claims_of_length [OF t] by simp_all
  have Li: "cm_owner (sh_claims h ! i) = fst (?L ! i)" using claims_of_nth [OF t i(1)] by (simp add: claim_of_def)
  have d: "distinct (map fst ?L)" using ok by (simp add: list_ok_def)
  have tk: "fst ` set (take (Suc i) ?L) = insert (fst (?L ! i)) (fst ` set (take i ?L))" using i(3) by (simp add: take_Suc_conv_app_nth)
  let ?sel = "selects f v s (fst (?L ! i))"
  obtain b where b: "owner_is_dead (Some (fst (?L ! i))) v s = Some b" by (rule owner_is_dead_returns [OF Suc.prems(4)])
  have eq: "drop_claims_from f s (Suc i) h r = do {
      (g, r') \<leftarrow> (if ?sel then remove_claim h i r else Some (h, r)); drop_claims_from f s i g r' }"
  proof (cases f)
    case None
    then show ?thesis using b by (cases b) (simp_all add: table_get [OF t i(2)] Li selects_def Suc.prems(5) [symmetric])
  next
    case (Some flt)
    then show ?thesis by (simp add: table_get [OF t i(2)] Li selects_def)
  qed
  show ?case
  proof (cases ?sel)
    case False
    then have nin: "fst (?L ! i) \<notin> {ow \<in> fst ` set ?L. selects f v s ow}" by simp
    have "{ow \<in> fst ` set ?L. selects f v s ow} \<subseteq> fst ` set (take i ?L)" using Suc.prems(6) unfolding tk subset_insert [OF nin] .
    from Suc.IH [OF Suc.prems(1) i(4) Suc.prems(3-5) this] show ?thesis unfolding eq if_not_P [OF False] bind.bind_lunit prod.case .
  next
    case True
    show ?thesis unfolding eq if_P [OF True]
    proof (rule returns_bind [OF remove_claim_spec [OF Suc.prems(1) i(1) Suc.prems(3)]], clarify)
      fix g r' assume g: "holds_ok g" "same_view h g" "i \<le> sh_used g" "pairs g = {p \<in> pairs h. fst p \<noteq> fst (?L ! i)}"
        "grown r (snd ` pairs h - snd ` pairs g) r'" "\<forall>j < i. claims_of g ! j = ?L ! j"
      have lg: "list_ok (claims_of g)" "length (claims_of g) = sh_used g" using g(1) claims_of_length by (simp_all add: holds_ok_alt synced_def)
      have "take i (claims_of g) = take i ?L" using g(3,6) lg(2) i(3) by (intro take_same) auto
      moreover have "{ow \<in> fst ` set (claims_of g). selects f v s ow} \<subseteq> fst ` set (take i ?L)"
      proof
        fix ow assume "ow \<in> {ow \<in> fst ` set (claims_of g). selects f v s ow}"
        then obtain c where c: "(ow, c) \<in> pairs g" "selects f v s ow" using owner_pairs [OF lg(1), of ow] by (auto simp: pairs_def)
        then have ne: "ow \<noteq> fst (?L ! i)" "(ow, c) \<in> pairs_of ?L" unfolding g(4) by (simp_all add: pairs_def)
        then have "ow \<in> {ow \<in> fst ` set ?L. selects f v s ow}" using c(2) owner_pairs [OF ok, of ow] by blast
        then have "ow \<in> insert (fst (?L ! i)) (fst ` set (take i ?L))" using Suc.prems(6) unfolding tk by (rule rev_subsetD)
        then show "ow \<in> fst ` set (take i ?L)" using ne(1) by simp
      qed
      ultimately have "{ow \<in> fst ` set (claims_of g). selects f v s ow} \<subseteq> fst ` set (take i (claims_of g))" by simp
      moreover have "v = sh_view g" using g(2) Suc.prems(5) by (simp add: same_view_def)
      ultimately have IH: "returns (drop_claims_from f s i g r') (\<lambda>(h', r''). holds_ok h' \<and> same_view g h'
          \<and> pairs h' = {p \<in> pairs g. \<not> selects f v s (fst p)} \<and> grown r' (snd ` pairs g - snd ` pairs h') r'')"
        by (intro Suc.IH g(1,3) grown_bitmap [OF g(5)] Suc.prems(4))
      show "returns (drop_claims_from f s i g r') (\<lambda>(h', r'). holds_ok h' \<and> same_view h h'
          \<and> pairs h' = {p \<in> pairs h. \<not> selects f v s (fst p)} \<and> grown r (snd ` pairs h - snd ` pairs h') r')"
      proof (rule returns_mono [OF IH])
        fix y assume y: "case y of (h', r'') \<Rightarrow> holds_ok h' \<and> same_view g h'
          \<and> pairs h' = {p \<in> pairs g. \<not> selects f v s (fst p)} \<and> grown r' (snd ` pairs g - snd ` pairs h') r''"
        obtain h' r'' where yh: "y = (h', r'')" by force
        note h' = y [unfolded yh prod.case, THEN conjunct1] y [unfolded yh prod.case, THEN conjunct2, THEN conjunct1]
          y [unfolded yh prod.case, THEN conjunct2, THEN conjunct2, THEN conjunct1]
          y [unfolded yh prod.case, THEN conjunct2, THEN conjunct2, THEN conjunct2]
        have p: "pairs h' = {p \<in> pairs h. \<not> selects f v s (fst p)}" unfolding h'(3) g(4) using True by auto
        have "pairs h' \<subseteq> pairs g" "pairs g \<subseteq> pairs h" unfolding h'(3) g(4) by auto
        then have chain: "(snd ` pairs h - snd ` pairs g) \<union> (snd ` pairs g - snd ` pairs h') = snd ` pairs h - snd ` pairs h'"
          by (intro diff_chain image_mono)
        have view: "same_view h h'" using h'(2) g(2) by (simp add: same_view_def)
        have gr: "grown r (snd ` pairs h - snd ` pairs h') r''" using grown_trans [OF g(5) h'(4)] unfolding chain .
        show "case y of (h', r') \<Rightarrow> holds_ok h' \<and> same_view h h' \<and> pairs h' = {p \<in> pairs h. \<not> selects f v s (fst p)}
            \<and> grown r (snd ` pairs h - snd ` pairs h') r'"
          unfolding yh prod.case by (intro conjI h'(1) view p gr)
      qed
    qed
  qed
qed

lemma drop_claims_spec:
  assumes "holds_ok h" "optional_bitmap r" "forward_wf s"
  shows "returns (drop_claims h f r s) (\<lambda>(h', r'). holds_ok h' \<and> same_view h h'
     \<and> pairs h' = {p \<in> pairs h. \<not> selects f (sh_view h) s (fst p)} \<and> grown r (snd ` pairs h - snd ` pairs h') r')"
proof -
  have "table_ok h" using assms(1) by (simp add: holds_ok_alt synced_def)
  then show ?thesis unfolding drop_claims_def
    by (intro drop_claims_from_spec assms) (auto simp: claims_of_length)
qed

lemma sweep_spec:
  assumes "holds_ok h" "optional_bitmap r" "forward_wf s"
  shows "returns (sweep_dead_targets h r s) (\<lambda>(h', r'). holds_ok h' \<and> sh_view h' = sh_view h
     \<and> (pairs h' = pairs h \<or> pairs h' = {p \<in> pairs h. \<not> selects None (sh_view h) s (fst p)}))"
proof (cases "sh_epoch h = ksi_linux_forward_epoch s")
  case True
  then show ?thesis using assms(1) by (simp add: sweep_dead_targets_def)
next
  case False
  let ?h = "h\<lparr>sh_epoch := ksi_linux_forward_epoch s\<rparr>"
  have "holds_ok ?h" "pairs ?h = pairs h" using assms(1) by (simp_all add: holds_ok_def table_ok_def counted_def claims_of_def pairs_def)
  then show ?thesis using drop_claims_spec [of ?h r s None] assms(2,3) False
    by (auto simp: sweep_dead_targets_def same_view_def elim!: returns_mono)
qed

section \<open>One key transition\<close>

definition owner_or_anonymous :: "ksi_synth_owner ptr \<Rightarrow> ksi_synth_owner" where
  "owner_or_anonymous owner = (case owner of None \<Rightarrow> anonymous_owner | Some ow \<Rightarrow> ow)"

lemma apply_press_spec:
  assumes h: "holds_ok h" and s: "forward_inv s" and code: "unat code \<le> KEY_MAX"
  shows "returns (apply_key h code True restore owner s) (\<lambda>(r, h', s'). holds_ok h' \<and> same_view h h' \<and> forward_inv s'
     \<and> (r = 0 \<and> h' = h \<and> restore \<or> r = 0 \<and> pairs h' = insert (owner_or_anonymous owner, unat code) (pairs h)
        \<or> r = -1 \<and> h' = h \<and> sh_used h = KSI_SYNTH_CLAIM_CAPACITY \<and> (\<forall>c. (owner_or_anonymous owner, c) \<notin> pairs h)))"
proof -
  have first: "returns (if restore then ksi_linux_forward_restore_key code (sh_view h) s else Some (False, s))
      (\<lambda>(b, t). forward_inv t \<and> (b \<longrightarrow> restore))"
    using returns_mono [OF shift_key_inv(2) [OF s, of code "sh_view h"]] s by (cases restore) (auto elim!: returns_mono)
  show ?thesis unfolding apply_key_def if_True Let_def
  proof (rule returns_bind [OF first], clarify)
    fix b t assume t: "forward_inv t" "b \<longrightarrow> restore"
    show "returns (if b then Some (0, h, t)
          else do { (r, h') \<leftarrow> hold_key h (case owner of None \<Rightarrow> anonymous_owner | Some ow \<Rightarrow> ow) code; Some (r, h', t) })
        (\<lambda>(r, h', s'). holds_ok h' \<and> same_view h h' \<and> forward_inv s'
         \<and> (r = 0 \<and> h' = h \<and> restore \<or> r = 0 \<and> pairs h' = insert (owner_or_anonymous owner, unat code) (pairs h)
            \<or> r = -1 \<and> h' = h \<and> sh_used h = KSI_SYNTH_CLAIM_CAPACITY \<and> (\<forall>c. (owner_or_anonymous owner, c) \<notin> pairs h)))"
    proof (cases b)
      case True then show ?thesis using t h by (simp add: same_view_def)
    next
      case False
      show ?thesis unfolding if_not_P [OF False] owner_or_anonymous_def [symmetric]
        by (rule returns_bind [OF hold_key_spec [OF h code, of "owner_or_anonymous owner"]]) (use t(1) in auto)
    qed
  qed
qed

lemma apply_release_spec:
  assumes h: "holds_ok h" and s: "forward_inv s" and code: "unat code \<le> KEY_MAX"
  shows "returns (apply_key h code False restore owner s) (\<lambda>(r, h', s'). holds_ok h' \<and> same_view h h' \<and> forward_inv s' \<and> r = 0
     \<and> (if (owner_or_anonymous owner, unat code) \<in> pairs h
        then pairs h' = pairs h - {(owner_or_anonymous owner, unat code)} \<and> s' = s
        else pairs h' = {p \<in> pairs h. snd p \<noteq> unat code}))"
proof -
  let ?ow = "owner_or_anonymous owner" and ?L = "claims_of h"
  have t: "table_ok h" and ok: "list_ok ?L" "distinct (map fst ?L)" using h by (simp_all add: holds_ok_alt synced_def list_ok_def)
  obtain f where f: "find_claim h ?ow = Some f" "\<And>i. f = Some i \<Longrightarrow> i < sh_used h \<and> fst (?L ! i) = ?ow"
    "f = None \<Longrightarrow> ?ow \<notin> fst ` set ?L" by (rule find_claim_spec [OF t]) blast
  define mine where "mine = (case f of None \<Rightarrow> None | Some i \<Rightarrow> if unat code \<in> snd (?L ! i) then Some i else None)"
  have m: "(case f of None \<Rightarrow> Some None | Some i \<Rightarrow> do { c \<leftarrow> arr_get (sh_claims h) i; b \<leftarrow> ksi_key_bit (cm_keys c) code;
      Some (if b then Some i else None) }) = Some mine"
  proof (cases f)
    case (Some i)
    then have i: "i < sh_used h" "i < 1024" using f(2) table_used [OF t] by auto
    show ?thesis using Some claims_of_nth [OF t i(1)]
      by (simp add: mine_def table_get [OF t i(2)] key_bit_eq [OF table_keys [OF t i(2)] code] claim_of_def)
  qed (simp add: mine_def)
  have eq: "apply_key h code False restore owner s = (case mine of
       Some i \<Rightarrow> do { h \<leftarrow> drop_key h i code; Some (0, h, s) }
     | None \<Rightarrow> do { s \<leftarrow> ksi_linux_forward_release_key code (sh_view h) s; h \<leftarrow> release_code h code; Some (0, h, s) })"
    unfolding apply_key_def owner_or_anonymous_def [symmetric] Let_def if_False f(1) bind.bind_lunit m by simp
  show ?thesis
  proof (cases mine)
    case (Some i)
    then have i: "i < sh_used h" "fst (?L ! i) = ?ow" "unat code \<in> snd (?L ! i)" using f(2) by (auto simp: mine_def split: option.splits if_splits)
    then have "(?ow, unat code) \<in> pairs h" using pair_at [OF ok(2), of i] claims_of_length [OF t] by (simp add: pairs_def)
    then show ?thesis unfolding eq Some option.case if_P [OF \<open>(?ow, unat code) \<in> pairs h\<close>]
      by (intro returns_bind [OF drop_key_spec [OF h i(1) code i(3)]]) (use s i(2) in auto)
  next
    case None
    have "(?ow, unat code) \<notin> pairs h"
    proof (cases f)
      case (Some i)
      then have "i < sh_used h" "fst (?L ! i) = ?ow" "unat code \<notin> snd (?L ! i)" using f(2) None by (auto simp: mine_def split: if_splits)
      then show ?thesis using pair_at [OF ok(2), of i "unat code"] claims_of_length [OF t] by (simp add: pairs_def)
    next
      case none: None
      then show ?thesis using f(3) owner_pairs [OF ok(1), of ?ow] by (auto simp: pairs_def)
    qed
    then show ?thesis unfolding eq None option.case if_not_P [OF \<open>(?ow, unat code) \<notin> pairs h\<close>]
      by (intro returns_bind [OF shift_key_inv(1) [OF s, of code "sh_view h"]] returns_bind [OF release_code_spec [OF h code]]) auto
  qed
qed

section \<open>Properties\<close>

text \<open>What the key-state queries report of a table, and the clearing of the table of admitted output.\<close>

definition ksi_linux_synth_add_logical_key_state :: "bytes \<Rightarrow> nat \<Rightarrow> synth_holds \<Rightarrow> forward_state \<Rightarrow> (bytes \<times> synth_holds) mem" where
  "ksi_linux_synth_add_logical_key_state keys key_bytes holds s = do {
     (holds, _) \<leftarrow> sweep_dead_targets holds None s;
     keys \<leftarrow> mem_for (\<lambda>i keys. if i < KSI_KEY_BITMAP_BYTES then do {
         a \<leftarrow> rd8 keys i; b \<leftarrow> rd8 (sh_held holds) i; wr8 keys i (a OR b) } else Some keys) [0..<key_bytes] keys;
     Some (keys, holds)
   }"

definition ksi_linux_synth_reset_enqueued_synth :: "synth_holds \<Rightarrow> synth_holds" where
  "ksi_linux_synth_reset_enqueued_synth holds = holds\<lparr>sh_used := 0, sh_holders := replicate (KEY_MAX + 1) 0,
     sh_held := replicate KSI_KEY_BITMAP_BYTES 0\<rparr>"

text \<open>Any sequence of key transitions, releases by filter, sweeps and resets, over the forwarding table.\<close>

inductive synth_reach :: "ksi_forward_view \<Rightarrow> forward_state \<Rightarrow> synth_holds \<Rightarrow> forward_state \<Rightarrow> bool" for v s0 where
  Initial: "synth_reach v s0 (initial_holds v) s0"
| Transition: "synth_reach v s0 h s \<Longrightarrow> unat code \<le> KEY_MAX \<Longrightarrow> apply_key h code down restore owner s = Some (r, h', s') \<Longrightarrow>
    synth_reach v s0 h' s'"
| Released: "synth_reach v s0 h s \<Longrightarrow> optional_bitmap b \<Longrightarrow> drop_claims h (Some f) b s = Some (h', b') \<Longrightarrow> synth_reach v s0 h' s"
| Swept: "synth_reach v s0 h s \<Longrightarrow> optional_bitmap b \<Longrightarrow> sweep_dead_targets h b s = Some (h', b') \<Longrightarrow> synth_reach v s0 h' s"
| Reset: "synth_reach v s0 h s \<Longrightarrow> synth_reach v s0 (ksi_linux_synth_reset_enqueued_synth h) s"
| Forwarding: "synth_reach v s0 h s \<Longrightarrow> forward_inv s' \<Longrightarrow> synth_reach v s0 h s'"

lemma empty_holds_ok: "length (sh_claims h) = KSI_SYNTH_CLAIM_CAPACITY \<Longrightarrow> \<forall>c \<in> set (sh_claims h). bitmap (cm_keys c) \<Longrightarrow>
  holds_ok (ksi_linux_synth_reset_enqueued_synth h)"
  using bitmap_zero by (simp add: holds_ok_def table_ok_def counted_def claims_of_def holders_of_def ksi_linux_synth_reset_enqueued_synth_def)

lemma initial_holds_ok: "holds_ok (initial_holds v)"
proof -
  have "holds_ok (ksi_linux_synth_reset_enqueued_synth (initial_holds v))"
    using bitmap_zero by (intro empty_holds_ok) (auto simp: initial_holds_def zero_claim_def)
  then show ?thesis by (simp add: ksi_linux_synth_reset_enqueued_synth_def initial_holds_def)
qed

lemma apply_key_keeps:
  assumes "holds_ok h" "forward_inv s" "unat code \<le> KEY_MAX"
  shows "returns (apply_key h code down restore owner s) (\<lambda>(r, h', s'). holds_ok h' \<and> forward_inv s')"
  using apply_press_spec [OF assms, of restore owner] apply_release_spec [OF assms, of restore owner]
  by (cases down) (auto elim!: returns_mono)

lemma reach_keeps: "synth_reach v s0 h s \<Longrightarrow> forward_inv s0 \<Longrightarrow> holds_ok h \<and> forward_inv s"
proof (induction rule: synth_reach.induct)
  case Initial then show ?case using initial_holds_ok by simp
next
  case (Transition h s code down restore owner r h' s')
  then show ?case using apply_key_keeps [of h s code down restore owner] by simp
next
  case (Released h s b f h' b')
  then show ?case using drop_claims_spec [of h b s "Some f"] by (simp add: forward_invD)
next
  case (Swept h s b h' b')
  then show ?case using sweep_spec [of h b s] by (simp add: forward_invD)
next
  case (Reset h s)
  then show ?case using empty_holds_ok [of h] by (simp add: holds_ok_def table_ok_def)
qed simp

lemma holders_card:
  assumes "list_ok L"
  shows "holders_of (mset L) c = card {ow. (ow, c) \<in> pairs_of L}"
proof -
  have d: "distinct (map fst L)" using assms by (simp add: list_ok_def)
  have "holders_of (mset L) c = length (filter (\<lambda>x. c \<in> snd x) L)" by (simp add: holders_of_def flip: mset_filter)
  also have "\<dots> = length (map fst (filter (\<lambda>x. c \<in> snd x) L))" by simp
  also have "\<dots> = card (set (map fst (filter (\<lambda>x. c \<in> snd x) L)))"
    by (rule distinct_card [symmetric]) (use d in \<open>simp add: distinct_map_filter\<close>)
  also have "set (map fst (filter (\<lambda>x. c \<in> snd x) L)) = {ow. (ow, c) \<in> pairs_of L}" by (auto simp: pairs_of_def image_iff)
  finally show ?thesis .
qed

text \<open>
  C9. However key transitions, releases, sweeps and resets follow each other while the forwarding
  table changes, the number of holders of every key is the number of owners that hold it, without
  wrap-around, the bitmap shows exactly the keys that someone holds, and the next transition is
  again carried out without an access out of bounds.
\<close>

theorem synth_holds_exact:
  assumes "synth_reach v s0 h s" "forward_inv s0"
  shows "sh_used h \<le> KSI_SYNTH_CLAIM_CAPACITY
    \<and> (\<forall>c \<le> KEY_MAX. unat (sh_holders h ! c) = card {ow. (ow, c) \<in> pairs h})
    \<and> (\<forall>c \<le> KEY_MAX. c \<in> held (sh_held h) \<longleftrightarrow> (\<exists>ow. (ow, c) \<in> pairs h))
    \<and> (\<forall>code down restore owner. unat code \<le> KEY_MAX \<longrightarrow> apply_key h code down restore owner s \<noteq> None)"
proof -
  have ok: "holds_ok h" "forward_inv s" using reach_keeps [OF assms] by simp_all
  then have L: "list_ok (claims_of h)" and k: "counted h (holders_of (mset (claims_of h)))" and "table_ok h"
    by (simp_all add: holds_ok_alt synced_def)
  have "unat (sh_holders h ! c) = card {ow. (ow, c) \<in> pairs h}" if "c \<le> KEY_MAX" for c
    using that k holders_card [OF L, of c] by (simp add: counted_def pairs_def)
  moreover have "c \<in> held (sh_held h) \<longleftrightarrow> (\<exists>ow. (ow, c) \<in> pairs h)" if "c \<le> KEY_MAX" for c
    using that k holders_zero [of "claims_of h" c] unfolding counted_def pairs_def by (auto simp: image_iff)
  moreover have "apply_key h code down restore owner s \<noteq> None" if "unat code \<le> KEY_MAX" for code down restore owner
    using apply_key_keeps [OF ok that, of down restore owner] by (auto simp: returns_ex)
  ultimately show ?thesis using table_used [OF \<open>table_ok h\<close>] by simp
qed

theorem synth_holds_exact_witness:
  "synth_reach KSI_FORWARD_ENQUEUED (initial_forward_state (\<lambda>_. True)) (initial_holds KSI_FORWARD_ENQUEUED) (initial_forward_state (\<lambda>_. True))
   \<and> apply_key (initial_holds KSI_FORWARD_ENQUEUED) 30 True True None (initial_forward_state (\<lambda>_. True)) \<noteq> None"
proof -
  have r: "synth_reach KSI_FORWARD_ENQUEUED (initial_forward_state (\<lambda>_. True)) (initial_holds KSI_FORWARD_ENQUEUED) (initial_forward_state (\<lambda>_. True))"
    by (rule synth_reach.Initial)
  have "unat (30 :: u16) \<le> KEY_MAX" by simp
  then show ?thesis using synth_holds_exact [OF r initial_inv] r by blast
qed



text \<open>
  C11. Releasing the claims of a filter ends exactly the holds of the owners that match it; without a
  filter exactly those whose source target has ended. The bitmap handed in receives exactly the keys
  that lost their last holder.
\<close>

theorem synth_release_exact:
  assumes "holds_ok h" "optional_bitmap r" "forward_inv s"
  shows "returns (drop_claims h f r s) (\<lambda>(h', r'). holds_ok h' \<and> sh_view h' = sh_view h
     \<and> pairs h' = {p \<in> pairs h. \<not> selects f (sh_view h) s (fst p)}
     \<and> grown r (snd ` pairs h - snd ` pairs h') r')"
  using drop_claims_spec [OF assms(1,2) forward_invD(1) [OF assms(3)], of f]
  by (auto simp: same_view_def elim!: returns_mono)

theorem synth_release_exact_witness:
  "returns (drop_claims (initial_holds KSI_FORWARD_APPLIED) (Some anonymous_owner) None (initial_forward_state (\<lambda>_. True)))
     (\<lambda>(h', r'). holds_ok h' \<and> r' = None)"
  by (rule returns_mono [OF synth_release_exact [OF initial_holds_ok _ initial_inv]]) (auto simp: optional_bitmap_def grown_def)

end
