(* ===== verification/Errno.thy ===== *)
theory Errno
  imports Prelude
begin

text \<open>
  The error numbers of Linux that the sources compare \<open>errno\<close> with or store in it.
\<close>

definition EPERM :: int where [simp]: "EPERM = 1"
definition ENOENT :: int where [simp]: "ENOENT = 2"
definition EINTR :: int where [simp]: "EINTR = 4"
definition EIO :: int where [simp]: "EIO = 5"
definition EBADF :: int where [simp]: "EBADF = 9"
definition ENOMEM :: int where [simp]: "ENOMEM = 12"
definition EEXIST :: int where [simp]: "EEXIST = 17"
definition EISDIR :: int where [simp]: "EISDIR = 21"
definition EINVAL :: int where [simp]: "EINVAL = 22"
definition ENOSYS :: int where [simp]: "ENOSYS = 38"
definition ELOOP :: int where [simp]: "ELOOP = 40"

end
