(* ===== verification/Active_Session.thy ===== *)
theory Active_Session
  imports Prelude Errno
begin

text \<open>
  The resolver of the active session's user, src/src/active_session.c: it loads one function of
  libsystemd and asks it for the user of the local seat. The dynamic loader and the loaded function
  are parameters. A failing operation returns -1 and sets \<open>errno\<close>.
\<close>


definition KSI_LOCAL_SEAT :: string where "KSI_LOCAL_SEAT = ''seat0''"
definition KSI_SYSTEMD_LIBRARY :: string where "KSI_SYSTEMD_LIBRARY = ''libsystemd.so.0''"

text \<open>\<open>sd_seat_get_active\<close>: from the seat and the user variable to the result and the variable.\<close>

type_synonym ksi_sd_seat_get_active_fn = "string \<Rightarrow> u32 \<Rightarrow> int32 \<times> u32"

record ksi_active_session_resolver =
  ar_library_handle :: "nat ptr"
  ar_seat_get_active :: "ksi_sd_seat_get_active_fn ptr"
  ar_owns_library_handle :: bool

definition resolver_clear :: ksi_active_session_resolver where
  "resolver_clear = \<lparr>ar_library_handle = None, ar_seat_get_active = None, ar_owns_library_handle = False\<rparr>"

text \<open>
  The loader: \<open>ld_dlopen\<close> gives a handle or none, \<open>ld_dlsym\<close> the error flag and the symbol. The
  state is the list of handles that are open.
\<close>

record loader =
  ld_dlopen :: "string \<Rightarrow> nat ptr"
  ld_dlsym :: "nat \<Rightarrow> string \<Rightarrow> bool \<times> ksi_sd_seat_get_active_fn ptr"

text \<open>Each operation gives the result, \<open>errno\<close> when it was set, the resolver and the open handles.\<close>

definition ksi_active_session_resolver_init ::
  "loader \<Rightarrow> ksi_active_session_resolver ptr \<Rightarrow> nat list \<Rightarrow> int \<times> int option \<times> ksi_active_session_resolver ptr \<times> nat list" where
  "ksi_active_session_resolver_init ld resolver handles =
    (if resolver = None then (-1, Some EINVAL, resolver, handles)
     else case ld_dlopen ld KSI_SYSTEMD_LIBRARY of
       None \<Rightarrow> (-1, Some ENOSYS, Some resolver_clear, handles)
     | Some handle \<Rightarrow>
         let handles' = handle # handles; (error, symbol) = ld_dlsym ld handle ''sd_seat_get_active''
         in if error \<or> symbol = None then (-1, Some ENOSYS, Some resolver_clear, remove1 handle handles')
            else (0, None, Some \<lparr>ar_library_handle = Some handle, ar_seat_get_active = symbol, ar_owns_library_handle = True\<rparr>, handles'))"

definition ksi_active_session_resolver_init_for_test ::
  "ksi_active_session_resolver ptr \<Rightarrow> ksi_sd_seat_get_active_fn ptr \<Rightarrow> int \<times> int option \<times> ksi_active_session_resolver ptr" where
  "ksi_active_session_resolver_init_for_test resolver seat_get_active =
    (if resolver = None \<or> seat_get_active = None then (-1, Some EINVAL, resolver)
     else (0, None, Some (resolver_clear\<lparr>ar_seat_get_active := seat_get_active\<rparr>)))"

definition ksi_active_session_resolver_get_uid ::
  "ksi_active_session_resolver ptr \<Rightarrow> u32 ptr \<Rightarrow> int \<times> int option \<times> u32 ptr" where
  "ksi_active_session_resolver_get_uid resolver uid_out =
    (case (resolver, uid_out) of
       (Some r, Some _) \<Rightarrow>
         (case ar_seat_get_active r of
            None \<Rightarrow> (-1, Some ENOSYS, uid_out)
          | Some seat_get_active \<Rightarrow>
              let (result, active_uid) = seat_get_active KSI_LOCAL_SEAT (-1)
              in if sint result < 0
                 then let query_error = - result in (-1, Some (if sint query_error > 0 then sint query_error else EIO), uid_out)
                 else if active_uid = -1 then (-1, Some ENOENT, uid_out)
                 else (0, None, Some active_uid))
     | _ \<Rightarrow> (-1, Some EINVAL, uid_out))"

definition ksi_active_session_resolver_cleanup ::
  "ksi_active_session_resolver ptr \<Rightarrow> nat list \<Rightarrow> ksi_active_session_resolver ptr \<times> nat list" where
  "ksi_active_session_resolver_cleanup resolver handles =
    (case resolver of None \<Rightarrow> (None, handles)
     | Some r \<Rightarrow>
         (Some resolver_clear,
          if ar_owns_library_handle r then (case ar_library_handle r of Some h \<Rightarrow> remove1 h handles | None \<Rightarrow> handles) else handles))"

text \<open>
  C34. The gate on the session's user is closed by default. A query succeeds exactly when the
  resolver has the function and the function reports success with a valid user, and only then
  is the caller's variable written, with that user; every other result is -1 with a positive
  \<open>errno\<close> and the variable unchanged. The user variable starts as the invalid user, so a function
  that reports success without writing it does not open the gate.
\<close>

theorem get_uid_closed_gate:
  assumes "ksi_active_session_resolver_get_uid (Some r) (Some old) = (result, err, out)"
  shows "if (\<exists>f uid. ar_seat_get_active r = Some f \<and> sint (fst (f ''seat0'' (-1))) \<ge> 0 \<and> snd (f ''seat0'' (-1)) = uid \<and> uid \<noteq> -1)
     then result = 0 \<and> (\<exists>f. ar_seat_get_active r = Some f \<and> out = Some (snd (f ''seat0'' (-1))) \<and> out \<noteq> Some (-1))
     else result = -1 \<and> out = Some old \<and> (\<exists>e. err = Some e \<and> e > 0)"
proof (cases "ar_seat_get_active r")
  case None
  then show ?thesis using assms by (auto simp: ksi_active_session_resolver_get_uid_def)
next
  case (Some f)
  obtain n uid where f: "f ''seat0'' (-1) = (n, uid)" by fastforce
  show ?thesis using assms Some f
    by (auto simp: ksi_active_session_resolver_get_uid_def KSI_LOCAL_SEAT_def Let_def split: if_splits)
qed

theorem get_uid_closed_gate_witness:
  "\<exists>result err out. ksi_active_session_resolver_get_uid (Some (resolver_clear\<lparr>ar_seat_get_active := Some (\<lambda>seat uid. (0, uid))\<rparr>)) (Some 7)
     = (result, err, out) \<and> result = -1 \<and> out = Some 7"
proof -
  obtain result err out where e: "ksi_active_session_resolver_get_uid
      (Some (resolver_clear\<lparr>ar_seat_get_active := Some (\<lambda>seat uid. (0, uid))\<rparr>)) (Some 7) = (result, err, out)" by (metis prod_cases3)
  with get_uid_closed_gate [OF e] show ?thesis by auto
qed

text \<open>
  Loading and unloading balance: a failed initialisation leaves no library open and a cleared
  resolver; cleaning up after a successful one closes exactly the library it opened; and cleaning
  up again closes nothing.
\<close>

theorem resolver_lifecycle:
  assumes "ksi_active_session_resolver_init ld (Some r) handles = (result, err, out, open1)"
    and "ksi_active_session_resolver_cleanup out open1 = (out2, open2)"
  shows "open2 = handles \<and> (result = 0 \<or> result = -1 \<and> out = Some resolver_clear \<and> open1 = handles \<and> (\<exists>e. err = Some e \<and> e > 0))
    \<and> out2 = Some resolver_clear \<and> ksi_active_session_resolver_cleanup out2 others = (out2, others)
    \<and> ksi_active_session_resolver_get_uid out2 (Some uid) = (-1, Some ENOSYS, Some uid)"
  using assms
  by (auto simp: ksi_active_session_resolver_init_def ksi_active_session_resolver_cleanup_def resolver_clear_def
      ksi_active_session_resolver_get_uid_def Let_def split: option.splits if_splits prod.splits)

theorem resolver_lifecycle_witness:
  "\<exists>result err out open1 out2 open2. ksi_active_session_resolver_init
      \<lparr>ld_dlopen = \<lambda>_. Some 4, ld_dlsym = \<lambda>_ _. (False, Some (\<lambda>seat uid. (0, 1000)))\<rparr> (Some resolver_clear) [] = (result, err, out, open1)
     \<and> ksi_active_session_resolver_cleanup out open1 = (out2, open2) \<and> open1 = [4] \<and> open2 = []"
proof -
  let ?ld = "\<lparr>ld_dlopen = \<lambda>_. Some 4, ld_dlsym = \<lambda>_ _. (False, Some (\<lambda>seat uid. (0, 1000)))\<rparr>"
  obtain result err out open1 where i: "ksi_active_session_resolver_init ?ld (Some resolver_clear) [] = (result, err, out, open1)"
    by (metis prod_cases4)
  obtain out2 open2 where c: "ksi_active_session_resolver_cleanup out open1 = (out2, open2)" by fastforce
  have "open1 = [4]" using i by (simp add: ksi_active_session_resolver_init_def)
  with resolver_lifecycle [OF i c] i c show ?thesis by metis
qed

end
