(* ===== verification/Owned_Text_File.thy ===== *)
theory Owned_Text_File
  imports Program_Logic Errno "HOL-Library.Sublist"
begin

text \<open>
  The writer of a text file that only its owner can replace, src/src/owned_text_file.c. The file
  system is explicit: names, inodes and descriptors. The kernel may refuse any call with any error
  number, and decides how many bytes a read or a write moves; the position of a call in the trace
  selects its answer. The retry loops on \<open>EINTR\<close> may run forever, then the model has no value; every
  other loop is shown to end.
\<close>

unbundle bit_operations_syntax

section \<open>The file system\<close>

datatype file_kind = Regular_File | Directory | Symbolic_Link | Special_File

record inode =
  st_kind :: file_kind
  st_perm :: u32
  st_uid :: u32
  st_gid :: u32
  st_nlink :: nat
  file_data :: string

datatype file_call =
    Call_Strdup
  | Call_Lstat string
  | Call_Open string
  | Call_Create string
  | Call_Fstat nat
  | Call_Lseek nat
  | Call_Read nat nat
  | Call_Write nat string
  | Call_Fchown nat u32 u32
  | Call_Fchmod nat u32
  | Call_Fsync nat
  | Call_Close nat
  | Call_Unlink string

record file_system =
  fs_names :: "string \<Rightarrow> nat option"
  fs_inodes :: "nat \<Rightarrow> inode"
  fs_next_inode :: nat
  fs_fds :: "nat \<Rightarrow> (nat \<times> nat) option"
  fs_next_fd :: nat
  fs_errno :: int
  fs_trace :: "file_call list"

record file_env =
  env_answer :: "nat \<Rightarrow> int + nat"
  env_uid :: u32
  env_gid :: u32
  env_umask :: u32

definition set_errno :: "int \<Rightarrow> file_system \<Rightarrow> file_system" where
  "set_errno x s = s\<lparr>fs_errno := x\<rparr>"

definition file_call :: "file_env \<Rightarrow> file_call \<Rightarrow> (nat \<Rightarrow> file_system \<Rightarrow> 'a option \<times> file_system) \<Rightarrow>
    file_system \<Rightarrow> 'a option \<times> file_system" where
  "file_call e c f s =
     (let t = s\<lparr>fs_trace := fs_trace s @ [c]\<rparr>
      in case env_answer e (length (fs_trace s)) of
           Inl x \<Rightarrow> (None, set_errno x t)
         | Inr n \<Rightarrow> f n t)"

definition with_fd :: "nat \<Rightarrow> (nat \<Rightarrow> nat \<Rightarrow> file_system \<Rightarrow> 'a option \<times> file_system) \<Rightarrow>
    file_system \<Rightarrow> 'a option \<times> file_system" where
  "with_fd d f s = (case fs_fds s d of None \<Rightarrow> (None, set_errno EBADF s) | Some (i, pos) \<Rightarrow> f i pos s)"

definition new_fd :: "nat \<Rightarrow> file_system \<Rightarrow> nat option \<times> file_system" where
  "new_fd i s = (Some (fs_next_fd s),
     s\<lparr>fs_fds := (fs_fds s)(fs_next_fd s := Some (i, 0)), fs_next_fd := fs_next_fd s + 1\<rparr>)"

definition set_inode :: "nat \<Rightarrow> inode \<Rightarrow> file_system \<Rightarrow> file_system" where
  "set_inode i x s = s\<lparr>fs_inodes := (fs_inodes s)(i := x)\<rparr>"

definition set_fd :: "nat \<Rightarrow> (nat \<times> nat) option \<Rightarrow> file_system \<Rightarrow> file_system" where
  "set_fd d x s = s\<lparr>fs_fds := (fs_fds s)(d := x)\<rparr>"

definition sys_strdup :: "file_env \<Rightarrow> string \<Rightarrow> file_system \<Rightarrow> string option \<times> file_system" where
  "sys_strdup e p = file_call e Call_Strdup (\<lambda>_ s. (Some p, s))"

definition sys_lstat :: "file_env \<Rightarrow> string \<Rightarrow> file_system \<Rightarrow> inode option \<times> file_system" where
  "sys_lstat e p = file_call e (Call_Lstat p) (\<lambda>_ s.
     case fs_names s p of None \<Rightarrow> (None, set_errno ENOENT s) | Some i \<Rightarrow> (Some (fs_inodes s i), s))"

definition sys_open :: "file_env \<Rightarrow> string \<Rightarrow> file_system \<Rightarrow> nat option \<times> file_system" where
  "sys_open e p = file_call e (Call_Open p) (\<lambda>_ s.
     case fs_names s p of
       None \<Rightarrow> (None, set_errno ENOENT s)
     | Some i \<Rightarrow> (if st_kind (fs_inodes s i) = Symbolic_Link then (None, set_errno ELOOP s)
                 else if st_kind (fs_inodes s i) = Directory then (None, set_errno EISDIR s)
                 else new_fd i s))"

definition sys_create :: "file_env \<Rightarrow> string \<Rightarrow> u32 \<Rightarrow> file_system \<Rightarrow> nat option \<times> file_system" where
  "sys_create e p mode = file_call e (Call_Create p) (\<lambda>_ s.
     case fs_names s p of
       Some i \<Rightarrow> (None, set_errno EEXIST s)
     | None \<Rightarrow> (let i = fs_next_inode s in
         new_fd i (set_inode i \<lparr>st_kind = Regular_File, st_perm = mode AND NOT (env_umask e),
             st_uid = env_uid e, st_gid = env_gid e, st_nlink = 1, file_data = []\<rparr>
           (s\<lparr>fs_names := (fs_names s)(p := Some i), fs_next_inode := i + 1\<rparr>))))"

definition sys_fstat :: "file_env \<Rightarrow> nat \<Rightarrow> file_system \<Rightarrow> inode option \<times> file_system" where
  "sys_fstat e d = file_call e (Call_Fstat d) (\<lambda>_. with_fd d (\<lambda>i _ s. (Some (fs_inodes s i), s)))"

definition sys_lseek_start :: "file_env \<Rightarrow> nat \<Rightarrow> file_system \<Rightarrow> unit option \<times> file_system" where
  "sys_lseek_start e d = file_call e (Call_Lseek d) (\<lambda>_. with_fd d (\<lambda>i _ s. (Some (), set_fd d (Some (i, 0)) s)))"

definition sys_read :: "file_env \<Rightarrow> nat \<Rightarrow> nat \<Rightarrow> file_system \<Rightarrow> string option \<times> file_system" where
  "sys_read e d wanted = file_call e (Call_Read d wanted) (\<lambda>n. with_fd d (\<lambda>i pos s.
     let chunk = take (min n wanted) (drop pos (file_data (fs_inodes s i)))
     in (Some chunk, set_fd d (Some (i, pos + length chunk)) s)))"

definition sys_write :: "file_env \<Rightarrow> nat \<Rightarrow> string \<Rightarrow> file_system \<Rightarrow> nat option \<times> file_system" where
  "sys_write e d text = file_call e (Call_Write d text) (\<lambda>n. with_fd d (\<lambda>i pos s.
     let chunk = take n text; x = fs_inodes s i; data = file_data x
     in (Some (length chunk),
         set_fd d (Some (i, pos + length chunk))
           (set_inode i (x\<lparr>file_data := take pos data @ chunk @ drop (pos + length chunk) data\<rparr>) s))))"

text \<open>A change of owner takes the set-user-ID and set-grp-ID bits away.\<close>

definition sys_fchown :: "file_env \<Rightarrow> nat \<Rightarrow> u32 \<Rightarrow> u32 \<Rightarrow> file_system \<Rightarrow> unit option \<times> file_system" where
  "sys_fchown e d uid gid = file_call e (Call_Fchown d uid gid) (\<lambda>_. with_fd d (\<lambda>i _ s.
     let x = fs_inodes s i
     in (Some (), set_inode i (x\<lparr>st_uid := uid, st_gid := gid, st_perm := st_perm x AND 0x3FF\<rparr>) s)))"

definition sys_fchmod :: "file_env \<Rightarrow> nat \<Rightarrow> u32 \<Rightarrow> file_system \<Rightarrow> unit option \<times> file_system" where
  "sys_fchmod e d mode = file_call e (Call_Fchmod d mode) (\<lambda>_. with_fd d (\<lambda>i _ s.
     (Some (), set_inode i ((fs_inodes s i)\<lparr>st_perm := mode\<rparr>) s)))"

definition sys_fsync :: "file_env \<Rightarrow> nat \<Rightarrow> file_system \<Rightarrow> unit option \<times> file_system" where
  "sys_fsync e d = file_call e (Call_Fsync d) (\<lambda>_ s. (Some (), s))"

text \<open>Linux releases the descriptor also when \<open>close\<close> reports an error.\<close>

definition sys_close :: "file_env \<Rightarrow> nat \<Rightarrow> file_system \<Rightarrow> unit option \<times> file_system" where
  "sys_close e d s = file_call e (Call_Close d) (\<lambda>_ t. (Some (), t)) (set_fd d None s)"

definition sys_unlink :: "file_env \<Rightarrow> string \<Rightarrow> file_system \<Rightarrow> unit option \<times> file_system" where
  "sys_unlink e p = file_call e (Call_Unlink p) (\<lambda>_ s.
     case fs_names s p of
       None \<Rightarrow> (None, set_errno ENOENT s)
     | Some i \<Rightarrow> (Some (), set_inode i ((fs_inodes s i)\<lparr>st_nlink := st_nlink (fs_inodes s i) - 1\<rparr>)
                   (s\<lparr>fs_names := (fs_names s)(p := None)\<rparr>)))"

section \<open>The operations\<close>

definition strstr :: "string \<Rightarrow> string \<Rightarrow> bool" where
  "strstr hay needle = list_ex (\<lambda>i. take (length needle) (drop i hay) = needle) [0..<Suc (length hay)]"

definition is_simple_absolute_path :: "string ptr \<Rightarrow> bool" where
  "is_simple_absolute_path path =
     (case path of
        None \<Rightarrow> False
      | Some p \<Rightarrow>
          (if take 1 p \<noteq> ''/'' \<or> strstr p ''//'' \<or> strstr p ''/./'' \<or> strstr p ''/../'' then False
           else length p > 1
             \<and> \<not> (length p \<ge> 2 \<and> drop (length p - 2) p = ''/.'')
             \<and> \<not> (length p \<ge> 3 \<and> drop (length p - 3) p = ''/..'')))"

definition strrchr_slash :: "string \<Rightarrow> nat option" where
  "strrchr_slash p =
     (let k = length (takeWhile (\<lambda>c. c \<noteq> CHR ''/'') (rev p))
      in if k < length p then Some (length p - 1 - k) else None)"

text \<open>Cuts the last component; no separator would be a write through a null pointer.\<close>

definition cut_component :: "string \<Rightarrow> string mem" where
  "cut_component current =
     do { separator \<leftarrow> strrchr_slash current;
          Some (if separator = 0 then take 1 current else take separator current) }"

definition S_IWGRP :: u32 where [simp]: "S_IWGRP = 0x10"
definition S_IWOTH :: u32 where [simp]: "S_IWOTH = 0x2"

function chain_walk :: "file_env \<Rightarrow> u32 \<Rightarrow> string \<Rightarrow> string \<Rightarrow> file_system \<Rightarrow> (bool \<times> file_system) mem" where
  "chain_walk e owner root current s =
     (case sys_lstat e current s of (info, t) \<Rightarrow>
        if (case info of None \<Rightarrow> True
            | Some x \<Rightarrow> st_kind x \<noteq> Directory \<or> st_uid x \<noteq> owner
                \<or> st_perm x AND (S_IWGRP OR S_IWOTH) \<noteq> 0)
        then Some (False, if fs_errno t = 0 then set_errno EPERM t else t)
        else if current = root then Some (True, t)
        else if current = ''/'' then Some (False, set_errno EPERM t)
        else case cut_component current of None \<Rightarrow> None | Some parent \<Rightarrow> chain_walk e owner root parent t)"
  by pat_completeness auto

lemma strrchr_slash_Some:
  assumes "strrchr_slash p = Some i"
  shows "i < length p" "p ! i = CHR ''/''" "\<And>j. i < j \<Longrightarrow> j < length p \<Longrightarrow> p ! j \<noteq> CHR ''/''"
proof -
  let ?k = "length (takeWhile (\<lambda>c. c \<noteq> CHR ''/'') (rev p))"
  have k: "?k < length p" and i: "i = length p - 1 - ?k"
    using assms by (auto simp: strrchr_slash_def Let_def split: if_splits)
  show "i < length p" using k i by simp
  have "rev p ! ?k = CHR ''/''" using nth_length_takeWhile [of "\<lambda>c. c \<noteq> CHR ''/''" "rev p"] k by simp
  then show "p ! i = CHR ''/''" using k i by (simp add: rev_nth)
  fix j assume j: "i < j" "j < length p"
  then have "length p - 1 - j < ?k" using k i by simp
  then have "rev p ! (length p - 1 - j) \<noteq> CHR ''/''"
    using set_takeWhileD [OF nth_mem, of "length p - 1 - j" "\<lambda>c. c \<noteq> CHR ''/''" "rev p"] by (simp add: takeWhile_nth)
  then show "p ! j \<noteq> CHR ''/''" using j by (simp add: rev_nth)
qed

lemma cut_component_shorter:
  assumes "cut_component p = Some q" "p \<noteq> ''/''"
  shows "length q < length p"
proof -
  obtain i where i: "strrchr_slash p = Some i" "q = (if i = 0 then take 1 p else take i p)"
    using assms(1) by (auto simp: cut_component_def bind_eq_Some_conv)
  note s = strrchr_slash_Some [OF i(1)]
  have "length p \<noteq> 1" if "i = 0" using s(1,2) that assms(2) by (cases p; cases "tl p") auto
  then show ?thesis using s(1) i(2) by (cases p) (auto split: if_splits)
qed

termination chain_walk
  by (relation "measure (\<lambda>(_, _, _, current, _). length current)") (auto dest: cut_component_shorter)

declare chain_walk.simps [simp del]

definition parent_chain_is_protected ::
    "file_env \<Rightarrow> string ptr \<Rightarrow> u32 \<Rightarrow> string ptr \<Rightarrow> file_system \<Rightarrow> (bool \<times> file_system) mem" where
  "parent_chain_is_protected e path owner protected_root s =
     (case (path, protected_root) of
        (Some p, Some root) \<Rightarrow>
          (if \<not> is_simple_absolute_path path \<or> take 1 root \<noteq> ''/''
              \<or> (length root \<noteq> 1 \<and> last root = CHR ''/'')
           then Some (False, set_errno EINVAL s)
           else case sys_strdup e p s of
                  (None, t) \<Rightarrow> Some (False, t)
                | (Some current, t) \<Rightarrow>
                    do { parent \<leftarrow> cut_component current;
                         (protected, u) \<leftarrow> chain_walk e owner root parent (set_errno 0 t);
                         Some (protected, if \<not> protected \<and> fs_errno u = 0 then set_errno EPERM u else u) })
      | _ \<Rightarrow> Some (False, set_errno EINVAL s))"

partial_function (option) match_loop ::
    "file_env \<Rightarrow> nat \<Rightarrow> string \<Rightarrow> nat \<Rightarrow> file_system \<Rightarrow> (bool \<times> file_system) mem" where
  "match_loop e d contents offset s =
     (if offset < length contents then
        (case sys_read e d (min (length contents - offset) 4096) s of (got, t) \<Rightarrow>
          (case got of
             None \<Rightarrow> if fs_errno t = EINTR then match_loop e d contents offset t else Some (False, t)
           | Some buffer \<Rightarrow>
               if buffer = [] \<or> buffer \<noteq> take (length buffer) (drop offset contents)
               then Some (False, set_errno EEXIST t)
               else match_loop e d contents (offset + length buffer) t))
      else Some (True, s))"

definition descriptor_matches_text :: "file_env \<Rightarrow> nat \<Rightarrow> string \<Rightarrow> file_system \<Rightarrow> (bool \<times> file_system) mem" where
  "descriptor_matches_text e d contents s =
     (case sys_fstat e d s of
        (None, t) \<Rightarrow> Some (False, t)
      | (Some info, t) \<Rightarrow>
          (if st_kind info \<noteq> Regular_File \<or> st_nlink info \<noteq> 1 \<or> length (file_data info) \<noteq> length contents
           then Some (False, set_errno EEXIST t)
           else case sys_lseek_start e d t of
                  (None, u) \<Rightarrow> Some (False, u)
                | (Some _, u) \<Rightarrow> match_loop e d contents 0 u))"

text \<open>The error exit of the two writers: the error number survives the cleanup.\<close>

definition close_and_fail :: "file_env \<Rightarrow> nat \<Rightarrow> int \<Rightarrow> file_system \<Rightarrow> int \<times> file_system" where
  "close_and_fail e d saved_error s = (-1, set_errno saved_error (snd (sys_close e d s)))"

definition fchown_unless :: "file_env \<Rightarrow> nat \<Rightarrow> inode \<Rightarrow> u32 \<Rightarrow> u32 \<Rightarrow> file_system \<Rightarrow> unit option \<times> file_system" where
  "fchown_unless e d info owner grp s =
     (if st_uid info \<noteq> owner \<or> st_gid info \<noteq> grp then sys_fchown e d owner grp s else (Some (), s))"

definition secure_existing_file ::
    "file_env \<Rightarrow> string \<Rightarrow> string \<Rightarrow> u32 \<Rightarrow> u32 \<Rightarrow> file_system \<Rightarrow> (int \<times> file_system) mem" where
  "secure_existing_file e path contents owner grp s =
     (case sys_open e path s of
        (None, s) \<Rightarrow> Some (-1, s)
      | (Some d, s) \<Rightarrow>
     do { (matches, s) \<leftarrow> descriptor_matches_text e d contents s;
          if \<not> matches then Some (close_and_fail e d (if fs_errno s \<noteq> 0 then fs_errno s else EEXIST) s)
          else case sys_fstat e d s of
            (None, s) \<Rightarrow> Some (close_and_fail e d (fs_errno s) s)
          | (Some info, s) \<Rightarrow>
         (case fchown_unless e d info owner grp s of
            (None, s) \<Rightarrow> Some (close_and_fail e d (fs_errno s) s)
          | (Some _, s) \<Rightarrow>
         (case (if st_perm info AND 0xFFF \<noteq> 0x1A4 then sys_fchmod e d 0x1A4 s else (Some (), s)) of
            (None, s) \<Rightarrow> Some (close_and_fail e d (fs_errno s) s)
          | (Some _, s) \<Rightarrow>
         (case sys_fsync e d s of
            (None, s) \<Rightarrow> Some (close_and_fail e d (if fs_errno s \<noteq> 0 then fs_errno s else EPERM) s)
          | (Some _, s) \<Rightarrow>
         (case sys_fstat e d s of
            (None, s) \<Rightarrow> Some (close_and_fail e d (if fs_errno s \<noteq> 0 then fs_errno s else EPERM) s)
          | (Some info, s) \<Rightarrow>
              (if st_uid info \<noteq> owner \<or> st_gid info \<noteq> grp \<or> st_perm info AND 0xFFF \<noteq> 0x1A4
               then Some (close_and_fail e d (if fs_errno s \<noteq> 0 then fs_errno s else EPERM) s)
               else case sys_close e d s of
                      (None, s) \<Rightarrow> Some (-1, s)
                    | (Some _, s) \<Rightarrow> Some (0, s))))))})"

partial_function (option) write_all_from ::
    "file_env \<Rightarrow> nat \<Rightarrow> string \<Rightarrow> nat \<Rightarrow> file_system \<Rightarrow> (int \<times> file_system) mem" where
  "write_all_from e d contents offset s =
     (if offset < length contents then
        (case sys_write e d (drop offset contents) s of (count, t) \<Rightarrow>
          (case count of
             None \<Rightarrow> if fs_errno t = EINTR then write_all_from e d contents offset t else Some (-1, t)
           | Some n \<Rightarrow>
               if n = 0 then Some (-1, set_errno EIO t)
               else write_all_from e d contents (offset + n) t))
      else Some (0, s))"

definition write_all :: "file_env \<Rightarrow> nat \<Rightarrow> string \<Rightarrow> file_system \<Rightarrow> (int \<times> file_system) mem" where
  "write_all e d contents = write_all_from e d contents 0"

text \<open>The calls of the condition after the creation, in order; \<open>None\<close> is the first failure.\<close>

definition fill_new_file ::
    "file_env \<Rightarrow> nat \<Rightarrow> string \<Rightarrow> u32 \<Rightarrow> u32 \<Rightarrow> file_system \<Rightarrow> (unit option \<times> file_system) mem" where
  "fill_new_file e d contents owner grp s =
     do { (written, s) \<leftarrow> write_all e d contents s;
          if written \<noteq> 0 then Some (None, s)
          else Some (case sys_fstat e d s of
            (None, s) \<Rightarrow> (None, s)
          | (Some info, s) \<Rightarrow>
         (case fchown_unless e d info owner grp s of
            (None, s) \<Rightarrow> (None, s)
          | (Some _, s) \<Rightarrow>
         (case sys_fchmod e d 0x1A4 s of
            (None, s) \<Rightarrow> (None, s)
          | (Some _, s) \<Rightarrow> sys_fsync e d s))) }"

definition ksi_ensure_owned_text_file ::
    "file_env \<Rightarrow> string ptr \<Rightarrow> string ptr \<Rightarrow> u32 \<Rightarrow> u32 \<Rightarrow> string ptr \<Rightarrow> file_system \<Rightarrow> (int \<times> file_system) mem" where
  "ksi_ensure_owned_text_file e path contents owner grp protected_root s =
     (case contents of
        None \<Rightarrow> Some (-1, s)
      | Some text_contents \<Rightarrow>
     do { (protected, s) \<leftarrow> parent_chain_is_protected e path owner protected_root s;
          if \<not> protected then Some (-1, s)
          else do {
            p \<leftarrow> path;
            case sys_create e p 0x180 s of
              (None, s) \<Rightarrow> (if fs_errno s = EEXIST then secure_existing_file e p text_contents owner grp s
                           else Some (-1, s))
            | (Some d, s) \<Rightarrow>
                do { (filled, s) \<leftarrow> fill_new_file e d text_contents owner grp s;
                     case filled of
                       None \<Rightarrow>
                         (let saved_error = fs_errno s; s = snd (sys_close e d s); s = snd (sys_unlink e p s)
                          in Some (-1, set_errno saved_error s))
                     | Some _ \<Rightarrow>
                         (case sys_close e d s of
                            (None, s) \<Rightarrow>
                              (let saved_error = fs_errno s; s = snd (sys_unlink e p s)
                               in Some (-1, set_errno saved_error s))
                          | (Some _, s) \<Rightarrow> Some (0, s)) } } })"

section \<open>The walk over the parent directories\<close>

text \<open>\<open>d\<close> is a directory above \<open>p\<close>, in the spelling of absolute paths.\<close>

definition ancestor :: "string \<Rightarrow> string \<Rightarrow> bool" where
  "ancestor d p \<longleftrightarrow> (d = ''/'' \<and> p \<noteq> ''/'' \<and> take 1 p = ''/'') \<or> (d \<noteq> [] \<and> prefix (d @ ''/'') p)"

definition dir_protected :: "file_system \<Rightarrow> u32 \<Rightarrow> string \<Rightarrow> bool" where
  "dir_protected s owner d =
     (case fs_names s d of
        None \<Rightarrow> False
      | Some i \<Rightarrow> st_kind (fs_inodes s i) = Directory \<and> st_uid (fs_inodes s i) = owner
          \<and> \<not> bit (st_perm (fs_inodes s i)) 4 \<and> \<not> bit (st_perm (fs_inodes s i)) 1)"

lemma write_bits: "w AND (S_IWGRP OR S_IWOTH) = 0 \<longleftrightarrow> \<not> bit w 4 \<and> \<not> bit w 1" for w :: u32
proof -
  have eq: "S_IWGRP OR S_IWOTH = push_bit 4 1 OR push_bit 1 1" by simp
  have "bit (w AND (S_IWGRP OR S_IWOTH)) n \<longleftrightarrow> bit w n \<and> (n = 4 \<or> n = 1)" for n
    unfolding eq bit_and_iff bit_or_iff bit_push_bit_iff by (auto simp: bit_1_iff)
  moreover have "x = 0 \<longleftrightarrow> (\<forall>n. \<not> bit x n)" for x :: u32 using bit_eqI [of x 0] by auto
  ultimately show ?thesis by (metis (no_types))
qed

lemma cut_componentE:
  assumes "cut_component p = Some q"
  obtains i where "i < length p" "p ! i = CHR ''/''" "\<And>j. i < j \<Longrightarrow> j < length p \<Longrightarrow> p ! j \<noteq> CHR ''/''"
    "q = (if i = 0 then take 1 p else take i p)"
proof -
  obtain i where i: "strrchr_slash p = Some i" "q = (if i = 0 then take 1 p else take i p)"
    using assms by (auto simp: cut_component_def bind_eq_Some_conv)
  show thesis by (rule that [OF _ _ _ i(2)]) (use strrchr_slash_Some [OF i(1)] in auto)
qed

lemma cut_component_total:
  assumes "take 1 p = ''/''"
  shows "\<exists>q. cut_component p = Some q \<and> take 1 q = ''/''"
proof -
  obtain p' where p: "p = CHR ''/'' # p'" using assms by (cases p) auto
  have "length (takeWhile (\<lambda>c. c \<noteq> CHR ''/'') (rev p)) \<le> length (rev p')"
    unfolding p using length_takeWhile_le [of _ "rev p'"] by (simp add: takeWhile_append)
  then have "strrchr_slash p \<noteq> None" by (simp add: strrchr_slash_def Let_def p)
  then show ?thesis using assms p by (auto simp: cut_component_def)
qed

lemma prefix_slash_nth: "prefix (d @ ''/'') p \<longleftrightarrow> length d < length p \<and> p ! length d = CHR ''/'' \<and> take (length d) p = d"
proof
  assume "length d < length p \<and> p ! length d = CHR ''/'' \<and> take (length d) p = d"
  then have "p = (d @ ''/'') @ drop (Suc (length d)) p" using id_take_nth_drop [of "length d" p] by simp
  then show "prefix (d @ ''/'') p" unfolding prefix_def by blast
qed (auto simp: prefix_def nth_append)

lemma ancestor_cut:
  assumes p: "take 1 p = ''/''" "p \<noteq> ''/''" and q: "cut_component p = Some q"
  shows "ancestor d p \<longleftrightarrow> d = q \<or> ancestor d q"
proof -
  obtain i where i: "i < length p" "p ! i = CHR ''/''" "\<And>j. i < j \<Longrightarrow> j < length p \<Longrightarrow> p ! j \<noteq> CHR ''/''"
    "q = (if i = 0 then take 1 p else take i p)" using q by (rule cut_componentE) blast
  show ?thesis
  proof (cases "i = 0")
    case True
    then have "\<not> prefix (d @ ''/'') p" if "d \<noteq> []" using i(3) [of "length d"] that by (auto simp: prefix_slash_nth)
    moreover have "q = ''/''" using True i(4) p(1) by simp
    moreover have "\<not> ancestor d ''/''" by (cases d) (auto simp: ancestor_def)
    ultimately show ?thesis using p by (auto simp: ancestor_def)
  next
    case False
    then have t: "q = take i p" "take 1 q = ''/''" "length q = i" using i(1,4) p(1) by auto
    have step: "prefix (d @ ''/'') p \<longleftrightarrow> d = q \<or> prefix (d @ ''/'') q"
    proof (cases "length d < i")
      case True
      then have "q ! length d = p ! length d" "take (length d) q = take (length d) p" "d \<noteq> q"
        using t(3) by (auto simp: t(1) min_def)
      then show ?thesis using True i(1) t(3) by (simp add: prefix_slash_nth)
    next
      case ge: False
      show ?thesis
      proof (cases "length d = i")
        case True then show ?thesis using i(1,2) t(1,3) by (auto simp: prefix_slash_nth)
      next
        case False
        then have "\<not> prefix (d @ ''/'') p" using i(3) [of "length d"] ge by (auto simp: prefix_slash_nth)
        then show ?thesis using False ge t(3) by (auto simp: prefix_slash_nth)
      qed
    qed
    have "q \<noteq> []" using t(2) by auto
    then show ?thesis using p t(2) step unfolding ancestor_def by (cases "d = ''/''"; cases "d = q") auto
  qed
qed

definition slashes :: "string \<Rightarrow> nat" where
  "slashes p = length (filter (\<lambda>c. c = CHR ''/'') p)"

lemma slashes_cut:
  assumes p: "take 1 p = ''/''" and q: "cut_component p = Some q" "q \<noteq> ''/''"
  shows "slashes q < slashes p"
proof -
  obtain i where i: "i < length p" "p ! i = CHR ''/''" "q = (if i = 0 then take 1 p else take i p)"
    using q(1) by (rule cut_componentE) blast
  then have "i \<noteq> 0" using q(2) p by (cases "i = 0") auto
  then have "p = q @ CHR ''/'' # drop (Suc i) p" using id_take_nth_drop [OF i(1)] i(2,3) by simp
  then have "slashes p = slashes (q @ CHR ''/'' # drop (Suc i) p)" by simp
  then show ?thesis by (simp add: slashes_def)
qed

lemma ancestor_shorter: "ancestor d p \<Longrightarrow> length d < length p"
  by (cases p; cases "tl p") (auto simp: ancestor_def prefix_slash_nth)

lemma ancestor_asym: "ancestor d p \<Longrightarrow> \<not> ancestor p d"
  using ancestor_shorter [of d p] ancestor_shorter [of p d] by auto

text \<open>Files, names and descriptors are the same in both states.\<close>

definition quiet :: "file_system \<Rightarrow> file_system \<Rightarrow> bool" where
  "quiet s t \<longleftrightarrow> fs_names t = fs_names s \<and> fs_inodes t = fs_inodes s \<and> fs_next_inode t = fs_next_inode s
     \<and> fs_fds t = fs_fds s \<and> fs_next_fd t = fs_next_fd s"

lemma quiet_refl [simp]: "quiet s s"
  and quiet_trans: "quiet s t \<Longrightarrow> quiet t u \<Longrightarrow> quiet s u"
  and quiet_set_errno [simp]: "quiet s (set_errno x t) = quiet s t" "quiet (set_errno x s) t = quiet s t"
  by (auto simp: quiet_def set_errno_def)

lemma trace_set_errno [simp]: "fs_trace (set_errno x s) = fs_trace s"
  by (simp add: set_errno_def)

lemma quiet_dir_protected: "quiet s t \<Longrightarrow> dir_protected t = dir_protected s"
  by (intro ext) (auto simp: quiet_def dir_protected_def split: option.splits)

lemma sys_lstat_result:
  assumes "sys_lstat e p s = (r, t)"
  shows "quiet s t" "fs_trace t = fs_trace s @ [Call_Lstat p]"
    "r = Some x \<Longrightarrow> \<exists>i. fs_names s p = Some i \<and> x = fs_inodes s i"
  using assms by (auto simp: sys_lstat_def file_call_def Let_def quiet_def set_errno_def split: sum.splits option.splits)

definition chain_protected :: "file_system \<Rightarrow> u32 \<Rightarrow> string \<Rightarrow> string \<Rightarrow> bool" where
  "chain_protected s owner root p \<longleftrightarrow> ancestor root p
     \<and> (\<forall>d. ancestor d p \<longrightarrow> d = root \<or> ancestor root d \<longrightarrow> dir_protected s owner d)"

definition walk_bound :: "string \<Rightarrow> nat" where
  "walk_bound p = (if p = ''/'' then 1 else slashes p + 1)"

lemma walk_bound_cut:
  "take 1 p = ''/'' \<Longrightarrow> p \<noteq> ''/'' \<Longrightarrow> cut_component p = Some q \<Longrightarrow> walk_bound q \<le> slashes p"
  using slashes_cut [of p q] by (cases p) (auto simp: walk_bound_def slashes_def)

definition walk_outcome :: "u32 \<Rightarrow> string \<Rightarrow> string \<Rightarrow> file_system \<Rightarrow> bool \<Rightarrow> file_system \<Rightarrow> bool" where
  "walk_outcome owner root current s r t \<longleftrightarrow> quiet s t
     \<and> (\<exists>ps. fs_trace t = fs_trace s @ map Call_Lstat ps \<and> length ps \<le> walk_bound current)
     \<and> (r \<longrightarrow> (root = current \<or> ancestor root current)
          \<and> (\<forall>d. d = current \<or> ancestor d current \<longrightarrow> d = root \<or> ancestor root d \<longrightarrow> dir_protected s owner d))"

lemma chain_walk_outcome:
  "take 1 current = ''/'' \<Longrightarrow>
   returns (chain_walk e owner root current s) (\<lambda>(r, t). walk_outcome owner root current s r t)"
proof (induction e owner root current s rule: chain_walk.induct)
  case (1 e owner root current s)
  obtain info t where l: "sys_lstat e current s = (info, t)" by force
  note lstat = sys_lstat_result [OF l]
  have one: "\<exists>ps. fs_trace t = fs_trace s @ map Call_Lstat ps \<and> length ps \<le> walk_bound current"
    using lstat(2) by (intro exI [of _ "[current]"]) (simp add: walk_bound_def)
  have stop: "walk_outcome owner root current s False (set_errno x t)" "walk_outcome owner root current s False t" for x
    using lstat(1) one by (simp_all add: walk_outcome_def)
  define bad where "bad = (case info of None \<Rightarrow> True | Some x \<Rightarrow> st_kind x \<noteq> Directory \<or> st_uid x \<noteq> owner
    \<or> st_perm x AND (S_IWGRP OR S_IWOTH) \<noteq> 0)"
  have protected: "dir_protected s owner current" if good: "\<not> bad"
  proof (cases info)
    case (Some x)
    then show ?thesis using good lstat(3) [of x] write_bits [of "st_perm x"] by (auto simp: dir_protected_def bad_def)
  qed (use good in \<open>simp add: bad_def\<close>)
  have walk: "chain_walk e owner root current s =
      (if bad then Some (False, if fs_errno t = 0 then set_errno EPERM t else t)
       else if current = root then Some (True, t)
       else if current = ''/'' then Some (False, set_errno EPERM t)
       else case cut_component current of None \<Rightarrow> None | Some parent \<Rightarrow> chain_walk e owner root parent t)"
    unfolding chain_walk.simps [of e owner root current] l bad_def by simp
  show ?case
  proof (cases "bad \<or> current = root \<or> current = ''/''")
    case True
    have "walk_outcome owner root current s True t" if "current = root" "\<not> bad"
      using that lstat(1) one protected [OF that(2)] by (auto simp: walk_outcome_def dest: ancestor_asym)
    then show ?thesis using True stop unfolding walk by auto
  next
    case False
    obtain q where q: "cut_component current = Some q" "take 1 q = ''/''" using cut_component_total [OF "1.prems"] by blast
    have eq: "chain_walk e owner root current s = chain_walk e owner root q t"
      using False q unfolding walk by auto
    have IH: "returns (chain_walk e owner root q t) (\<lambda>(r, u). walk_outcome owner root q t r u)"
      by (rule "1.IH" [OF l [symmetric]]) (use False q in \<open>auto simp: bad_def\<close>)
    show ?thesis unfolding eq
    proof (rule returns_mono [OF IH], clarify)
      fix r u assume "walk_outcome owner root q t r u"
      then obtain ps where "fs_trace u = fs_trace t @ map Call_Lstat ps" "length ps \<le> walk_bound q" "quiet t u"
        and up: "r \<Longrightarrow> root = q \<or> ancestor root q"
          "\<And>d. r \<Longrightarrow> d = q \<or> ancestor d q \<Longrightarrow> d = root \<or> ancestor root d \<Longrightarrow> dir_protected t owner d"
        unfolding walk_outcome_def by blast
      then have calls: "fs_trace u = fs_trace s @ map Call_Lstat (current # ps)" "length (current # ps) \<le> walk_bound current" and "quiet s u"
        using lstat(1,2) walk_bound_cut [OF "1.prems" _ q(1)] False by (auto simp: walk_bound_def intro: quiet_trans)
      have anc: "ancestor d current \<longleftrightarrow> d = q \<or> ancestor d q" for d
        using False by (intro ancestor_cut [OF "1.prems" _ q(1)]) simp
      have "dir_protected s owner d" if "r" "d = current \<or> ancestor d current" "d = root \<or> ancestor root d" for d
        using that up(2) [of d] protected False by (auto simp: anc quiet_dir_protected [OF lstat(1)])
      then show "walk_outcome owner root current s r u"
        using calls up(1) \<open>quiet s u\<close> unfolding walk_outcome_def anc by blast
    qed
  qed
qed

lemma simple_path_absolute: "is_simple_absolute_path (Some p) \<Longrightarrow> take 1 p = ''/'' \<and> p \<noteq> ''/''"
  by (auto simp: is_simple_absolute_path_def split: if_splits)

lemma parent_chain_outcome:
  "returns (parent_chain_is_protected e path owner protected_root s) (\<lambda>(r, t). quiet s t
     \<and> (\<exists>ps. fs_trace t = fs_trace s @ ps \<and> set ps \<subseteq> insert Call_Strdup (range Call_Lstat)
            \<and> length ps \<le> 1 + (case path of None \<Rightarrow> 0 | Some p \<Rightarrow> slashes p))
     \<and> (r \<longrightarrow> (\<exists>p root. path = Some p \<and> protected_root = Some root \<and> chain_protected s owner root p)))"
proof (cases "\<exists>p root. path = Some p \<and> protected_root = Some root \<and> is_simple_absolute_path path
    \<and> \<not> (take 1 root \<noteq> ''/'' \<or> (length root \<noteq> 1 \<and> last root = CHR ''/''))")
  case False
  then have "parent_chain_is_protected e path owner protected_root s = Some (False, set_errno EINVAL s)"
    by (auto simp: parent_chain_is_protected_def split: option.splits)
  then show ?thesis by (auto intro!: exI [of _ "[]"])
next
  case True
  then obtain p root where pr: "path = Some p" "protected_root = Some root" "is_simple_absolute_path path"
    "\<not> (take 1 root \<noteq> ''/'' \<or> (length root \<noteq> 1 \<and> last root = CHR ''/''))" by blast
  have p: "take 1 p = ''/''" "p \<noteq> ''/''" using simple_path_absolute pr by auto
  obtain q where q: "cut_component p = Some q" "take 1 q = ''/''" using cut_component_total [OF p(1)] by blast
  obtain c t where d: "sys_strdup e p s = (c, t)" by force
  have t: "quiet s t" "fs_trace t = fs_trace s @ [Call_Strdup]" "c = None \<or> c = Some p"
    using d by (auto simp: sys_strdup_def file_call_def Let_def quiet_def set_errno_def split: sum.splits)
  show ?thesis
  proof (cases c)
    case None
    then have "parent_chain_is_protected e path owner protected_root s = Some (False, t)"
      using pr d by (auto simp: parent_chain_is_protected_def)
    then show ?thesis using t(1,2) by auto
  next
    case (Some c')
    then have c: "c = Some p" using t(3) by simp
    have eq: "parent_chain_is_protected e path owner protected_root s =
        do { (protected, u) \<leftarrow> chain_walk e owner root q (set_errno 0 t);
             Some (protected, if \<not> protected \<and> fs_errno u = 0 then set_errno EPERM u else u) }"
      using pr d q c by (auto simp: parent_chain_is_protected_def)
    show ?thesis unfolding eq
    proof (rule returns_bind [OF chain_walk_outcome [OF q(2)]], clarify)
      fix r u assume "walk_outcome owner root q (set_errno 0 t) r u"
      then obtain ps where u: "fs_trace u = fs_trace t @ map Call_Lstat ps" "length ps \<le> walk_bound q" "quiet t u"
        and up: "r \<Longrightarrow> root = q \<or> ancestor root q"
          "\<And>d. r \<Longrightarrow> d = q \<or> ancestor d q \<Longrightarrow> d = root \<or> ancestor root d \<Longrightarrow> dir_protected (set_errno 0 t) owner d"
        unfolding walk_outcome_def by auto
      have "dir_protected (set_errno 0 t) = dir_protected s" using t(1) by (simp add: quiet_dir_protected)
      then have "chain_protected s owner root p" if r
        using up that ancestor_cut [OF p q(1)] unfolding chain_protected_def by auto
      moreover have "fs_trace u = fs_trace s @ Call_Strdup # map Call_Lstat ps" "length ps \<le> slashes p"
        using t(2) u(1,2) walk_bound_cut [OF p q(1)] by auto
      ultimately show "returns (Some (r, if \<not> r \<and> fs_errno u = 0 then set_errno EPERM u else u)) (\<lambda>(r, t). quiet s t
          \<and> (\<exists>ps. fs_trace t = fs_trace s @ ps \<and> set ps \<subseteq> insert Call_Strdup (range Call_Lstat)
            \<and> length ps \<le> 1 + (case path of None \<Rightarrow> 0 | Some p \<Rightarrow> slashes p))
          \<and> (r \<longrightarrow> (\<exists>p root. path = Some p \<and> protected_root = Some root \<and> chain_protected s owner root p)))"
        using quiet_trans [OF t(1) u(3)] pr(1,2) by (auto intro!: exI [of _ "Call_Strdup # map Call_Lstat ps"])
    qed
  qed
qed

section \<open>Calls on an open file\<close>

lemmas file_call_defs = file_call_def Let_def with_fd_def set_errno_def set_fd_def set_inode_def

text \<open>Nothing but the inode \<open>i\<close> and the position of its descriptor \<open>d\<close> differs.\<close>

definition on_file :: "nat \<Rightarrow> nat \<Rightarrow> file_system \<Rightarrow> file_system \<Rightarrow> bool" where
  "on_file d i s t \<longleftrightarrow> fs_names t = fs_names s \<and> fs_next_inode t = fs_next_inode s \<and> fs_next_fd t = fs_next_fd s
     \<and> (\<forall>j. j \<noteq> i \<longrightarrow> fs_inodes t j = fs_inodes s j) \<and> (\<forall>k. k \<noteq> d \<longrightarrow> fs_fds t k = fs_fds s k)
     \<and> (\<exists>pos. fs_fds t d = Some (i, pos)) \<and> st_kind (fs_inodes t i) = st_kind (fs_inodes s i)
     \<and> st_nlink (fs_inodes t i) = st_nlink (fs_inodes s i)"

lemma on_file_trans: "on_file d i s t \<Longrightarrow> on_file d i t u \<Longrightarrow> on_file d i s u"
  by (simp add: on_file_def)

lemma on_file_set_errno [simp]: "on_file d i s (set_errno x t) = on_file d i s t"
  by (simp add: on_file_def set_errno_def)

lemma set_errno_simps [simp]: "fs_inodes (set_errno x s) = fs_inodes s" "fs_fds (set_errno x s) = fs_fds s"
  "fs_names (set_errno x s) = fs_names s" "fs_next_inode (set_errno x s) = fs_next_inode s"
  "fs_next_fd (set_errno x s) = fs_next_fd s" "fs_errno (set_errno x s) = x"
  by (simp_all add: set_errno_def)

lemma on_fileD: "on_file d i s t \<Longrightarrow> \<exists>pos. fs_fds t d = Some (i, pos)"
  by (simp add: on_file_def)

lemma sys_fstat_result:
  assumes "sys_fstat e d s = (r, t)" "fs_fds s d = Some (i, pos)"
  shows "on_file d i s t" "fs_inodes t = fs_inodes s" "fs_fds t = fs_fds s" "r = Some x \<Longrightarrow> x = fs_inodes s i"
    "r \<noteq> None \<Longrightarrow> fs_errno t = fs_errno s"
  using assms by (auto simp: sys_fstat_def file_call_defs on_file_def split: sum.splits)

lemma sys_fsync_result:
  assumes "sys_fsync e d s = (r, t)" "fs_fds s d = Some (i, pos)"
  shows "on_file d i s t" "fs_inodes t = fs_inodes s" "r \<noteq> None \<Longrightarrow> fs_errno t = fs_errno s"
  using assms by (auto simp: sys_fsync_def file_call_defs on_file_def split: sum.splits)

lemma sys_lseek_result:
  assumes "sys_lseek_start e d s = (r, t)" "fs_fds s d = Some (i, pos)"
  shows "on_file d i s t" "fs_inodes t = fs_inodes s" "r \<noteq> None \<Longrightarrow> fs_fds t d = Some (i, 0)"
  using assms by (auto simp: sys_lseek_start_def file_call_defs on_file_def split: sum.splits)

lemma sys_read_result:
  assumes "sys_read e d n s = (r, t)" "fs_fds s d = Some (i, pos)"
  shows "on_file d i s t" "fs_inodes t = fs_inodes s" "r = None \<Longrightarrow> fs_fds t d = Some (i, pos)"
    "r = Some b \<Longrightarrow> fs_fds t d = Some (i, pos + length b) \<and> b = take (length b) (drop pos (file_data (fs_inodes s i)))"
  using assms by (auto simp: sys_read_def file_call_defs on_file_def min_def split: sum.splits)

lemma sys_fchown_result:
  assumes "fchown_unless e d info uid gid s = (r, t)" "fs_fds s d = Some (i, pos)"
  shows "on_file d i s t" "file_data (fs_inodes t i) = file_data (fs_inodes s i)"
    "r \<noteq> None \<Longrightarrow> info = fs_inodes s i \<Longrightarrow> st_uid (fs_inodes t i) = uid \<and> st_gid (fs_inodes t i) = gid"
    "r \<noteq> None \<Longrightarrow> fs_errno t = fs_errno s"
  using assms by (auto simp: fchown_unless_def sys_fchown_def file_call_defs on_file_def split: sum.splits if_splits)

lemma sys_fchmod_result:
  assumes "sys_fchmod e d mode s = (r, t)" "fs_fds s d = Some (i, pos)"
  shows "on_file d i s t" "file_data (fs_inodes t i) = file_data (fs_inodes s i)"
    "st_uid (fs_inodes t i) = st_uid (fs_inodes s i)" "st_gid (fs_inodes t i) = st_gid (fs_inodes s i)"
    "r \<noteq> None \<Longrightarrow> st_perm (fs_inodes t i) = mode"
  using assms by (auto simp: sys_fchmod_def file_call_defs on_file_def split: sum.splits)

lemma sys_write_result:
  assumes "sys_write e d chars s = (r, t)" "fs_fds s d = Some (i, length done')" "file_data (fs_inodes s i) = done'"
  shows "on_file d i s t" "r = None \<Longrightarrow> fs_fds t d = Some (i, length done') \<and> file_data (fs_inodes t i) = done'"
    "r = Some n \<Longrightarrow> n \<le> length chars \<and> fs_fds t d = Some (i, length done' + n) \<and> file_data (fs_inodes t i) = done' @ take n chars"
  using assms by (auto simp: sys_write_def file_call_defs on_file_def min_def split: sum.splits)

lemma sys_close_result:
  assumes "sys_close e d s = (r, t)"
  shows "fs_names t = fs_names s" "fs_inodes t = fs_inodes s" "fs_next_inode t = fs_next_inode s"
    "fs_next_fd t = fs_next_fd s" "fs_fds t = (fs_fds s)(d := None)"
  using assms by (auto simp: sys_close_def file_call_defs split: sum.splits)

section \<open>Reading and writing\<close>

lemma take_extend:
  "take n xs = take n ys \<Longrightarrow> b = take (length b) (drop n xs) \<Longrightarrow> b = take (length b) (drop n ys) \<Longrightarrow>
   take (n + length b) xs = take (n + length b) ys"
  by (simp add: take_add)

definition matched :: "nat \<Rightarrow> nat \<Rightarrow> string \<Rightarrow> file_system \<Rightarrow> bool \<times> file_system \<Rightarrow> bool" where
  "matched d i contents s y \<longleftrightarrow> on_file d i s (snd y) \<and> fs_inodes (snd y) = fs_inodes s
     \<and> (fst y \<longrightarrow> take (length contents) (file_data (fs_inodes s i)) = contents)"

lemma matched_step: "on_file d i s u \<Longrightarrow> fs_inodes u = fs_inodes s \<Longrightarrow> matched d i contents u y \<Longrightarrow> matched d i contents s y"
  by (auto simp: matched_def intro: on_file_trans)

lemma match_loop_outcome:
  assumes "match_loop e d contents offset s = Some y"
  shows "fs_fds s d = Some (i, offset) \<longrightarrow> take offset (file_data (fs_inodes s i)) = take offset contents \<longrightarrow>
    matched d i contents s y"
proof (rule match_loop.raw_induct [OF _ assms], intro impI)
  fix f e d contents offset s y
  assume IH: "\<And>e d contents offset s y. f e d contents offset s = Some y \<Longrightarrow> fs_fds s d = Some (i, offset) \<longrightarrow>
      take offset (file_data (fs_inodes s i)) = take offset contents \<longrightarrow> matched d i contents s y"
    and body0: "(if offset < length contents then
        (case sys_read e d (min (length contents - offset) 4096) s of (got, t) \<Rightarrow>
          (case got of
             None \<Rightarrow> if fs_errno t = EINTR then f e d contents offset t else Some (False, t)
           | Some buffer \<Rightarrow>
               if buffer = [] \<or> buffer \<noteq> take (length buffer) (drop offset contents)
               then Some (False, set_errno EEXIST t)
               else f e d contents (offset + length buffer) t))
      else Some (True, s)) = Some y"
    and at: "fs_fds s d = Some (i, offset)" and same: "take offset (file_data (fs_inodes s i)) = take offset contents"
  show "matched d i contents s y"
  proof (cases "offset < length contents")
    case False
    then show ?thesis using body0 at same by (auto simp: matched_def on_file_def min_def)
  next
    case True
    obtain got u where g: "sys_read e d (min (length contents - offset) 4096) s = (got, u)" by force
    note rd = sys_read_result [OF g at]
    note go = IH [of e d contents _ u y, rule_format]
    have body: "(case got of
             None \<Rightarrow> if fs_errno u = EINTR then f e d contents offset u else Some (False, u)
           | Some buffer \<Rightarrow>
               if buffer = [] \<or> buffer \<noteq> take (length buffer) (drop offset contents)
               then Some (False, set_errno EEXIST u)
               else f e d contents (offset + length buffer) u) = Some y"
      using body0 True g by simp
    show ?thesis
    proof (cases got)
      case None
      show ?thesis
      proof (cases "fs_errno u = EINTR")
        case True
        then have "f e d contents offset u = Some y" using body None by simp
        from go [OF this rd(3) [OF None]] same show ?thesis by (intro matched_step [OF rd(1,2)]) (simp add: rd(2))
      next
        case False
        then have "y = (False, u)" using body None by simp
        then show ?thesis using rd(1,2) by (simp add: matched_def)
      qed
    next
      case (Some b)
      show ?thesis
      proof (cases "b = [] \<or> b \<noteq> take (length b) (drop offset contents)")
        case True
        then have "y = (False, set_errno EEXIST u)" using body Some by auto
        then show ?thesis using rd(1,2) by (simp add: matched_def)
      next
        case False
        then have eq: "f e d contents (offset + length b) u = Some y" using body Some by auto
        note pos = rd(4) [OF Some]
        have "take (offset + length b) (file_data (fs_inodes u i)) = take (offset + length b) contents"
          unfolding rd(2) by (rule take_extend [OF same]) (use pos False in auto)
        from go [OF eq _ this] pos show ?thesis by (intro matched_step [OF rd(1,2)]) simp
      qed
    qed
  qed
qed

lemma descriptor_matches_outcome:
  assumes "descriptor_matches_text e d contents s = Some (r, t)" "fs_fds s d = Some (i, pos)"
  shows "on_file d i s t" "fs_inodes t = fs_inodes s"
    "r \<Longrightarrow> st_kind (fs_inodes s i) = Regular_File \<and> st_nlink (fs_inodes s i) = 1 \<and> file_data (fs_inodes s i) = contents"
proof -
  obtain info u where f: "sys_fstat e d s = (info, u)" by force
  note fs = sys_fstat_result [OF f assms(2)]
  obtain r2 v where k: "sys_lseek_start e d u = (r2, v)" by force
  have ud: "fs_fds u d = Some (i, pos)" using fs(3) assms(2) by simp
  note sk = sys_lseek_result [OF k ud]
  have sv: "on_file d i s v" "fs_inodes v = fs_inodes s" using on_file_trans [OF fs(1) sk(1)] sk(2) fs(2) by auto
  consider "\<not> r" "t = u \<or> t = set_errno EEXIST u" | "\<not> r" "t = v"
    | x where "info = Some x" "r2 = Some ()" "st_kind x = Regular_File" "st_nlink x = 1"
        "length (file_data x) = length contents" "match_loop e d contents 0 v = Some (r, t)"
    using assms(1) f k by (auto simp: descriptor_matches_text_def split: option.splits if_splits prod.splits)
  then have "on_file d i s t \<and> fs_inodes t = fs_inodes s \<and> (r \<longrightarrow> st_kind (fs_inodes s i) = Regular_File
      \<and> st_nlink (fs_inodes s i) = 1 \<and> file_data (fs_inodes s i) = contents)"
  proof cases
    case 1 then show ?thesis using fs by auto
  next
    case 2 then show ?thesis using sv by auto
  next
    case (3 x)
    then have x: "x = fs_inodes s i" using fs(4) by simp
    have "matched d i contents v (r, t)" using match_loop_outcome [OF 3(6), of i] sk(3) 3(2) by simp
    then show ?thesis using sv 3 x by (auto simp: matched_def intro: on_file_trans)
  qed
  then show "on_file d i s t" "fs_inodes t = fs_inodes s"
    "r \<Longrightarrow> st_kind (fs_inodes s i) = Regular_File \<and> st_nlink (fs_inodes s i) = 1 \<and> file_data (fs_inodes s i) = contents"
    by auto
qed

text \<open>A descriptor that was opened after \<open>s\<close> and closed again leaves its inode as the only change.\<close>

definition after_close :: "nat \<Rightarrow> file_system \<Rightarrow> file_system \<Rightarrow> bool" where
  "after_close i s t \<longleftrightarrow> fs_names t = fs_names s \<and> fs_next_inode t = fs_next_inode s \<and> fs_fds t = fs_fds s
     \<and> fs_next_fd s \<le> fs_next_fd t \<and> (\<forall>j. j \<noteq> i \<longrightarrow> fs_inodes t j = fs_inodes s j)
     \<and> st_kind (fs_inodes t i) = st_kind (fs_inodes s i) \<and> st_nlink (fs_inodes t i) = st_nlink (fs_inodes s i)"

lemma after_close_set_errno [simp]: "after_close i s (set_errno x t) = after_close i s t"
  by (simp add: after_close_def)

definition opened :: "nat \<Rightarrow> nat \<Rightarrow> file_system \<Rightarrow> file_system \<Rightarrow> bool" where
  "opened d i s t \<longleftrightarrow> d = fs_next_fd s \<and> fs_fds s d = None \<and> fs_names t = fs_names s \<and> fs_next_inode t = fs_next_inode s
     \<and> fs_inodes t = fs_inodes s \<and> fs_fds t = (fs_fds s)(d := Some (i, 0)) \<and> fs_next_fd t = d + 1"

lemma close_opened:
  assumes "opened d i s u" "on_file d i u v" "sys_close e d v = (r, t)"
  shows "after_close i s t" "fs_inodes t = fs_inodes v"
proof -
  note c = sys_close_result [OF assms(3)]
  have "fs_fds t k = fs_fds s k" for k using assms(1,2) c(5) by (cases "k = d") (auto simp: opened_def on_file_def)
  then show "after_close i s t" using assms(1,2) c by (auto simp: after_close_def opened_def on_file_def)
  show "fs_inodes t = fs_inodes v" by (rule c(2))
qed

lemma sys_open_result:
  assumes "sys_open e p s = (r, t)" "fs_fds s (fs_next_fd s) = None"
  shows "r = None \<Longrightarrow> quiet s t" "r = Some d \<Longrightarrow> \<exists>i. fs_names s p = Some i \<and> opened d i s t"
    "fs_errno s \<noteq> 0 \<Longrightarrow> r \<noteq> None \<Longrightarrow> fs_errno t = fs_errno s"
  using assms by (auto simp: sys_open_def file_call_defs new_fd_def quiet_def opened_def split: sum.splits option.splits if_splits)

text \<open>The file is a private regular file with this text; the file has the owner and the mode asked for.\<close>

definition is_text :: "inode \<Rightarrow> string \<Rightarrow> bool" where
  "is_text x contents \<longleftrightarrow> st_kind x = Regular_File \<and> st_nlink x = 1 \<and> file_data x = contents"

definition is_owned :: "inode \<Rightarrow> u32 \<Rightarrow> u32 \<Rightarrow> bool" where
  "is_owned x owner grp \<longleftrightarrow> st_uid x = owner \<and> st_gid x = grp \<and> st_perm x AND 0xFFF = 0x1A4"

definition adopted :: "nat \<Rightarrow> string \<Rightarrow> u32 \<Rightarrow> u32 \<Rightarrow> file_system \<Rightarrow> int \<Rightarrow> file_system \<Rightarrow> bool" where
  "adopted i contents owner grp s r t \<longleftrightarrow> after_close i s t
     \<and> (r = -1 \<and> fs_inodes t = fs_inodes s \<or> is_text (fs_inodes s i) contents \<and> is_text (fs_inodes t i) contents)
     \<and> (r = 0 \<and> is_owned (fs_inodes t i) owner grp \<or> r = -1)"

text \<open>What holds between the opening and the closing of a matching file.\<close>

definition holding :: "nat \<Rightarrow> nat \<Rightarrow> string \<Rightarrow> file_system \<Rightarrow> file_system \<Rightarrow> bool" where
  "holding d i contents u v \<longleftrightarrow> on_file d i u v \<and> is_text (fs_inodes u i) contents \<and> is_text (fs_inodes v i) contents"

lemma holding_step:
  assumes "holding d i contents u v" "on_file d i v w" "file_data (fs_inodes w i) = file_data (fs_inodes v i)"
  shows "holding d i contents u w"
  using assms on_file_trans [of d i u v w] by (auto simp: holding_def is_text_def on_file_def)

lemma holding_close:
  assumes "opened d i s u" "holding d i contents u v" "sys_close e d v = (q, t)"
    "r = -1 \<or> (r = 0 \<and> is_owned (fs_inodes v i) owner grp)"
  shows "adopted i contents owner grp s r t"
  using close_opened [OF assms(1) _ assms(3)] assms by (auto simp: adopted_def holding_def opened_def)

lemma holding_fail:
  assumes "opened d i s u" "holding d i contents u v" "close_and_fail e d x v = (r, t)"
  shows "adopted i contents owner grp s r t"
proof -
  obtain q w where w: "sys_close e d v = (q, w)" by force
  have "adopted i contents owner grp s (-1) w" by (rule holding_close [OF assms(1,2) w]) simp
  then show ?thesis using assms(3) w by (auto simp: close_and_fail_def adopted_def)
qed

lemma secure_existing_outcome:
  assumes res: "secure_existing_file e path contents owner grp s = Some (r, t)" and free: "fs_fds s (fs_next_fd s) = None"
  shows "(quiet s t \<and> r = -1) \<or> (\<exists>i. fs_names s path = Some i \<and> adopted i contents owner grp s r t)"
proof -
  obtain od u where o: "sys_open e path s = (od, u)" by force
  show ?thesis
  proof (cases od)
    case None
    then show ?thesis using res o sys_open_result(1) [OF o free] by (simp add: secure_existing_file_def)
  next
    case (Some d)
    then obtain i where i: "fs_names s path = Some i" and op: "opened d i s u" using sys_open_result(2) [OF o free] by blast
    have ud: "fs_fds u d = Some (i, 0)" using op by (simp add: opened_def)
    obtain m v where mv: "descriptor_matches_text e d contents u = Some (m, v)"
      using res o Some by (cases "descriptor_matches_text e d contents u") (auto simp: secure_existing_file_def)
    note dm = descriptor_matches_outcome [OF mv ud]
    have "adopted i contents owner grp s r t"
    proof (cases m)
      case False
      obtain q w where w: "sys_close e d v = (q, w)" by force
      have "after_close i s w" "fs_inodes w = fs_inodes s" using close_opened [OF op dm(1) w] dm(2) op by (auto simp: opened_def)
      then show ?thesis using res o Some mv False w by (auto simp: secure_existing_file_def close_and_fail_def adopted_def)
    next
      case True
      have hv: "holding d i contents u v" using dm True by (simp add: holding_def is_text_def)
      obtain pos where vd: "fs_fds v d = Some (i, pos)" using on_fileD [OF dm(1)] by blast
      obtain i1 s1 where 1: "sys_fstat e d v = (i1, s1)" by force
      note r1 = sys_fstat_result [OF 1 vd]
      have h1: "holding d i contents u s1" using holding_step [OF hv r1(1)] r1(2) by simp
      obtain p1 where d1: "fs_fds s1 d = Some (i, p1)" using r1(3) vd by auto
      define x where "x = fs_inodes v i"
      obtain q2 s2 where 2: "fchown_unless e d x owner grp s1 = (q2, s2)" by force
      note r2 = sys_fchown_result [OF 2 d1]
      have h2: "holding d i contents u s2" using holding_step [OF h1 r2(1)] r2(2) by simp
      obtain p2 where d2: "fs_fds s2 d = Some (i, p2)" using on_fileD [OF r2(1)] by blast
      obtain q3 s3 where 3: "(if st_perm x AND 0xFFF \<noteq> 0x1A4 then sys_fchmod e d 0x1A4 s2 else (Some (), s2)) = (q3, s3)" by force
      have r3: "on_file d i s2 s3" "file_data (fs_inodes s3 i) = file_data (fs_inodes s2 i)"
        using 3 sys_fchmod_result(1,2) [OF _ d2, of e "0x1A4" q3 s3] d2 by (auto simp: on_file_def split: if_splits)
      have h3: "holding d i contents u s3" using holding_step [OF h2 r3] .
      obtain p3 where d3: "fs_fds s3 d = Some (i, p3)" using on_fileD [OF r3(1)] by blast
      obtain q4 s4 where 4: "sys_fsync e d s3 = (q4, s4)" by force
      note r4 = sys_fsync_result [OF 4 d3]
      have h4: "holding d i contents u s4" using holding_step [OF h3 r4(1)] r4(2) by simp
      obtain p4 where d4: "fs_fds s4 d = Some (i, p4)" using on_fileD [OF r4(1)] by blast
      obtain i5 s5 where 5: "sys_fstat e d s4 = (i5, s5)" by force
      note r5 = sys_fstat_result [OF 5 d4]
      have h5: "holding d i contents u s5" using holding_step [OF h4 r5(1)] r5(2) by simp
      obtain q6 s6 where 6: "sys_close e d s5 = (q6, s6)" by force
      consider c v' where "Some (close_and_fail e d c v') = Some (r, t)" "v' \<in> {s1, s2, s3, s4, s5}"
        | "r = -1" "t = s6" | y where "r = 0" "t = s6" "i5 = Some y" "is_owned y owner grp"
      proof (cases i1)
        case None
        then have "Some (close_and_fail e d (fs_errno s1) s1) = Some (r, t)" using res o Some mv True 1 by (simp add: secure_existing_file_def)
        then show thesis using that(1) by blast
      next
        case (Some x')
        then have x': "x' = x" using r1(4) by (simp add: x_def)
        show thesis using res o \<open>od = Some d\<close> mv True 1 Some x' 2 3 4 5 6 that
          by (cases q2; cases q3; cases q4; cases i5; cases q6)
            (auto simp: secure_existing_file_def is_owned_def split: if_splits)
      qed
      then show ?thesis
      proof cases
        case 1 then show ?thesis using holding_fail [OF op] h1 h2 h3 h4 h5 by blast
      next
        case 2 then show ?thesis using holding_close [OF op h5 6] by blast
      next
        case (3 y)
        then show ?thesis using holding_close [OF op h5 6, where r = r and owner = owner and grp = grp] r5(2,4) by auto
      qed
    qed
    then show ?thesis using i by blast
  qed
qed

definition wrote :: "nat \<Rightarrow> nat \<Rightarrow> string \<Rightarrow> file_system \<Rightarrow> int \<times> file_system \<Rightarrow> bool" where
  "wrote d i contents s y \<longleftrightarrow> on_file d i s (snd y) \<and> (fst y = 0 \<longrightarrow> file_data (fs_inodes (snd y) i) = contents)"

lemma write_all_from_outcome:
  assumes "write_all_from e d contents offset s = Some y"
  shows "fs_fds s d = Some (i, offset) \<longrightarrow> file_data (fs_inodes s i) = take offset contents \<longrightarrow> offset \<le> length contents \<longrightarrow>
    wrote d i contents s y"
proof (rule write_all_from.raw_induct [OF _ assms], intro impI)
  fix f e d contents offset s y
  assume IH: "\<And>e d contents offset s y. f e d contents offset s = Some y \<Longrightarrow> fs_fds s d = Some (i, offset) \<longrightarrow>
      file_data (fs_inodes s i) = take offset contents \<longrightarrow> offset \<le> length contents \<longrightarrow> wrote d i contents s y"
    and body0: "(if offset < length contents then
        (case sys_write e d (drop offset contents) s of (count, t) \<Rightarrow>
          (case count of
             None \<Rightarrow> if fs_errno t = EINTR then f e d contents offset t else Some (-1, t)
           | Some n \<Rightarrow>
               if n = 0 then Some (-1, set_errno EIO t)
               else f e d contents (offset + n) t))
      else Some (0, s)) = Some y"
    and at: "fs_fds s d = Some (i, offset)" and same: "file_data (fs_inodes s i) = take offset contents"
    and le: "offset \<le> length contents"
  show "wrote d i contents s y"
  proof (cases "offset < length contents")
    case False
    then show ?thesis using body0 at same le by (auto simp: wrote_def on_file_def)
  next
    case True
    obtain c u where w: "sys_write e d (drop offset contents) s = (c, u)" by force
    have at': "fs_fds s d = Some (i, length (take offset contents))" using at le by simp
    note wr = sys_write_result [OF w at' same]
    have next': "wrote d i contents s y" if "wrote d i contents u y"
      using that wr(1) by (auto simp: wrote_def intro: on_file_trans)
    consider "c = None" "f e d contents offset u = Some y" | v where "y = (-1, v)" "v = u \<or> v = set_errno EIO u"
      | n where "c = Some n" "f e d contents (offset + n) u = Some y"
      using body0 True w by (auto split: option.splits if_splits)
    then show ?thesis
    proof cases
      case 1
      then show ?thesis using IH [rule_format, OF 1(2)] wr(2) le next' by simp
    next
      case 2
      then show ?thesis using wr(1) by (auto simp: wrote_def)
    next
      case (3 n)
      have "n \<le> length contents - offset" using wr(3) [OF 3(1)] by simp
      then have "offset + n \<le> length contents" using le by simp
      then show ?thesis using IH [rule_format, OF 3(2)] wr(3) [OF 3(1)] next' by (simp add: take_add le min_def)
    qed
  qed
qed

lemma fill_new_file_outcome:
  assumes res: "fill_new_file e d contents owner grp s = Some (r, t)"
    and at: "fs_fds s d = Some (i, 0)" "file_data (fs_inodes s i) = []"
  shows "on_file d i s t" "r = Some x \<Longrightarrow> file_data (fs_inodes t i) = contents \<and> is_owned (fs_inodes t i) owner grp"
proof -
  obtain w s1 where w: "write_all e d contents s = Some (w, s1)"
    using res by (cases "write_all e d contents s") (auto simp: fill_new_file_def)
  have "wrote d i contents s (w, s1)" using write_all_from_outcome [of e d contents 0 s "(w, s1)" i] w at by (simp add: write_all_def)
  then have h1: "on_file d i s s1" and c1: "w = 0 \<Longrightarrow> file_data (fs_inodes s1 i) = contents" by (auto simp: wrote_def)
  obtain p1 where d1: "fs_fds s1 d = Some (i, p1)" using on_fileD [OF h1] by blast
  obtain i2 s2 where 2: "sys_fstat e d s1 = (i2, s2)" by force
  note r2 = sys_fstat_result [OF 2 d1]
  obtain p2 where d2: "fs_fds s2 d = Some (i, p2)" using r2(3) d1 by auto
  obtain q3 s3 where 3: "fchown_unless e d (fs_inodes s2 i) owner grp s2 = (q3, s3)" by force
  note r3 = sys_fchown_result [OF 3 d2]
  obtain p3 where d3: "fs_fds s3 d = Some (i, p3)" using on_fileD [OF r3(1)] by blast
  obtain q4 s4 where 4: "sys_fchmod e d 0x1A4 s3 = (q4, s4)" by force
  note r4 = sys_fchmod_result [OF 4 d3]
  obtain p4 where d4: "fs_fds s4 d = Some (i, p4)" using on_fileD [OF r4(1)] by blast
  obtain q5 s5 where 5: "sys_fsync e d s4 = (q5, s5)" by force
  note r5 = sys_fsync_result [OF 5 d4]
  have h2: "on_file d i s s2" using on_file_trans [OF h1 r2(1)] .
  have h3: "on_file d i s s3" using on_file_trans [OF h2 r3(1)] .
  have h4: "on_file d i s s4" using on_file_trans [OF h3 r4(1)] .
  have h5: "on_file d i s s5" using on_file_trans [OF h4 r5(1)] .
  consider "r = None" "t \<in> {s1, s2, s3, s4, s5}" | "w = 0" "q3 \<noteq> None" "q4 \<noteq> None" "t = s5"
  proof (cases "w = 0 \<and> i2 \<noteq> None")
    case False
    then have "r = None" "t \<in> {s1, s2, s3, s4, s5}" using res w 2 by (cases "w = 0"; auto simp: fill_new_file_def)+
    then show thesis by (rule that(1))
  next
    case True
    then obtain y where "i2 = Some y" by auto
    moreover have "y = fs_inodes s2 i" using r2(2) r2(4) [of y] calculation by simp
    ultimately show thesis using True res w 2 3 4 5 that
      by (cases q3; cases q4; cases q5) (auto simp: fill_new_file_def)
  qed
  then have "on_file d i s t \<and> (r = Some x \<longrightarrow> file_data (fs_inodes t i) = contents \<and> is_owned (fs_inodes t i) owner grp)"
  proof cases
    case 1 then show ?thesis using h1 h2 h3 h4 h5 by auto
  next
    case 2
    then show ?thesis using h5 c1 r2(2) r3(2,3) r4(2-5) r5(2) by (simp add: is_owned_def)
  qed
  then show "on_file d i s t" "r = Some x \<Longrightarrow> file_data (fs_inodes t i) = contents \<and> is_owned (fs_inodes t i) owner grp"
    by auto
qed

section \<open>The whole operation\<close>

definition fs_ok :: "file_system \<Rightarrow> bool" where
  "fs_ok s \<longleftrightarrow> (\<forall>p i. fs_names s p = Some i \<longrightarrow> i < fs_next_inode s) \<and> (\<forall>d \<ge> fs_next_fd s. fs_fds s d = None)"

lemma fs_ok_quiet: "quiet s t \<Longrightarrow> fs_ok s \<Longrightarrow> fs_ok t"
  by (simp add: fs_ok_def quiet_def)

lemma adopted_quiet: "quiet s s' \<Longrightarrow> adopted i contents owner grp s' r t \<Longrightarrow> adopted i contents owner grp s r t"
  by (simp add: quiet_def adopted_def after_close_def)

definition created :: "string \<Rightarrow> nat \<Rightarrow> nat \<Rightarrow> file_system \<Rightarrow> file_system \<Rightarrow> bool" where
  "created p d i s t \<longleftrightarrow> fs_names s p = None \<and> i = fs_next_inode s \<and> d = fs_next_fd s
     \<and> fs_names t = (fs_names s)(p := Some i) \<and> fs_next_inode t = i + 1 \<and> fs_next_fd t = d + 1
     \<and> (\<forall>j. j \<noteq> i \<longrightarrow> fs_inodes t j = fs_inodes s j) \<and> fs_fds t = (fs_fds s)(d := Some (i, 0))
     \<and> is_text (fs_inodes t i) []"

lemma sys_create_result:
  assumes "sys_create e p mode s = (r, t)"
  shows "r = None \<Longrightarrow> quiet s t" "r = Some d \<Longrightarrow> created p d (fs_next_inode s) s t"
  using assms by (auto simp: sys_create_def file_call_defs new_fd_def quiet_def created_def is_text_def split: sum.splits option.splits)

text \<open>The end of an attempt to create the file: with its text, or taken away, or its removal refused.\<close>

definition unlink_refused :: "file_env \<Rightarrow> string \<Rightarrow> file_system \<Rightarrow> bool" where
  "unlink_refused e p t \<longleftrightarrow> fs_trace t \<noteq> [] \<and> last (fs_trace t) = Call_Unlink p
     \<and> isl (env_answer e (length (fs_trace t) - 1))"

definition creation_ended :: "file_env \<Rightarrow> string \<Rightarrow> string \<Rightarrow> u32 \<Rightarrow> u32 \<Rightarrow> file_system \<Rightarrow> int \<Rightarrow> file_system \<Rightarrow> bool" where
  "creation_ended e p contents owner grp s r t \<longleftrightarrow> fs_names s p = None \<and> fs_fds t = fs_fds s
     \<and> (\<forall>j < fs_next_inode s. fs_inodes t j = fs_inodes s j)
     \<and> (r = 0 \<and> fs_names t = (fs_names s)(p := Some (fs_next_inode s))
           \<and> is_text (fs_inodes t (fs_next_inode s)) contents \<and> is_owned (fs_inodes t (fs_next_inode s)) owner grp
        \<or> r = -1 \<and> (fs_names t = fs_names s
           \<or> unlink_refused e p t \<and> fs_names t = (fs_names s)(p := Some (fs_next_inode s))))"

lemma unlink_ends_creation:
  assumes "sys_unlink e p s = (q, t)" "fs_names s = (fs_names s0)(p := Some i)" "fs_names s0 p = None"
  shows "fs_names t = fs_names s0 \<or> unlink_refused e p t \<and> fs_names t = fs_names s" "fs_fds t = fs_fds s"
    "j \<noteq> i \<Longrightarrow> fs_inodes t j = fs_inodes s j"
proof -
  have undo: "(fs_names s)(p := None) = fs_names s0" using assms(2,3) by auto
  show "fs_names t = fs_names s0 \<or> unlink_refused e p t \<and> fs_names t = fs_names s" "fs_fds t = fs_fds s"
    "j \<noteq> i \<Longrightarrow> fs_inodes t j = fs_inodes s j"
    using assms undo by (auto simp: sys_unlink_def file_call_defs unlink_refused_def split: sum.splits)
qed

lemma unlink_refused_set_errno [simp]: "unlink_refused e p (set_errno x t) = unlink_refused e p t"
  by (simp add: unlink_refused_def)

lemma creation_outcome:
  assumes new: "created p d i s u" and fill: "fill_new_file e d contents owner grp u = Some (filled, v)" and ok: "fs_ok s"
    and close: "sys_close e d v = (q, w)" and unlink: "sys_unlink e p w = (q', x)"
  shows "creation_ended e p contents owner grp s (-1) x" 
    "filled \<noteq> None \<Longrightarrow> creation_ended e p contents owner grp s 0 w"
proof -
  have i: "i = fs_next_inode s" and un: "fs_names u = (fs_names s)(p := Some i)" "fs_names s p = None"
    and ud: "fs_fds u d = Some (i, 0)" "is_text (fs_inodes u i) []" using new by (auto simp: created_def)
  note f = fill_new_file_outcome [OF fill ud(1)]
  have fv: "on_file d i u v" using f ud(2) by (simp add: is_text_def)
  note c = sys_close_result [OF close]
  have "fs_fds s d = None" using ok new by (simp add: fs_ok_def created_def)
  then have wd: "fs_fds w = fs_fds s" using c(5) fv new by (auto simp: on_file_def created_def)
  have wn: "fs_names w = (fs_names s)(p := Some i)" using c(1) fv un by (simp add: on_file_def)
  have wi: "fs_inodes w j = fs_inodes s j" if "j < fs_next_inode s" for j
    using that c(2) fv new by (auto simp: on_file_def created_def)
  note l = unlink_ends_creation [OF unlink wn un(2)]
  show "creation_ended e p contents owner grp s (-1) x"
    using l wd wi un(2) wn i by (auto simp: creation_ended_def)
  assume "filled \<noteq> None"
  then have "is_text (fs_inodes w i) contents" "is_owned (fs_inodes w i) owner grp"
    using f(2) ud(2) fv c(2) by (auto simp: is_text_def on_file_def)
  then show "creation_ended e p contents owner grp s 0 w"
    using wd wi un(2) wn i by (simp add: creation_ended_def)
qed

lemma creation_ended_set_errno [simp]:
  "creation_ended e p contents owner grp s r (set_errno x t) = creation_ended e p contents owner grp s r t"
  by (simp add: creation_ended_def)

lemma creation_ended_quiet:
  "quiet s s' \<Longrightarrow> creation_ended e p contents owner grp s' r t \<Longrightarrow> creation_ended e p contents owner grp s r t"
  by (simp add: quiet_def creation_ended_def)

lemma ensure_outcome:
  assumes res: "ksi_ensure_owned_text_file e path contents owner grp protected_root s = Some (r, t)" and ok: "fs_ok s"
  shows "(r = -1 \<and> quiet s t)
    \<or> (\<exists>p root chars. path = Some p \<and> protected_root = Some root \<and> contents = Some chars \<and> chain_protected s owner root p
        \<and> ((\<exists>i. fs_names s p = Some i \<and> adopted i chars owner grp s r t)
           \<or> creation_ended e p chars owner grp s r t))"
proof (cases contents)
  case None then show ?thesis using res by (simp add: ksi_ensure_owned_text_file_def)
next
  case (Some chars)
  obtain pr s1 where pc: "parent_chain_is_protected e path owner protected_root s = Some (pr, s1)"
    and q1: "quiet s s1" and chain: "pr \<Longrightarrow> \<exists>p root. path = Some p \<and> protected_root = Some root \<and> chain_protected s owner root p"
    using parent_chain_outcome [of e path owner protected_root s] by (auto simp: returns_ex)
  show ?thesis
  proof (cases pr)
    case False then show ?thesis using res Some pc q1 by (simp add: ksi_ensure_owned_text_file_def)
  next
    case True
    then obtain p root where p: "path = Some p" "protected_root = Some root" "chain_protected s owner root p" using chain by blast
    have ok1: "fs_ok s1" using fs_ok_quiet [OF q1 ok] .
    obtain c u where cr: "sys_create e p 0x180 s1 = (c, u)" by force
    show ?thesis
    proof (cases c)
      case None
      then have q2: "quiet s u" using sys_create_result(1) [OF cr] quiet_trans [OF q1] by blast
      have free: "fs_fds u (fs_next_fd u) = None" using fs_ok_quiet [OF q2 ok] by (simp add: fs_ok_def)
      show ?thesis
      proof (cases "fs_errno u = EEXIST")
        case True
        then have sec: "secure_existing_file e p chars owner grp u = Some (r, t)"
          using res Some pc \<open>pr\<close> p(1) cr None by (simp add: ksi_ensure_owned_text_file_def)
        have nm: "fs_names u = fs_names s" using q2 by (simp add: quiet_def)
        from secure_existing_outcome [OF sec free] show ?thesis
        proof (elim disjE exE conjE)
          assume "quiet u t" "r = -1"
          then show ?thesis using quiet_trans [OF q2] by blast
        next
          fix i assume "fs_names u p = Some i" "adopted i chars owner grp u r t"
          then show ?thesis using adopted_quiet [OF q2] nm p Some by auto
        qed
      next
        case False
        then show ?thesis using res Some pc \<open>pr\<close> p(1) cr None q2 by (simp add: ksi_ensure_owned_text_file_def)
      qed
    next
      case c: (Some d)
      note new = sys_create_result(2) [OF cr c]
      obtain filled v where fill: "fill_new_file e d chars owner grp u = Some (filled, v)"
        using res Some pc \<open>pr\<close> p(1) cr c by (cases "fill_new_file e d chars owner grp u") (auto simp: ksi_ensure_owned_text_file_def)
      obtain q w where cl: "sys_close e d v = (q, w)" by force
      obtain q' x where ul: "sys_unlink e p w = (q', x)" by force
      note ends = creation_outcome [OF new fill ok1 cl ul]
      have "ksi_ensure_owned_text_file e path contents owner grp protected_root s =
          (case filled of None \<Rightarrow> Some (-1, set_errno (fs_errno v) x)
           | Some _ \<Rightarrow> (case q of None \<Rightarrow> Some (-1, set_errno (fs_errno w) x) | Some _ \<Rightarrow> Some (0, w)))"
        using \<open>pr\<close> pc by (cases filled; cases q) (simp_all add: ksi_ensure_owned_text_file_def Some p(1) cr c fill cl ul)
      then have "r = -1 \<and> (\<exists>y. t = set_errno y x) \<or> r = 0 \<and> t = w \<and> filled \<noteq> None"
        using res by (auto split: option.splits)
      then have "creation_ended e p chars owner grp s1 r t" using ends by (elim disjE conjE exE) simp_all
      then have "creation_ended e p chars owner grp s r t" by (rule creation_ended_quiet [OF q1])
      then show ?thesis using p Some by (intro disjI2 exI [of _ p] exI [of _ root] exI [of _ chars]) simp
    qed
  qed
qed

section \<open>The retry loops\<close>

lemma sys_read_trace:
  assumes "sys_read e d n s = (r, t)"
  shows "length (fs_trace t) = Suc (length (fs_trace s))"
    "r = None \<Longrightarrow> fs_errno t = EINTR \<Longrightarrow> env_answer e (length (fs_trace s)) = Inl EINTR"
  using assms by (auto simp: sys_read_def file_call_defs split: sum.splits option.splits)

lemma sys_write_trace:
  assumes "sys_write e d chars s = (r, t)"
  shows "length (fs_trace t) = Suc (length (fs_trace s))"
    "r = None \<Longrightarrow> fs_errno t = EINTR \<Longrightarrow> env_answer e (length (fs_trace s)) = Inl EINTR"
  using assms by (auto simp: sys_write_def file_call_defs split: sum.splits option.splits)

lemma match_loop_returns:
  assumes "\<forall>n \<ge> N. env_answer e n \<noteq> Inl EINTR"
  shows "match_loop e d contents offset s \<noteq> None"
proof (induction "(N - length (fs_trace s)) + (length contents - offset)" arbitrary: offset s rule: less_induct)
  case less
  obtain r t where r: "sys_read e d (min (length contents - offset) 4096) s = (r, t)" by force
  note tr = sys_read_trace [OF r]
  have "match_loop e d contents offset t \<noteq> None" if "offset < length contents" "r = None" "fs_errno t = EINTR"
  proof (rule less)
    have "length (fs_trace s) < N" using tr(2) that assms by (meson leI)
    then show "N - length (fs_trace t) + (length contents - offset) < N - length (fs_trace s) + (length contents - offset)"
      using tr(1) by simp
  qed
  moreover have "match_loop e d contents (offset + length b) t \<noteq> None" if "offset < length contents" "b \<noteq> []" for b
    by (rule less) (use that tr(1) in \<open>cases b; auto\<close>)
  ultimately show ?case
    by (cases r) (auto simp: match_loop.simps [of e d contents offset s] r)
qed

lemma write_all_returns:
  assumes "\<forall>n \<ge> N. env_answer e n \<noteq> Inl EINTR"
  shows "write_all_from e d contents offset s \<noteq> None"
proof (induction "(N - length (fs_trace s)) + (length contents - offset)" arbitrary: offset s rule: less_induct)
  case less
  obtain r t where r: "sys_write e d (drop offset contents) s = (r, t)" by force
  note tr = sys_write_trace [OF r]
  have "write_all_from e d contents offset t \<noteq> None" if "offset < length contents" "r = None" "fs_errno t = EINTR"
  proof (rule less)
    have "length (fs_trace s) < N" using tr(2) that assms by (meson leI)
    then show "N - length (fs_trace t) + (length contents - offset) < N - length (fs_trace s) + (length contents - offset)"
      using tr(1) by simp
  qed
  moreover have "write_all_from e d contents (offset + n) t \<noteq> None" if "offset < length contents" "n \<noteq> 0" for n
    by (rule less) (use that tr(1) in auto)
  ultimately show ?case
    by (cases r) (auto simp: write_all_from.simps [of e d contents offset s] r)
qed

lemma matches_returns:
  assumes "\<forall>n \<ge> N. env_answer e n \<noteq> Inl EINTR"
  shows "\<exists>m t. descriptor_matches_text e d contents s = Some (m, t)"
  using match_loop_returns [OF assms]
  by (auto simp: descriptor_matches_text_def not_None_eq split: prod.splits option.splits)

lemma call_returns:
  "(\<And>y s. g y s \<noteq> None) \<Longrightarrow> (case x of (None, s) \<Rightarrow> Some (f s) | (Some y, s) \<Rightarrow> g y s) \<noteq> None"
  by (auto split: prod.splits option.splits)

lemma if_returns: "m \<noteq> None \<Longrightarrow> m' \<noteq> None \<Longrightarrow> (if b then m else m') \<noteq> None"
  by simp

lemmas leaf_returns = call_returns if_returns option.distinct(2)

lemma secure_returns:
  assumes "\<forall>n \<ge> N. env_answer e n \<noteq> Inl EINTR"
  shows "secure_existing_file e path contents owner grp s \<noteq> None"
proof -
  obtain od u where o: "sys_open e path s = (od, u)" by force
  show ?thesis
  proof (cases od)
    case (Some d)
    obtain m t where "descriptor_matches_text e d contents u = Some (m, t)" using matches_returns [OF assms] by blast
    then show ?thesis unfolding secure_existing_file_def o Some prod.case option.case
      by (simp only: bind.bind_lunit prod.case) (intro leaf_returns)
  qed (simp add: secure_existing_file_def o)
qed

lemma ensure_returns:
  assumes "\<forall>n \<ge> N. env_answer e n \<noteq> Inl EINTR"
  shows "ksi_ensure_owned_text_file e path contents owner grp protected_root s \<noteq> None"
proof -
  obtain pr s1 where pc: "parent_chain_is_protected e path owner protected_root s = Some (pr, s1)" and path: "pr \<Longrightarrow> path \<noteq> None"
    using parent_chain_outcome [of e path owner protected_root s] by (auto simp: returns_ex)
  have fill: "fill_new_file e d chars owner grp u \<noteq> None" for d chars u
    using write_all_returns [OF assms, of d chars 0 u] by (auto simp: fill_new_file_def write_all_def)
  show ?thesis
  proof (cases "contents = None \<or> \<not> pr")
    case True
    then show ?thesis using pc by (auto simp: ksi_ensure_owned_text_file_def split: option.splits)
  next
    case False
    then obtain chars p where c: "contents = Some chars" "path = Some p" "pr" using path by auto
    obtain d u where cr: "sys_create e p 0x180 s1 = (d, u)" by force
    obtain q w where f: "fill_new_file e (the d) chars owner grp u = Some (q, w)" using fill [of "the d" chars u] by auto
    show ?thesis using secure_returns [OF assms] f c pc cr
      by (cases d; cases q; cases "sys_close e (the d) w"; cases "fst (sys_close e (the d) w)")
        (auto simp: ksi_ensure_owned_text_file_def Let_def split: option.splits)
  qed
qed

section \<open>Properties\<close>

text \<open>
  C14. The walk over the parent directories always ends, never cuts at a missing separator, calls
  nothing but \<open>strdup\<close> and \<open>lstat\<close>, and makes at most one \<open>lstat\<close> per separator of the path; it
  changes neither files nor descriptors. If it accepts, every directory from the parent of the path
  up to the protected root belongs to the owner and is writable by no one else.
\<close>

theorem parent_walk_ends:
  "\<exists>r t ps. parent_chain_is_protected e path owner protected_root s = Some (r, t) \<and> quiet s t
     \<and> fs_trace t = fs_trace s @ ps \<and> set ps \<subseteq> insert Call_Strdup (range Call_Lstat)
     \<and> length ps \<le> 1 + (case path of None \<Rightarrow> 0 | Some p \<Rightarrow> slashes p)
     \<and> (r \<longrightarrow> (\<exists>p root. path = Some p \<and> protected_root = Some root \<and> chain_protected s owner root p))"
  using parent_chain_outcome [of e path owner protected_root s] by (auto simp: returns_ex)

text \<open>
  C15. When interruptions stop after some number of calls, \<open>ksi_ensure_owned_text_file\<close> returns,
  whatever else the kernel answers: the retry loops of \<open>write_all\<close> and
  \<open>descriptor_matches_text\<close> end.
\<close>

theorem owned_file_returns:
  "\<forall>n \<ge> N. env_answer e n \<noteq> Inl EINTR \<Longrightarrow>
   \<exists>r t. ksi_ensure_owned_text_file e path contents owner grp protected_root s = Some (r, t)"
  using ensure_returns [of N e path contents owner grp protected_root s] by auto

text \<open>
  C13. When \<open>ksi_ensure_owned_text_file\<close> succeeds, the path names a regular file with exactly the
  text, one link, the owner and group asked for and mode 0644, below a protected chain of directories.
\<close>

theorem owned_file_success:
  assumes "ksi_ensure_owned_text_file e path contents owner grp protected_root s = Some (0, t)" "fs_ok s"
  shows "\<exists>p root chars i. path = Some p \<and> protected_root = Some root \<and> contents = Some chars
    \<and> chain_protected s owner root p \<and> fs_names t p = Some i
    \<and> st_kind (fs_inodes t i) = Regular_File \<and> st_nlink (fs_inodes t i) = 1 \<and> file_data (fs_inodes t i) = chars
    \<and> st_uid (fs_inodes t i) = owner \<and> st_gid (fs_inodes t i) = grp \<and> st_perm (fs_inodes t i) AND 0xFFF = 0x1A4"
  using ensure_outcome [OF assms]
  by (auto simp: adopted_def after_close_def creation_ended_def is_text_def is_owned_def)

text \<open>
  C12. Whatever happens, no descriptor stays open, no existing file's text changes, and no other name is
  added or removed; an existing file changes only if it is the named one and already holds the text. A
  failure leaves the names as they were, unless the kernel refused the final \<open>unlink\<close>. Nothing at all
  changes when the chain of directories is not protected.
\<close>

theorem owned_file_guarded:
  assumes "ksi_ensure_owned_text_file e path contents owner grp protected_root s = Some (r, t)" "fs_ok s"
  shows "fs_fds t = fs_fds s \<and> (r = 0 \<or> r = -1)
    \<and> (\<forall>q. path \<noteq> Some q \<longrightarrow> fs_names t q = fs_names s q)
    \<and> (\<forall>j < fs_next_inode s. file_data (fs_inodes t j) = file_data (fs_inodes s j))
    \<and> (\<forall>j < fs_next_inode s. fs_inodes t j \<noteq> fs_inodes s j \<longrightarrow>
          path \<noteq> None \<and> fs_names s (the path) = Some j \<and> Some (file_data (fs_inodes s j)) = contents)
    \<and> (r = -1 \<longrightarrow> fs_names t = fs_names s \<or> unlink_refused e (the path) t)
    \<and> (quiet s t \<or> (\<exists>p root. path = Some p \<and> protected_root = Some root \<and> chain_protected s owner root p))"
proof -
  consider "r = -1" "quiet s t"
    | p root chars i where "path = Some p" "protected_root = Some root" "contents = Some chars" "chain_protected s owner root p"
        "fs_names s p = Some i" "adopted i chars owner grp s r t"
    | p root chars where "path = Some p" "protected_root = Some root" "contents = Some chars" "chain_protected s owner root p"
        "creation_ended e p chars owner grp s r t"
    using ensure_outcome [OF assms] by blast
  then show ?thesis
  proof cases
    case 1 then show ?thesis by (auto simp: quiet_def)
  next
    case (2 p root chars i)
    have data: "file_data (fs_inodes t j) = file_data (fs_inodes s j)"
      and other: "fs_inodes t j \<noteq> fs_inodes s j \<Longrightarrow> j = i \<and> file_data (fs_inodes s j) = chars" for j
      using 2(6) by (cases "j = i"; auto simp: adopted_def after_close_def is_text_def)+
    have same: "fs_fds t = fs_fds s" "fs_names t = fs_names s" "r = 0 \<or> r = -1"
      using 2(6) by (auto simp: adopted_def after_close_def)
    have named: "path \<noteq> None \<and> fs_names s (the path) = Some j \<and> Some (file_data (fs_inodes s j)) = contents"
      if "fs_inodes t j \<noteq> fs_inodes s j" for j using other [OF that] 2(1,3,5) by auto
    show ?thesis unfolding same(1,2) using same(3) data named 2(1,2,4) by blast
  next
    case (3 p root chars)
    then show ?thesis by (auto simp: creation_ended_def)
  qed
qed

section \<open>An example\<close>

text \<open>Two directories of root, an answer of at most 100 bytes to every call, and one file to create.\<close>

definition example_env :: file_env where
  "example_env = \<lparr>env_answer = \<lambda>_. Inr 100, env_uid = 0, env_gid = 0, env_umask = 0x12\<rparr>"

definition example_dir :: inode where
  "example_dir = \<lparr>st_kind = Directory, st_perm = 0x1ED, st_uid = 0, st_gid = 0, st_nlink = 2, file_data = []\<rparr>"

definition example_fs :: file_system where
  "example_fs = \<lparr>fs_names = (\<lambda>p. if p = ''/'' then Some 0 else if p = ''/etc'' then Some 1 else None),
     fs_inodes = (\<lambda>_. example_dir), fs_next_inode = 2, fs_fds = (\<lambda>_. None), fs_next_fd = 3, fs_errno = 0, fs_trace = []\<rparr>"

definition example_ensure :: "(int \<times> file_system) mem" where
  "example_ensure = ksi_ensure_owned_text_file example_env (Some ''/etc/k'') (Some ''on'') 0 0 (Some ''/'') example_fs"

declare write_all_from.simps [code] match_loop.simps [code]

lemma example_succeeds: "\<exists>t. example_ensure = Some (0, t)"
proof -
  have "map_option fst example_ensure = Some 0" by code_simp
  then show ?thesis by (cases example_ensure) auto
qed

lemma example_fs_ok: "fs_ok example_fs"
  by (auto simp: fs_ok_def example_fs_def split: if_splits)

theorem parent_walk_ends_witness:
  "\<exists>r t ps. parent_chain_is_protected example_env (Some ''/etc/k'') 0 (Some ''/'') example_fs = Some (r, t)
     \<and> r \<and> length ps \<le> 3 \<and> fs_trace t = ps \<and> chain_protected example_fs 0 ''/'' ''/etc/k''"
proof -
  have "map_option fst (parent_chain_is_protected example_env (Some ''/etc/k'') 0 (Some ''/'') example_fs) = Some True" by code_simp
  then show ?thesis using parent_walk_ends [of example_env "Some ''/etc/k''" 0 "Some ''/''" example_fs]
    by (auto simp: slashes_def example_fs_def)
qed

theorem owned_file_returns_witness:
  "\<exists>r t. ksi_ensure_owned_text_file example_env (Some ''/etc/k'') (Some ''on'') 0 0 (Some ''/'') example_fs = Some (r, t)"
  by (rule owned_file_returns [of 0]) (simp add: example_env_def)

theorem owned_file_success_witness:
  "\<exists>t i. example_ensure = Some (0, t) \<and> fs_names t ''/etc/k'' = Some i \<and> file_data (fs_inodes t i) = ''on''
     \<and> st_uid (fs_inodes t i) = 0 \<and> st_perm (fs_inodes t i) AND 0xFFF = 0x1A4"
proof -
  obtain t where t: "example_ensure = Some (0, t)" using example_succeeds by blast
  show ?thesis using owned_file_success [OF t [unfolded example_ensure_def] example_fs_ok] t by auto
qed

theorem owned_file_guarded_witness:
  "\<exists>t. example_ensure = Some (0, t) \<and> fs_fds t = fs_fds example_fs \<and> fs_names t ''/etc'' = Some 1"
proof -
  obtain t where t: "example_ensure = Some (0, t)" using example_succeeds by blast
  have "fs_names example_fs ''/etc'' = Some 1" by (simp add: example_fs_def)
  then show ?thesis using owned_file_guarded [OF t [unfolded example_ensure_def] example_fs_ok] t by auto
qed

end
