(* ===== verification/Ipc.thy ===== *)
theory Ipc
  imports Codec Program_Logic
begin

text \<open>
  The Unix socket transport, src/src/ipc_unix.c. The socket is modelled by the bytes written to it
  and whether it was shut down; incoming data is a stream that the kernel hands over in chunks of
  its choice. The answers of the system calls, in the order in which they are made, are
  parameters; a call that has no answer yet has not returned.
\<close>

section \<open>Reading\<close>

text \<open>
  \<open>Chunk k\<close> delivers at least one and at most \<open>k + 1\<close> bytes of the stream, never more than were asked
  for; at the end of the stream \<open>read\<close> returns 0.
\<close>

datatype read_answer = Chunk nat | Read_Interrupted | Read_Failed

datatype 'a progress = Waiting | Done 'a

definition os_chunk :: "nat \<Rightarrow> nat \<Rightarrow> bytes \<Rightarrow> bytes" where
  "os_chunk k remaining stream = take (min (k + 1) remaining) stream"

fun read_exact :: "bytes \<Rightarrow> nat \<Rightarrow> nat \<Rightarrow> read_answer list \<Rightarrow> bytes \<Rightarrow> (int \<times> bytes \<times> read_answer list \<times> bytes) progress mem" where
  "read_exact buffer cursor remaining answers stream =
    (if remaining = 0 then Some (Done (1, buffer, answers, stream))
     else case answers of
       [] \<Rightarrow> Some Waiting
     | Read_Interrupted # rest \<Rightarrow> read_exact buffer cursor remaining rest stream
     | Read_Failed # rest \<Rightarrow> Some (Done (-1, buffer, rest, stream))
     | Chunk k # rest \<Rightarrow>
         let bs = os_chunk k remaining stream
         in if bs = [] then Some (Done (0, buffer, rest, stream))
            else do {
              buffer \<leftarrow> mem_copy buffer cursor bs;
              read_exact buffer (cursor + length bs) (remaining - length bs) rest (drop (length bs) stream)
            })"

declare read_exact.simps [simp del]

text \<open>A header variable before anything is decoded into it; decoding overwrites every field.\<close>

definition blank_header :: ksi_message_header where
  "blank_header = \<lparr>mh_major = 0, mh_minor = 0, mh_opcode = 0, mh_flags = 0, mh_payload_length = 0, mh_request_id = 0\<rparr>"

text \<open>The frame is received into \<open>buffer\<close>; \<open>message_size\<close> is the caller's variable.\<close>

definition ksi_ipc_read_framed_message ::
  "bytes ptr \<Rightarrow> nat ptr \<Rightarrow> read_answer list \<Rightarrow> bytes \<Rightarrow> (int \<times> bytes ptr \<times> nat ptr \<times> bytes) progress mem" where
  "ksi_ipc_read_framed_message buffer message_size answers stream =
    (case (buffer, message_size) of
       (Some b, Some _) \<Rightarrow>
         if length b < KSI_FRAME_HEADER_SIZE then Some (Done (-1, buffer, message_size, stream))
         else do {
           first \<leftarrow> read_exact (replicate KSI_FRAME_HEADER_SIZE 0) 0 KSI_FRAME_HEADER_SIZE answers stream;
           case first of Waiting \<Rightarrow> Some Waiting
           | Done (result, wire_header, answers, stream) \<Rightarrow>
               if result \<le> 0 then Some (Done (result, buffer, message_size, stream))
               else do {
                 (ok, header) \<leftarrow> ksi_frame_header_decode (Some wire_header) (Some blank_header);
                 if \<not> ok \<or> \<not> ksi_protocol_frame_is_valid header then Some (Done (-1, buffer, message_size, stream))
                 else do {
                   h \<leftarrow> header;
                   let frame_size = size_t_add KSI_FRAME_HEADER_SIZE (unat (mh_payload_length h));
                   if frame_size > length b then Some (Done (-1, buffer, message_size, stream))
                   else do {
                     b \<leftarrow> mem_copy b 0 wire_header;
                     second \<leftarrow> read_exact b KSI_FRAME_HEADER_SIZE (unat (mh_payload_length h)) answers stream;
                     case second of Waiting \<Rightarrow> Some Waiting
                     | Done (result, b, answers, stream) \<Rightarrow>
                         if result \<le> 0 then Some (Done (result, Some b, message_size, stream))
                         else Some (Done (1, Some b, Some frame_size, stream))
                   }
                 }
               }
         }
     | _ \<Rightarrow> Some (Done (-1, buffer, message_size, stream)))"

section \<open>Writing\<close>

text \<open>
  \<open>Sent k\<close> takes at least one and at most \<open>k + 1\<close> of the bytes offered, \<open>Sent_Zero\<close> is a write of no
  bytes, \<open>Send_Blocked\<close> is \<open>EAGAIN\<close> with the clock reading and the outcome of the poll that follow.
  A write on a socket that was shut down fails. \<open>sk_waits\<close> records the timeouts passed to \<open>poll\<close>.
\<close>

datatype poll_answer = Poll_Writable | Poll_Interrupted | Poll_Other

datatype send_answer =
    Sent nat
  | Sent_Zero
  | Send_Interrupted
  | Send_Blocked "(u64 \<times> u64) option" poll_answer
  | Send_Failed

record socket =
  sk_sent :: bytes
  sk_shut :: bool
  sk_waits :: "int32 list"

text \<open>The clock gives seconds and nanoseconds, or fails.\<close>

definition ipc_monotonic_ms :: "(u64 \<times> u64) option \<Rightarrow> u64" where
  "ipc_monotonic_ms ts = (case ts of None \<Rightarrow> 0 | Some (tv_sec, tv_nsec) \<Rightarrow> tv_sec * 1000 + tv_nsec div 1000000)"

definition KSI_WRITE_DRAIN_BUDGET_MS :: int32 where "KSI_WRITE_DRAIN_BUDGET_MS = 100"


definition torn_down :: "socket \<Rightarrow> send_answer list \<Rightarrow> (int \<times> send_answer list \<times> socket) progress mem" where
  "torn_down sock answers = Some (Done (-1, answers, sock\<lparr>sk_shut := True\<rparr>))"

fun write_exact :: "int32 \<Rightarrow> bytes \<Rightarrow> nat \<Rightarrow> nat \<Rightarrow> u64 \<Rightarrow> send_answer list \<Rightarrow> socket
    \<Rightarrow> (int \<times> send_answer list \<times> socket) progress mem" where
  "write_exact budget buffer cursor remaining drain_deadline_ms answers sock =
    (if remaining = 0 then Some (Done (0, answers, sock))
     else case answers of
       [] \<Rightarrow> Some Waiting
     | answer # rest \<Rightarrow>
         if sk_shut sock then torn_down sock rest
         else (case answer of
           Sent k \<Rightarrow> do {
             let bytes_written = min (k + 1) remaining;
             bs \<leftarrow> mem_read buffer cursor bytes_written;
             write_exact budget buffer (cursor + bytes_written) (remaining - bytes_written) drain_deadline_ms rest
               (sock\<lparr>sk_sent := sk_sent sock @ bs\<rparr>)
           }
         | Sent_Zero \<Rightarrow> torn_down sock rest
         | Send_Interrupted \<Rightarrow> write_exact budget buffer cursor remaining drain_deadline_ms rest sock
         | Send_Blocked ts poll \<Rightarrow>
             let now_ms = ipc_monotonic_ms ts;
                 deadline = (if drain_deadline_ms = 0 then now_ms + scast budget else drain_deadline_ms)
             in if now_ms \<ge> deadline then torn_down sock rest
                else let sock = sock\<lparr>sk_waits := sk_waits sock @ [ucast (deadline - now_ms)]\<rparr>
                     in (case poll of
                           Poll_Writable \<Rightarrow> write_exact budget buffer cursor remaining deadline rest sock
                         | Poll_Interrupted \<Rightarrow> write_exact budget buffer cursor remaining deadline rest sock
                         | Poll_Other \<Rightarrow> torn_down sock rest)
         | Send_Failed \<Rightarrow> torn_down sock rest))"

declare write_exact.simps [simp del]

definition ksi_ipc_send_framed_message ::
  "int32 \<Rightarrow> u16 \<Rightarrow> u16 \<Rightarrow> u64 \<Rightarrow> bytes ptr \<Rightarrow> nat \<Rightarrow> send_answer list \<Rightarrow> socket
    \<Rightarrow> (int \<times> send_answer list \<times> socket) progress mem" where
  "ksi_ipc_send_framed_message budget opcode flags request_id payload payload_size answers sock =
    (if payload_size > KSI_MAX_PAYLOAD_SIZE then Some (Done (-1, answers, sock))
     else let header = \<lparr>mh_major = KSI_PROTOCOL_MAJOR, mh_minor = KSI_PROTOCOL_MINOR, mh_opcode = opcode, mh_flags = flags,
                mh_payload_length = word_of_nat payload_size, mh_request_id = request_id\<rparr>
          in if \<not> ksi_protocol_frame_is_valid (Some header) then Some (Done (-1, answers, sock))
             else do {
               wire_header \<leftarrow> ksi_frame_header_encode (replicate KSI_FRAME_HEADER_SIZE 0) header;
               first \<leftarrow> write_exact budget wire_header 0 KSI_FRAME_HEADER_SIZE 0 answers sock;
               case first of Waiting \<Rightarrow> Some Waiting
               | Done (result, answers, sock) \<Rightarrow>
                   if result \<noteq> 0 then Some (Done (-1, answers, sock))
                   else if payload_size = 0 then Some (Done (0, answers, sock))
                   else do {
                     p \<leftarrow> payload;
                     second \<leftarrow> write_exact budget p 0 payload_size 0 answers sock;
                     case second of Waiting \<Rightarrow> Some Waiting
                     | Done (result, answers, sock) \<Rightarrow> Some (Done (if result \<noteq> 0 then -1 else 0, answers, sock))
                   }
             })"

section \<open>The server\<close>

text \<open>What the server asks of the system, in order.\<close>

datatype server_event =
    Allocated | Freed
  | Opened int | Closed int
  | Unlinked string | Bound int string | Chmodded string | Listening int

type_synonym server_log = "server_event list"

datatype flock_answer = Locked | Lock_Held | Lock_Error

text \<open>
  The answers that opening a server gets; a descriptor of -1 is a failure. \<open>ie_errno_kept\<close> says that
  \<open>errno\<close> still is \<open>EWOULDBLOCK\<close> after the message was printed and the descriptor closed.
\<close>

record ipc_env =
  ie_calloc :: bool
  ie_open :: int
  ie_flock :: flock_answer
  ie_errno_kept :: bool
  ie_socket :: int
  ie_bind :: bool
  ie_chmod :: bool
  ie_listen :: bool
  ie_strdup :: bool

record ksi_ipc_server =
  is_fd :: int
  is_lock_fd :: int
  is_socket_path :: "string ptr"

definition PATH_MAX :: nat where "PATH_MAX = 4096"
definition SUN_PATH_SIZE :: nat where "SUN_PATH_SIZE = 108"
definition SOCK_STREAM :: int where "SOCK_STREAM = 1"

definition acquire_single_instance_lock :: "ipc_env \<Rightarrow> string \<Rightarrow> server_log \<Rightarrow> int \<times> server_log" where
  "acquire_single_instance_lock env socket_path log =
    (if length (socket_path @ ''.lock'') \<ge> PATH_MAX then (-1, log)
     else let fd = ie_open env
          in if fd < 0 then (-1, log)
             else let log = log @ [Opened fd]
                  in (case ie_flock env of
                        Locked \<Rightarrow> (fd, log)
                      | Lock_Error \<Rightarrow> (-1, log)
                      | Lock_Held \<Rightarrow> (if ie_errno_kept env then -2 else -1, log @ [Closed fd])))"

definition validate_socket_path :: "string ptr \<Rightarrow> int" where
  "validate_socket_path socket_path =
    (case socket_path of None \<Rightarrow> -1
     | Some path \<Rightarrow> if path = [] then -1 else if length path \<ge> SUN_PATH_SIZE then -1 else 0)"

definition abandon_ipc_server :: "ksi_ipc_server \<Rightarrow> int \<Rightarrow> string \<Rightarrow> bool \<Rightarrow> server_log \<Rightarrow> server_log" where
  "abandon_ipc_server created fd socket_path unlink_socket log =
    log @ (if fd \<ge> 0 then [Closed fd] else []) @ (if unlink_socket then [Unlinked socket_path] else [])
      @ (if is_lock_fd created \<ge> 0 then [Closed (is_lock_fd created)] else []) @ [Freed]"

text \<open>The caller's variable is \<open>server\<close>: \<^const>\<open>None\<close> when the pointer to it is \<open>NULL\<close>.\<close>

definition ksi_ipc_server_open ::
  "ipc_env \<Rightarrow> string ptr \<Rightarrow> ksi_ipc_server ptr ptr \<Rightarrow> server_log \<Rightarrow> int \<times> ksi_ipc_server ptr ptr \<times> server_log" where
  "ksi_ipc_server_open env socket_path server log =
    (case (server, socket_path) of
       (Some _, Some path) \<Rightarrow>
         if validate_socket_path socket_path \<noteq> 0 then (-1, server, log)
         else if \<not> ie_calloc env then (-1, server, log)
         else
           let created = \<lparr>is_fd = 0, is_lock_fd = -1, is_socket_path = None\<rparr>;
               (lock_result, log) = acquire_single_instance_lock env path (log @ [Allocated])
           in if lock_result = -2 then (-1, server, log @ [Freed])
              else
                let created = (if lock_result \<ge> 0 then created\<lparr>is_lock_fd := lock_result\<rparr> else created);
                    fd = ie_socket env
                in if fd < 0 then (-1, server, abandon_ipc_server created (-1) path False log)
                   else let log = log @ [Opened fd, Unlinked path]
                   in if \<not> ie_bind env then (-1, server, abandon_ipc_server created fd path False log)
                   else let log = log @ [Bound fd path]
                   in if \<not> ie_chmod env then (-1, server, abandon_ipc_server created fd path True log)
                   else let log = log @ [Chmodded path]
                   in if \<not> ie_listen env then (-1, server, abandon_ipc_server created fd path True log)
                   else let log = log @ [Listening fd]
                   in if \<not> ie_strdup env then (-1, server, abandon_ipc_server created fd path True log)
                   else (0, Some (Some (created\<lparr>is_fd := fd, is_socket_path := Some path\<rparr>)), log @ [Allocated])
     | _ \<Rightarrow> (-1, server, log))"

text \<open>
  Setting a descriptor flag reads the flags and writes them back with one bit more: the answers are
  the flags read and whether writing them succeeds; the second component is what was written.
\<close>

definition FD_CLOEXEC :: int32 where "FD_CLOEXEC = 1"
definition O_NONBLOCK :: int32 where "O_NONBLOCK = 0x800"

definition set_cloexec :: "int32 \<Rightarrow> bool \<Rightarrow> int \<times> int32 option" where
  "set_cloexec flags written =
    (if sint flags < 0 then (-1, None) else (if written then 0 else -1, Some (flags OR FD_CLOEXEC)))"

definition set_nonblock :: "int32 \<Rightarrow> bool \<Rightarrow> int \<times> int32 option" where
  "set_nonblock flags written =
    (if sint flags < 0 then (-1, None) else (if written then 0 else -1, Some (flags OR O_NONBLOCK)))"

text \<open>\<open>sock_type\<close> is the type \<open>getsockopt\<close> reports, \<open>cloexec\<close> and \<open>nonblock\<close> the answers of the two helpers.\<close>

definition ksi_ipc_server_from_fd ::
  "int option \<Rightarrow> bool \<Rightarrow> int32 \<times> bool \<Rightarrow> int32 \<times> bool \<Rightarrow> int \<Rightarrow> ksi_ipc_server ptr ptr \<Rightarrow> server_log
    \<Rightarrow> int \<times> ksi_ipc_server ptr ptr \<times> server_log" where
  "ksi_ipc_server_from_fd sock_type calloc_ok cloexec nonblock fd server log =
    (if server = None \<or> fd < 0 \<or> sock_type = None \<or> sock_type \<noteq> Some SOCK_STREAM then (-1, server, log)
     else if \<not> calloc_ok then (-1, server, log)
     else
       let created = \<lparr>is_fd = 0, is_lock_fd = -1, is_socket_path = None\<rparr>; log = log @ [Allocated]
       in if fst (set_cloexec (fst cloexec) (snd cloexec)) \<noteq> 0 \<or> fst (set_nonblock (fst nonblock) (snd nonblock)) \<noteq> 0
          then (-1, server, log @ [Freed])
          else (0, Some (Some (created\<lparr>is_fd := fd\<rparr>)), log))"


definition ksi_ipc_server_fd :: "ksi_ipc_server ptr \<Rightarrow> int" where
  "ksi_ipc_server_fd server = (case server of None \<Rightarrow> -1 | Some s \<Rightarrow> is_fd s)"

text \<open>\<open>accept\<close> is the system's answer for a listening descriptor; setting the buffer size is best effort.\<close>

definition ksi_ipc_accept_client :: "(int \<Rightarrow> int) \<Rightarrow> ksi_ipc_server ptr \<Rightarrow> server_log \<Rightarrow> int \<times> server_log" where
  "ksi_ipc_accept_client accept server log =
    (case server of None \<Rightarrow> (-1, log)
     | Some s \<Rightarrow> let client_fd = accept (is_fd s) in if client_fd < 0 then (-1, log) else (client_fd, log @ [Opened client_fd]))"

record ksi_ipc_peer_credentials =
  pc_pid :: int32
  pc_uid :: u32
  pc_gid :: u32

definition ksi_ipc_get_peer_credentials ::
  "(int \<Rightarrow> ksi_ipc_peer_credentials option) \<Rightarrow> int \<Rightarrow> ksi_ipc_peer_credentials ptr \<Rightarrow> int \<times> ksi_ipc_peer_credentials ptr" where
  "ksi_ipc_get_peer_credentials peercred client_fd credentials =
    (case credentials of None \<Rightarrow> (-1, None)
     | Some c \<Rightarrow>
         (case peercred client_fd of None \<Rightarrow> (-1, credentials)
          | Some peer \<Rightarrow> (0, Some (c\<lparr>pc_pid := pc_pid peer, pc_uid := pc_uid peer, pc_gid := pc_gid peer\<rparr>))))"

definition ksi_ipc_close_client :: "int \<Rightarrow> server_log \<Rightarrow> server_log" where
  "ksi_ipc_close_client client_fd log = (if client_fd \<ge> 0 then log @ [Closed client_fd] else log)"


section \<open>Receiving a frame\<close>

definition chunks :: "read_answer list \<Rightarrow> nat" where
  "chunks answers = length (filter (\<lambda>a. a \<noteq> Read_Interrupted) answers)"

lemma chunks_simps [simp]: "chunks [] = 0" "chunks (Read_Interrupted # as) = chunks as" "chunks (Chunk k # as) = Suc (chunks as)"
  by (simp_all add: chunks_def)

lemma put_take_drop:
  assumes "c + r \<le> length b" "m \<le> r" "length (take m s) = m"
  shows "put_bytes (put_bytes b c (take m s)) (c + m) (take (r - m) (drop m s)) = put_bytes b c (take r s)"
proof -
  have "take r s = take m s @ take (r - m) (drop m s)" using assms(2) take_add [of m "r - m" s] by simp
  then show ?thesis using assms by (simp add: put_put_fold)
qed

text \<open>Whatever the chunking, a complete read delivers exactly the bytes asked for, in order.\<close>

lemma read_exact_spec:
  "c + r \<le> length b \<Longrightarrow>
   returns (read_exact b c r answers s) (\<lambda>x. case x of Waiting \<Rightarrow> True
     | Done (result, b', rest, s') \<Rightarrow> length b' = length b \<and> result \<in> {1, 0, -1}
         \<and> (result = 1 \<longrightarrow> r \<le> length s \<and> b' = put_bytes b c (take r s) \<and> s' = drop r s))"
proof (induction answers arbitrary: b c r s)
  case Nil
  then show ?case by (subst read_exact.simps) (simp add: put_bytes_def)
next
  case (Cons a rest)
  show ?case
  proof (cases "r = 0")
    case True
    then show ?thesis by (subst read_exact.simps) (simp add: put_bytes_def)
  next
    case False
    show ?thesis
    proof (cases a)
      case (Chunk k)
      define m where "m = length (os_chunk k r s)"
      have bs: "os_chunk k r s = take m s" and m: "m \<le> r" by (auto simp: m_def os_chunk_def min_def)
      have lm: "length (take m s) = m" using m_def bs by metis
      show ?thesis
      proof (cases "m = 0")
        case True
        then show ?thesis using False Chunk bs by (subst read_exact.simps) simp
      next
        case nz: False
        have "c + m + (r - m) \<le> length (put_bytes b c (take m s))" using Cons.prems m lm by simp
        note IH = Cons.IH [OF this, of "drop m s"]
        have eq: "read_exact b c r (a # rest) s = read_exact (put_bytes b c (take m s)) (c + m) (r - m) rest (drop m s)"
        proof -
          have "take m s \<noteq> []" "mem_copy b c (take m s) = Some (put_bytes b c (take m s))"
            using nz lm m Cons.prems by (auto simp: mem_simps)
          then show ?thesis using False by (subst read_exact.simps) (simp add: Chunk bs Let_def lm del: length_take take_eq_Nil)
        qed
        show ?thesis
          unfolding eq by (rule returns_mono [OF IH])
            (use Cons.prems m lm put_take_drop [OF Cons.prems m lm] in \<open>auto split: progress.splits\<close>)
      qed
    next
      case Read_Interrupted
      with False have eq: "read_exact b c r (a # rest) s = read_exact b c r rest s" by (subst read_exact.simps) simp
      show ?thesis unfolding eq by (rule Cons.IH [OF Cons.prems])
    next
      case Read_Failed
      with False show ?thesis by (subst read_exact.simps) simp
    qed
  qed
qed

text \<open>A stream that holds the bytes is read to the end, given one answer per byte.\<close>

lemma read_exact_progress:
  "c + r \<le> length b \<Longrightarrow> r \<le> length s \<Longrightarrow> Read_Failed \<notin> set answers \<Longrightarrow> r \<le> chunks answers \<Longrightarrow>
   \<exists>rest. read_exact b c r answers s = Some (Done (1, put_bytes b c (take r s), rest, drop r s))
     \<and> Read_Failed \<notin> set rest \<and> chunks answers \<le> chunks rest + r"
proof (induction answers arbitrary: b c r s)
  case Nil
  then show ?case by (subst read_exact.simps) (simp add: put_bytes_def)
next
  case (Cons a rest)
  show ?case
  proof (cases "r = 0")
    case True
    then show ?thesis using Cons.prems by (subst read_exact.simps) (simp add: put_bytes_def)
  next
    case False
    show ?thesis
    proof (cases a)
      case (Chunk k)
      define m where "m = min (k + 1) r"
      have bs: "os_chunk k r s = take m s" by (simp add: m_def os_chunk_def)
      have m: "0 < m" "m \<le> r" using False by (auto simp: m_def)
      have lm: "length (take m s) = m" using m Cons.prems by simp
      have "c + m + (r - m) \<le> length (put_bytes b c (take m s))" using Cons.prems m lm by simp
      moreover have "r - m \<le> length (drop m s)" "r - m \<le> chunks rest" using Cons.prems m Chunk by simp_all
      ultimately obtain rest' where "read_exact (put_bytes b c (take m s)) (c + m) (r - m) rest (drop m s)
          = Some (Done (1, put_bytes b c (take r s), rest', drop r s))" "Read_Failed \<notin> set rest'" "chunks rest \<le> chunks rest' + (r - m)"
        using Cons.IH [of "c + m" "r - m" "put_bytes b c (take m s)" "drop m s"] Cons.prems m lm put_take_drop [OF Cons.prems(1) m(2) lm] by auto
      moreover have "take m s \<noteq> []" using m lm by auto
      moreover have "mem_copy b c (take m s) = Some (put_bytes b c (take m s))" using Cons.prems m lm by (simp add: mem_simps)
      ultimately show ?thesis using False Chunk lm m by (subst read_exact.simps) (auto simp: bs)
    next
      case Read_Interrupted
      with False Cons.IH [of c r b s] Cons.prems show ?thesis by (subst read_exact.simps) simp
    next
      case Read_Failed
      with Cons.prems show ?thesis by simp
    qed
  qed
qed

definition frame_outcome :: "bytes \<Rightarrow> nat \<Rightarrow> bytes \<Rightarrow> (int \<times> bytes ptr \<times> nat ptr \<times> bytes) progress \<Rightarrow> bool" where
  "frame_outcome b old stream x = (case x of Waiting \<Rightarrow> True
     | Done (result, out, n, rest) \<Rightarrow>
         (\<exists>b'. out = Some b' \<and> length b' = length b
           \<and> (if result = 1
              then \<exists>h n'. n = Some n' \<and> n' = 24 + unat (mh_payload_length h) \<and> n' \<le> length b \<and> ksi_protocol_frame_is_valid (Some h)
                \<and> stream = take n' b' @ rest \<and> ksi_frame_header_decode (Some (take 24 b')) (Some blank_header) = Some (True, Some h)
              else result \<in> {0, -1} \<and> n = Some old)))"

lemma payload_size_t: "size_t_add 24 (unat (n :: u32)) = 24 + unat n"
proof (rule size_t_add_small)
  have "unat n < 2 ^ 32" using unsigned_less [of n] by simp
  then show "24 + unat n < size_t_mod" by (simp add: size_t_mod_def)
qed

text \<open>The part of a receive after the header was read.\<close>

lemma payload_received:
  assumes b: "24 \<le> length b" and s: "24 \<le> length stream"
    and dec: "ksi_frame_header_decode (Some (take 24 stream)) (Some blank_header) = Some (True, Some h)"
    and valid: "ksi_protocol_frame_is_valid (Some h)" and fits: "24 + unat (mh_payload_length h) \<le> length b"
  shows "returns (read_exact (put_bytes b 0 (take 24 stream)) 24 (unat (mh_payload_length h)) answers (drop 24 stream))
    (\<lambda>second. returns (case second of Waiting \<Rightarrow> Some Waiting
       | Done (result, b, answers, rest) \<Rightarrow>
           if result \<le> 0 then Some (Done (result, Some b, Some old, rest))
           else Some (Done (1, Some b, Some (24 + unat (mh_payload_length h)), rest))) (frame_outcome b old stream))"
proof -
  let ?n = "unat (mh_payload_length h)" and ?b = "put_bytes b 0 (take 24 stream)"
  have len: "length ?b = length b" using b s by simp
  have "returns (read_exact ?b 24 ?n answers (drop 24 stream)) (\<lambda>x. case x of Waiting \<Rightarrow> True
     | Done (result, b', rest, s') \<Rightarrow> length b' = length ?b \<and> result \<in> {1, 0, -1}
         \<and> (result = 1 \<longrightarrow> ?n \<le> length (drop 24 stream) \<and> b' = put_bytes ?b 24 (take ?n (drop 24 stream)) \<and> s' = drop ?n (drop 24 stream)))"
    by (rule read_exact_spec) (use fits len in simp)
  then show ?thesis
  proof (rule returns_mono)
    fix x :: "(int \<times> bytes \<times> read_answer list \<times> bytes) progress" assume x: "case x of Waiting \<Rightarrow> True
     | Done (result, b', rest, s') \<Rightarrow> length b' = length ?b \<and> result \<in> {1, 0, -1}
         \<and> (result = 1 \<longrightarrow> ?n \<le> length (drop 24 stream) \<and> b' = put_bytes ?b 24 (take ?n (drop 24 stream)) \<and> s' = drop ?n (drop 24 stream))"
    show "returns (case x of Waiting \<Rightarrow> Some Waiting
       | Done (result, b, answers, rest) \<Rightarrow>
           if result \<le> 0 then Some (Done (result, Some b, Some old, rest))
           else Some (Done (1, Some b, Some (24 + ?n), rest))) (frame_outcome b old stream)"
    proof (cases x)
      case Waiting
      then show ?thesis by (simp add: frame_outcome_def)
    next
      case (Done y)
      then obtain result b' as' rest where d: "x = Done (result, b', as', rest)" by (cases y) auto
      show ?thesis
      proof (cases "result = 1")
        case False
        with x d len show ?thesis by (auto simp: frame_outcome_def)
      next
        case True
        with x d have n: "?n \<le> length stream - 24" and b': "b' = put_bytes ?b 24 (take ?n (drop 24 stream))"
          and rest: "rest = drop (24 + ?n) stream" by (auto simp: add.commute)
        have "b' = put_bytes b 0 (take 24 stream @ take ?n (drop 24 stream))"
          unfolding b' using s n fits len by (intro put_put_fold) auto
        also have "take 24 stream @ take ?n (drop 24 stream) = take (24 + ?n) stream" by (simp add: take_add)
        finally have b'': "b' = put_bytes b 0 (take (24 + ?n) stream)" .
        have l: "length (take (24 + ?n) stream) = 24 + ?n" using n s by simp
        have "length b' = length b" "take (24 + ?n) b' = take (24 + ?n) stream"
          using l fits by (simp_all add: b'' take_put_bytes)
        moreover from this(2) have "take 24 (take (24 + ?n) b') = take 24 (take (24 + ?n) stream)" by simp
        then have "take 24 b' = take 24 stream" by (simp add: min_def)
        ultimately show ?thesis using True valid fits dec by (auto simp: d frame_outcome_def rest)
      qed
    qed
  qed
qed

lemma frame_received:
  assumes b: "24 \<le> length b" and s: "24 \<le> length stream"
  shows "returns (do {
       (ok, header) \<leftarrow> ksi_frame_header_decode (Some (take 24 stream)) (Some blank_header);
       if \<not> ok \<or> \<not> ksi_protocol_frame_is_valid header then Some (Done (-1, Some b, Some old, drop 24 stream))
       else do {
         h \<leftarrow> header;
         let frame_size = size_t_add 24 (unat (mh_payload_length h));
         if frame_size > length b then Some (Done (-1, Some b, Some old, drop 24 stream))
         else do {
           b \<leftarrow> mem_copy b 0 (take 24 stream);
           second \<leftarrow> read_exact b 24 (unat (mh_payload_length h)) answers (drop 24 stream);
           case second of Waiting \<Rightarrow> Some Waiting
           | Done (result, b, answers, rest) \<Rightarrow>
               if result \<le> 0 then Some (Done (result, Some b, Some old, rest))
               else Some (Done (1, Some b, Some frame_size, rest))
         }
       }
     }) (frame_outcome b old stream)"
proof -
  obtain ok header where dec: "ksi_frame_header_decode (Some (take 24 stream)) (Some blank_header) = Some (ok, header)"
    using header_decode_eq [of "take 24 stream" blank_header] s by (auto split: if_splits)
  show ?thesis
  proof (cases "ok \<and> ksi_protocol_frame_is_valid header \<and> (\<exists>h. header = Some h \<and> 24 + unat (mh_payload_length h) \<le> length b)")
    case True
    then obtain h where h: "ok" "header = Some h" "ksi_protocol_frame_is_valid (Some h)" "24 + unat (mh_payload_length h) \<le> length b" by auto
    have "mem_copy b 0 (take 24 stream) = Some (put_bytes b 0 (take 24 stream))" using b s by (simp add: mem_simps)
    moreover have "ksi_frame_header_decode (Some (take 24 stream)) (Some blank_header) = Some (True, Some h)" using dec h by simp
    note payload_received [OF b s this h(3,4), of answers old]
    ultimately show ?thesis using h dec by (simp add: payload_size_t)
  next
    case False
    then show ?thesis
      by (cases header) (auto simp: dec payload_size_t frame_outcome_def ksi_protocol_frame_is_valid_def)
  qed
qed

text \<open>
  C4. Receiving a frame never touches memory outside the caller's buffer, whatever the peer sends
  and however the bytes arrive. A result of 1 means that the first bytes of the stream are one
  valid frame that fits the buffer, that exactly this frame was taken from the stream and stands at
  the front of the buffer, and that the caller was told its size. In every other case the result is
  0 or -1 and the size is not written.
\<close>

theorem read_framed_sound:
  "returns (ksi_ipc_read_framed_message (Some b) (Some old) answers stream) (frame_outcome b old stream)"
proof (cases "length b < 24")
  case True
  then show ?thesis by (simp add: frame_outcome_def ksi_ipc_read_framed_message_def)
next
  case False
  have r1: "returns (read_exact (replicate 24 0) 0 24 answers stream) (\<lambda>x. case x of Waiting \<Rightarrow> True
     | Done (result, b', rest, s') \<Rightarrow> length b' = length (replicate 24 (0 :: byte)) \<and> result \<in> {1, 0, -1}
         \<and> (result = 1 \<longrightarrow> 24 \<le> length stream \<and> b' = put_bytes (replicate 24 0) 0 (take 24 stream) \<and> s' = drop 24 stream))"
    by (rule read_exact_spec) simp
  show ?thesis
    unfolding ksi_ipc_read_framed_message_def prod.case option.case KSI_FRAME_HEADER_SIZE_def if_not_P [OF False]
  proof (rule returns_bind [OF r1], goal_cases)
    case (1 first)
    show ?case
    proof (cases first)
      case Waiting
      then show ?thesis by (simp add: frame_outcome_def)
    next
      case (Done y)
      then obtain result w as' s' where d: "first = Done (result, w, as', s')" by (cases y) auto
      show ?thesis
      proof (cases "result \<le> 0")
        case True
        with 1 d show ?thesis by (auto simp: frame_outcome_def)
      next
        case nonneg: False
        with 1 d have w: "result = 1" "24 \<le> length stream" "w = take 24 stream" "s' = drop 24 stream" by (auto simp: put_bytes_def)
        show ?thesis using frame_received [of b stream old as'] False w(2) by (simp add: d w)
      qed
    qed
  qed
qed


section \<open>Sending frames\<close>

definition written :: "bytes \<Rightarrow> nat \<Rightarrow> nat \<Rightarrow> socket \<Rightarrow> (int \<times> send_answer list \<times> socket) progress \<Rightarrow> bool" where
  "written buf c r sk x = (case x of Waiting \<Rightarrow> True
     | Done (result, _, sk') \<Rightarrow> \<exists>n \<le> r. sk_sent sk' = sk_sent sk @ get_bytes buf c n \<and> (sk_shut sk \<longrightarrow> n = 0)
         \<and> (result = 0 \<and> n = r \<and> sk_shut sk' = sk_shut sk \<or> result = -1 \<and> n < r \<and> sk_shut sk'))"

lemma written_torn_down: "0 < r \<Longrightarrow> returns (torn_down sk as) (written buf c r sk)"
  by (auto simp: torn_down_def written_def intro!: exI [of _ "0 :: nat"])

lemma written_waits: "written buf c r (sk\<lparr>sk_waits := ws\<rparr>) x = written buf c r sk x"
  by (auto simp: written_def split: progress.splits)

text \<open>Writing either delivers every byte or shuts the socket down behind a part of them.\<close>

lemma write_exact_spec:
  "c + r \<le> length buf \<Longrightarrow> returns (write_exact budget buf c r d answers sk) (written buf c r sk)"
proof (induction answers arbitrary: c r d sk)
  case Nil
  then show ?case by (subst write_exact.simps) (auto simp: written_def)
next
  case (Cons a rest)
  show ?case
  proof (cases "r = 0 \<or> sk_shut sk")
    case True
    then show ?thesis using written_torn_down by (subst write_exact.simps) (auto simp: written_def)
  next
    case open1: False
    then have r: "0 < r" and sh: "\<not> sk_shut sk" by auto
    show ?thesis
    proof (cases a)
      case (Sent k)
      let ?m = "min (k + 1) r" and ?sk = "sk\<lparr>sk_sent := sk_sent sk @ get_bytes buf c (min (k + 1) r)\<rparr>"
      have m: "c + ?m + (r - ?m) \<le> length buf" "mem_read buf c ?m = Some (get_bytes buf c ?m)"
        using Cons.prems by (auto simp: mem_simps)
      have eq: "write_exact budget buf c r d (a # rest) sk = write_exact budget buf (c + ?m) (r - ?m) d rest ?sk"
        using r sh m(2) by (subst write_exact.simps) (simp add: Sent Let_def)
      show ?thesis unfolding eq
      proof (rule returns_mono [OF Cons.IH [OF m(1)]])
        fix x assume x: "written buf (c + ?m) (r - ?m) ?sk x"
        show "written buf c r sk x"
        proof (cases x)
          case (Done y)
          then obtain result as1 sk1 where d: "x = Done (result, as1, sk1)" by (cases y) auto
          from x obtain n where n: "n \<le> r - ?m" "sk_sent sk1 = sk_sent sk @ get_bytes buf c ?m @ get_bytes buf (c + ?m) n"
            and res: "result = 0 \<and> n = r - ?m \<and> \<not> sk_shut sk1 \<or> result = -1 \<and> n < r - ?m \<and> sk_shut sk1"
            by (auto simp: d written_def sh)
          have "?m + n \<le> r" "sk_sent sk1 = sk_sent sk @ get_bytes buf c (?m + n)"
            "result = 0 \<and> ?m + n = r \<and> \<not> sk_shut sk1 \<or> result = -1 \<and> ?m + n < r \<and> sk_shut sk1"
            using n res by (simp_all only: get_bytes_split) auto
          then show ?thesis using sh unfolding d written_def by auto
        qed (simp add: written_def)
      qed
    next
      case (Send_Blocked ts p)
      have "returns (write_exact budget buf c r d' rest (sk\<lparr>sk_waits := ws\<rparr>)) (written buf c r sk)" for d' ws
        using Cons.IH [OF Cons.prems] written_waits by (metis (mono_tags, lifting) returns_mono)
      moreover have "returns (torn_down (sk\<lparr>sk_waits := ws\<rparr>) rest) (written buf c r sk)" for ws
        using written_torn_down [OF r] written_waits by (metis (mono_tags, lifting) returns_mono)
      ultimately show ?thesis using r sh written_torn_down [OF r]
        by (subst write_exact.simps) (simp add: Send_Blocked Let_def split: poll_answer.splits)
    qed (use r sh written_torn_down [OF r] Cons in \<open>(subst write_exact.simps, simp)+\<close>)
  qed
qed

text \<open>A message with its thread's drain budget, and the bytes of its frame.\<close>

record message =
  ms_budget :: int32
  ms_opcode :: u16
  ms_flags :: u16
  ms_request_id :: u64
  ms_payload :: bytes

definition message_header :: "message \<Rightarrow> ksi_message_header" where
  "message_header m = \<lparr>mh_major = 3, mh_minor = 0, mh_opcode = ms_opcode m, mh_flags = ms_flags m,
     mh_payload_length = word_of_nat (length (ms_payload m)), mh_request_id = ms_request_id m\<rparr>"

definition frame_of :: "message \<Rightarrow> bytes" where
  "frame_of m = header_bytes (message_header m) @ ms_payload m"

definition send_message :: "message \<Rightarrow> send_answer list \<Rightarrow> socket \<Rightarrow> (int \<times> send_answer list \<times> socket) progress mem" where
  "send_message m = ksi_ipc_send_framed_message (ms_budget m) (ms_opcode m) (ms_flags m) (ms_request_id m) (Some (ms_payload m)) (length (ms_payload m))"

definition send_outcome :: "message \<Rightarrow> socket \<Rightarrow> (int \<times> send_answer list \<times> socket) progress \<Rightarrow> bool" where
  "send_outcome m sk x = (case x of Waiting \<Rightarrow> True
     | Done (result, _, sk') \<Rightarrow>
         result = 0 \<and> \<not> sk_shut sk \<and> \<not> sk_shut sk' \<and> sk_sent sk' = sk_sent sk @ frame_of m
           \<and> length (ms_payload m) \<le> KSI_MAX_PAYLOAD_SIZE \<and> ksi_protocol_frame_is_valid (Some (message_header m))
         \<or> result = -1 \<and> sk' = sk
         \<or> result = -1 \<and> sk_shut sk' \<and> (\<exists>k < length (frame_of m). sk_sent sk' = sk_sent sk @ take k (frame_of m) \<and> (sk_shut sk \<longrightarrow> k = 0)))"

lemma message_header_eq:
  "message_header m = \<lparr>mh_major = KSI_PROTOCOL_MAJOR, mh_minor = KSI_PROTOCOL_MINOR, mh_opcode = ms_opcode m, mh_flags = ms_flags m,
     mh_payload_length = word_of_nat (length (ms_payload m)), mh_request_id = ms_request_id m\<rparr>"
  by (simp add: message_header_def)

lemma length_frame_of [simp]: "length (frame_of m) = 24 + length (ms_payload m)"
  by (simp add: frame_of_def)

lemma payload_written:
  assumes "sk_sent sk1 = sk_sent sk @ header_bytes (message_header m)" "\<not> sk_shut sk" "\<not> sk_shut sk1"
    and "written (ms_payload m) 0 (length (ms_payload m)) sk1 x"
    and "length (ms_payload m) \<le> KSI_MAX_PAYLOAD_SIZE" "ksi_protocol_frame_is_valid (Some (message_header m))"
  shows "returns (case x of Waiting \<Rightarrow> Some Waiting
      | Done (result, answers, sock) \<Rightarrow> Some (Done (if result \<noteq> 0 then -1 else 0, answers, sock))) (send_outcome m sk)"
proof (cases x)
  case Waiting
  then show ?thesis by (simp add: send_outcome_def)
next
  case (Done y)
  then obtain result as1 sk2 where d: "x = Done (result, as1, sk2)" by (cases y) auto
  from assms(4) d obtain n where n: "n \<le> length (ms_payload m)" "sk_sent sk2 = sk_sent sk1 @ take n (ms_payload m)"
    and res: "result = 0 \<and> n = length (ms_payload m) \<and> \<not> sk_shut sk2 \<or> result = -1 \<and> n < length (ms_payload m) \<and> sk_shut sk2"
    using assms(3) by (auto simp: written_def get_bytes_def)
  have "sk_sent sk2 = sk_sent sk @ take (24 + n) (frame_of m)" using n assms(1) by (simp add: frame_of_def)
  then have "n < length (ms_payload m) \<Longrightarrow> \<exists>k < length (frame_of m). sk_sent sk2 = sk_sent sk @ take k (frame_of m)"
    by (intro exI [of _ "24 + n"]) simp
  with res assms(2,5,6) assms(1) n show ?thesis by (auto simp: d send_outcome_def frame_of_def [of m])
qed

lemma send_message_spec: "returns (send_message m answers sk) (send_outcome m sk)"
proof (cases "length (ms_payload m) > KSI_MAX_PAYLOAD_SIZE \<or> \<not> ksi_protocol_frame_is_valid (Some (message_header m))")
  case True
  then show ?thesis
    by (auto simp: send_message_def ksi_ipc_send_framed_message_def send_outcome_def message_header_def Let_def)
next
  case ok: False
  let ?p = "ms_payload m" and ?w = "header_bytes (message_header m)"
  have short: "\<not> KSI_MAX_PAYLOAD_SIZE < length ?p" and valid: "ksi_protocol_frame_is_valid (Some (message_header m)) = True"
    using ok by auto
  have enc: "ksi_frame_header_encode (replicate 24 0) (message_header m) = Some ?w"
    by (simp add: header_encode_eq put_bytes_def)
  have eq: "send_message m answers sk = do {
      first \<leftarrow> write_exact (ms_budget m) ?w 0 24 0 answers sk;
      case first of Waiting \<Rightarrow> Some Waiting
      | Done (result, answers, sock) \<Rightarrow>
          if result \<noteq> 0 then Some (Done (-1, answers, sock))
          else if length ?p = 0 then Some (Done (0, answers, sock))
          else do {
            second \<leftarrow> write_exact (ms_budget m) ?p 0 (length ?p) 0 answers sock;
            case second of Waiting \<Rightarrow> Some Waiting
            | Done (result, answers, sock) \<Rightarrow> Some (Done (if result \<noteq> 0 then -1 else 0, answers, sock))
          }
      }"
    unfolding send_message_def ksi_ipc_send_framed_message_def Let_def message_header_eq [symmetric] if_not_P [OF short] valid
      KSI_FRAME_HEADER_SIZE_def enc not_True_eq_False if_False bind.bind_lunit ..
  show ?thesis unfolding eq
  proof (rule returns_bind [OF write_exact_spec])
    fix x assume x: "written ?w 0 24 sk x"
    show "returns (case x of Waiting \<Rightarrow> Some Waiting
      | Done (result, answers, sock) \<Rightarrow>
          if result \<noteq> 0 then Some (Done (-1, answers, sock))
          else if length ?p = 0 then Some (Done (0, answers, sock))
          else do {
            second \<leftarrow> write_exact (ms_budget m) ?p 0 (length ?p) 0 answers sock;
            case second of Waiting \<Rightarrow> Some Waiting
            | Done (result, answers, sock) \<Rightarrow> Some (Done (if result \<noteq> 0 then -1 else 0, answers, sock))
          }) (send_outcome m sk)"
    proof (cases x)
      case Waiting
      then show ?thesis by (simp add: send_outcome_def)
    next
      case (Done y)
      then obtain result as1 sk1 where d: "x = Done (result, as1, sk1)" by (cases y) auto
      show ?thesis
      proof (cases "result = 0")
        case False
        with x d obtain n where n: "n < 24" "sk_sent sk1 = sk_sent sk @ take n ?w" "sk_shut sk \<longrightarrow> n = 0" "sk_shut sk1"
          by (auto simp: written_def get_bytes_def)
        then have "\<exists>k < length (frame_of m). sk_sent sk1 = sk_sent sk @ take k (frame_of m) \<and> (sk_shut sk \<longrightarrow> k = 0)"
          by (intro exI [of _ n]) (simp add: frame_of_def)
        with False n(4) show ?thesis by (simp add: d send_outcome_def)
      next
        case True
        with x d have s1: "sk_sent sk1 = sk_sent sk @ ?w" "\<not> sk_shut sk" "\<not> sk_shut sk1"
          by (auto simp: written_def get_bytes_def)
        show ?thesis
        proof (cases "?p = []")
          case True
          with s1 ok \<open>result = 0\<close> show ?thesis by (simp add: d send_outcome_def frame_of_def not_less)
        next
          case ne: False
          have "returns (write_exact (ms_budget m) ?p 0 (length ?p) 0 as1 sk1) (written ?p 0 (length ?p) sk1)"
            by (rule write_exact_spec) simp
          then have "returns (write_exact (ms_budget m) ?p 0 (length ?p) 0 as1 sk1) (\<lambda>second. returns (case second of Waiting \<Rightarrow> Some Waiting
              | Done (result, answers, sock) \<Rightarrow> Some (Done (if result \<noteq> 0 then -1 else 0, answers, sock))) (send_outcome m sk))"
            by (rule returns_mono) (rule payload_written [OF s1], use ok in auto)
          with ne True show ?thesis by (simp add: d)
        qed
      qed
    qed
  qed simp
qed


text \<open>Messages sent one after the other on one connection, with the result of each.\<close>

fun send_all :: "message list \<Rightarrow> send_answer list \<Rightarrow> socket \<Rightarrow> (int list \<times> socket) progress mem" where
  "send_all [] answers sock = Some (Done ([], sock))"
| "send_all (m # ms) answers sock = do {
     first \<leftarrow> send_message m answers sock;
     case first of Waiting \<Rightarrow> Some Waiting
     | Done (result, answers, sock) \<Rightarrow> do {
         others \<leftarrow> send_all ms answers sock;
         case others of Waiting \<Rightarrow> Some Waiting | Done (results, sock) \<Rightarrow> Some (Done (result # results, sock))
       }
   }"

fun accepted :: "message list \<Rightarrow> int list \<Rightarrow> message list" where
  "accepted (m # ms) (r # rs) = (if r = 0 then m # accepted ms rs else accepted ms rs)"
| "accepted _ _ = []"

definition stream_outcome :: "message list \<Rightarrow> socket \<Rightarrow> (int list \<times> socket) progress \<Rightarrow> bool" where
  "stream_outcome ms sk x = (case x of Waiting \<Rightarrow> True
     | Done (rs, sk') \<Rightarrow> length rs = length ms \<and> set rs \<subseteq> {0, -1} \<and> (\<exists>part.
         sk_sent sk' = sk_sent sk @ concat (map frame_of (accepted ms rs)) @ part
         \<and> (sk_shut sk \<longrightarrow> sk_shut sk' \<and> accepted ms rs = [] \<and> part = [])
         \<and> (part \<noteq> [] \<longrightarrow> sk_shut sk' \<and> (\<exists>m \<in> set ms. \<exists>k < length (frame_of m). part = take k (frame_of m)))))"

lemma stream_outcome_Cons:
  assumes "send_outcome m sk (Done (r, as, sk1))" and "stream_outcome ms sk1 (Done (rs, sk2))"
  shows "stream_outcome (m # ms) sk (Done (r # rs, sk2))"
proof -
  from assms(2) obtain part where p: "length rs = length ms" "set rs \<subseteq> {0, -1}"
    "sk_sent sk2 = sk_sent sk1 @ concat (map frame_of (accepted ms rs)) @ part"
    "sk_shut sk1 \<longrightarrow> sk_shut sk2 \<and> accepted ms rs = [] \<and> part = []"
    "part \<noteq> [] \<longrightarrow> sk_shut sk2 \<and> (\<exists>m \<in> set ms. \<exists>k < length (frame_of m). part = take k (frame_of m))"
    by (auto simp: stream_outcome_def)
  from assms(1) consider
      (sent) "r = 0" "\<not> sk_shut sk" "sk_sent sk1 = sk_sent sk @ frame_of m"
    | (same) "r = -1" "sk1 = sk"
    | (cut) k where "r = -1" "sk_shut sk1" "k < length (frame_of m)" "sk_sent sk1 = sk_sent sk @ take k (frame_of m)" "sk_shut sk \<longrightarrow> k = 0"
    by (auto simp: send_outcome_def)
  then show ?thesis
  proof cases
    case cut
    then have "sk_sent sk2 = sk_sent sk @ take k (frame_of m)" "accepted ms rs = []" "sk_shut sk2" using p by auto
    with cut p show ?thesis unfolding stream_outcome_def progress.case prod.case
      by (intro conjI exI [of _ "take k (frame_of m)"]) (auto intro: exI [of _ k])
  qed (use p in \<open>auto simp: stream_outcome_def\<close>)
qed

lemma send_all_spec: "returns (send_all ms answers sk) (stream_outcome ms sk)"
proof (induction ms arbitrary: answers sk)
  case Nil
  then show ?case by (simp add: stream_outcome_def)
next
  case (Cons m ms)
  show ?case unfolding send_all.simps
  proof (rule returns_bind [OF send_message_spec])
    fix x assume x: "send_outcome m sk x"
    show "returns (case x of Waiting \<Rightarrow> Some Waiting
     | Done (result, answers, sock) \<Rightarrow> do {
         others \<leftarrow> send_all ms answers sock;
         case others of Waiting \<Rightarrow> Some Waiting | Done (results, sock) \<Rightarrow> Some (Done (result # results, sock))
       }) (stream_outcome (m # ms) sk)"
    proof (cases x)
      case Waiting
      then show ?thesis by (simp add: stream_outcome_def)
    next
      case (Done y)
      then obtain r as1 sk1 where d: "x = Done (r, as1, sk1)" by (cases y) auto
      have "returns (send_all ms as1 sk1) (\<lambda>z. returns (case z of Waiting \<Rightarrow> Some Waiting
          | Done (results, sock) \<Rightarrow> Some (Done (r # results, sock))) (stream_outcome (m # ms) sk))"
      proof (rule returns_mono [OF Cons.IH])
        fix z assume z: "stream_outcome ms sk1 z"
        show "returns (case z of Waiting \<Rightarrow> Some Waiting
          | Done (results, sock) \<Rightarrow> Some (Done (r # results, sock))) (stream_outcome (m # ms) sk)"
        proof (cases z)
          case Waiting
          then show ?thesis by (simp add: stream_outcome_def)
        next
          case (Done v)
          then obtain rs sk2 where "z = Done (rs, sk2)" by (cases v) auto
          with stream_outcome_Cons [of m sk r as1 sk1 ms rs sk2] x z d show ?thesis by simp
        qed
      qed
      then show ?thesis by (simp add: d)
    qed
  qed
qed

lemmas send_eval = send_message_def ksi_ipc_send_framed_message_def write_exact.simps header_encode_eq ipc_monotonic_ms_def
  torn_down_def mem_simps ksi_protocol_frame_is_valid_def put_bytes_def

text \<open>
  C2. A peer never reads a damaged stream. Whatever messages are sent on a fresh connection and
  however the system answers, the bytes on the wire are the complete frames of exactly the messages
  whose send returned 0, in order, followed by at most a part of one more frame; and if there is
  such a part, the connection is shut down, so that nothing can follow it.
\<close>

theorem frames_stay_whole:
  assumes "send_all ms answers \<lparr>sk_sent = [], sk_shut = False, sk_waits = []\<rparr> = Some (Done (results, sock))"
  shows "length results = length ms \<and> set results \<subseteq> {0, -1} \<and> (\<exists>part. sk_sent sock = concat (map frame_of (accepted ms results)) @ part
     \<and> (part \<noteq> [] \<longrightarrow> sk_shut sock \<and> (\<exists>m \<in> set ms. \<exists>k < length (frame_of m). part = take k (frame_of m))))"
  using send_all_spec [of ms answers "\<lparr>sk_sent = [], sk_shut = False, sk_waits = []\<rparr>"] assms by (simp add: stream_outcome_def)

theorem frames_stay_whole_witness:
  "\<exists>results sock. send_all [\<lparr>ms_budget = 5, ms_opcode = 7, ms_flags = 0, ms_request_id = 1, ms_payload = [9]\<rparr>]
      [Sent 9, Send_Blocked (Some (1, 0)) Poll_Writable, Sent_Zero] \<lparr>sk_sent = [], sk_shut = False, sk_waits = []\<rparr> = Some (Done (results, sock))
    \<and> results = [-1] \<and> sk_shut sock \<and> length (sk_sent sock) = 10 \<and> accepted [\<lparr>ms_budget = 5, ms_opcode = 7, ms_flags = 0, ms_request_id = 1, ms_payload = [9]\<rparr>] results = []"
proof -
  let ?m = "\<lparr>ms_budget = 5, ms_opcode = 7, ms_flags = 0, ms_request_id = 1, ms_payload = [9]\<rparr>" and ?fresh = "\<lparr>sk_sent = [], sk_shut = False, sk_waits = []\<rparr>"
  let ?s = "\<lparr>sk_sent = take 10 (header_bytes (message_header ?m)), sk_shut = True, sk_waits = [5]\<rparr>"
  have e: "send_all [?m] [Sent 9, Send_Blocked (Some (1, 0)) Poll_Writable, Sent_Zero] ?fresh = Some (Done ([-1], ?s))"
    by (simp add: send_eval get_bytes_def message_header_def)
  with frames_stay_whole [OF e] show ?thesis by (intro exI [of _ "[-1]"] exI [of _ ?s]) simp
qed


lemma payload_length_eq:
  "length (ms_payload m) \<le> KSI_MAX_PAYLOAD_SIZE \<Longrightarrow> unat (mh_payload_length (message_header m)) = length (ms_payload m)"
  by (simp add: message_header_def unsigned_of_nat take_bit_nat_eq_self)

lemma frame_delivered:
  assumes valid: "ksi_protocol_frame_is_valid (Some (message_header m))" and len: "length (ms_payload m) \<le> KSI_MAX_PAYLOAD_SIZE"
    and room: "length (frame_of m) \<le> length b" and answers: "Read_Failed \<notin> set answers" "length (frame_of m) \<le> chunks answers"
  shows "ksi_ipc_read_framed_message (Some b) (Some old) answers (frame_of m @ later)
    = Some (Done (1, Some (put_bytes b 0 (frame_of m)), Some (length (frame_of m)), later))"
proof -
  let ?h = "message_header m" and ?p = "ms_payload m" and ?s = "frame_of m @ later"
  have n: "unat (mh_payload_length ?h) = length ?p" by (rule payload_length_eq [OF len])
  obtain rest where r1: "read_exact (replicate 24 0) 0 24 answers ?s = Some (Done (1, header_bytes ?h, rest, ?p @ later))"
    "Read_Failed \<notin> set rest" "chunks answers \<le> chunks rest + 24"
    using read_exact_progress [of 0 24 "replicate 24 0" ?s answers] answers by (auto simp: frame_of_def put_bytes_def)
  obtain rest2 where r2: "read_exact (put_bytes b 0 (header_bytes ?h)) 24 (length ?p) rest (?p @ later)
      = Some (Done (1, put_bytes (put_bytes b 0 (header_bytes ?h)) 24 ?p, rest2, later))"
    using read_exact_progress [of 24 "length ?p" "put_bytes b 0 (header_bytes ?h)" "?p @ later" rest] r1 room answers by auto
  have put: "put_bytes (put_bytes b 0 (header_bytes ?h)) 24 ?p = put_bytes b 0 (frame_of m)"
    unfolding frame_of_def using room by (intro put_put_fold) auto
  have dec: "ksi_frame_header_decode (Some (header_bytes ?h)) (Some blank_header) = Some (True, Some ?h)"
    using header_decode_encoded [of "replicate 24 0" ?h blank_header] by (simp add: put_bytes_def)
  have copy: "mem_copy b 0 (header_bytes ?h) = Some (put_bytes b 0 (header_bytes ?h))" using room by (simp add: mem_simps)
  show ?thesis
    using room valid by (simp add: ksi_ipc_read_framed_message_def r1(1) dec n copy r2 put payload_size_t [of "mh_payload_length ?h", unfolded n])
qed

text \<open>
  C3. A frame sent is the frame received: when a send returned 0, the bytes it put on the wire,
  followed by anything, are received as one frame by a reader whose buffer is large enough, however
  the bytes are cut into pieces on the way and however often its reads are interrupted, as long as
  they bring one byte at a time. The reader sees the sender's operation code, flags, request id
  and payload, and what follows stays in the stream.
\<close>

theorem send_then_receive:
  assumes "ksi_ipc_send_framed_message budget opcode flags request_id (Some p) (length p) sends sock = Some (Done (0, sends', sock'))"
    and "24 + length p \<le> length b" and "Read_Failed \<notin> set answers" and "24 + length p \<le> chunks answers"
  shows "\<exists>frame h. sk_sent sock' = sk_sent sock @ frame
    \<and> ksi_ipc_read_framed_message (Some b) (Some old) answers (frame @ later) = Some (Done (1, Some (put_bytes b 0 frame), Some (24 + length p), later))
    \<and> ksi_frame_header_decode (Some (put_bytes b 0 frame)) (Some h0) = Some (True, Some h)
    \<and> mh_opcode h = opcode \<and> mh_flags h = flags \<and> mh_request_id h = request_id \<and> unat (mh_payload_length h) = length p
    \<and> get_bytes (put_bytes b 0 frame) 24 (length p) = p"
proof -
  let ?m = "\<lparr>ms_budget = budget, ms_opcode = opcode, ms_flags = flags, ms_request_id = request_id, ms_payload = p\<rparr>"
  have "send_outcome ?m sock (Done (0, sends', sock'))"
    using send_message_spec [of ?m sends sock] assms(1) by (simp add: send_message_def)
  then have sent: "sk_sent sock' = sk_sent sock @ frame_of ?m" and len: "length p \<le> KSI_MAX_PAYLOAD_SIZE"
    and valid: "ksi_protocol_frame_is_valid (Some (message_header ?m))" by (auto simp: send_outcome_def)
  have read: "ksi_ipc_read_framed_message (Some b) (Some old) answers (frame_of ?m @ later)
      = Some (Done (1, Some (put_bytes b 0 (frame_of ?m)), Some (24 + length p), later))"
    using frame_delivered [OF valid] len assms by simp
  have "put_bytes b 0 (frame_of ?m) = put_bytes (put_bytes b 0 (header_bytes (message_header ?m))) 24 p"
    unfolding frame_of_def using assms(2) by (subst put_put_fold) auto
  also have "\<dots> = put_bytes (put_bytes b 24 p) 0 (header_bytes (message_header ?m))"
    using assms(2) by (intro nth_equalityI) (auto simp: nth_put_bytes)
  finally have "ksi_frame_header_decode (Some (put_bytes b 0 (frame_of ?m))) (Some h0) = Some (True, Some (message_header ?m))"
    using assms(2) by (simp add: header_decode_encoded)
  moreover have "get_bytes (put_bytes b 0 (frame_of ?m)) 24 (length p) = p"
    using assms(2) by (simp add: get_put_inside frame_of_def get_append_right get_bytes_all)
  moreover have "unat (mh_payload_length (message_header ?m)) = length p" using payload_length_eq [of ?m] len by simp
  ultimately show ?thesis using sent read by (intro exI [of _ "frame_of ?m"] exI [of _ "message_header ?m"]) (simp add: message_header_def)
qed

theorem send_then_receive_witness:
  "\<exists>sock'. ksi_ipc_send_framed_message 100 7 0 1 (Some [9]) 1 [Sent 30, Send_Interrupted, Sent 0] \<lparr>sk_sent = [], sk_shut = False, sk_waits = []\<rparr>
      = Some (Done (0, [], sock'))
    \<and> (\<exists>b'. ksi_ipc_read_framed_message (Some (replicate 64 0)) (Some 0) (Read_Interrupted # replicate 25 (Chunk 3)) (sk_sent sock') = Some (Done (1, Some b', Some 25, []))
         \<and> get_bytes b' 24 1 = [9])"
proof -
  let ?h = "\<lparr>mh_major = 3, mh_minor = 0, mh_opcode = 7, mh_flags = 0, mh_payload_length = 1, mh_request_id = 1\<rparr>"
  let ?s = "\<lparr>sk_sent = header_bytes ?h @ [9], sk_shut = False, sk_waits = []\<rparr>"
  have s: "ksi_ipc_send_framed_message 100 7 0 1 (Some [9]) (length [9 :: byte]) [Sent 30, Send_Interrupted, Sent 0]
      \<lparr>sk_sent = [], sk_shut = False, sk_waits = []\<rparr> = Some (Done (0, [], ?s))"
    by (simp add: send_eval get_bytes_def)
  have c: "chunks (Read_Interrupted # replicate 25 (Chunk 3)) = 25" by (simp add: chunks_def)
  from send_then_receive [OF s, of "replicate 64 0" "Read_Interrupted # replicate 25 (Chunk 3)" 0 "[]"] c s show ?thesis by auto
qed

section \<open>How long a send may wait\<close>











section \<open>Opening and closing the server\<close>

definition leaked :: "server_log \<Rightarrow> int \<Rightarrow> int" where
  "leaked log fd = int (count_list log (Opened fd)) - int (count_list log (Closed fd))"

definition unfreed :: "server_log \<Rightarrow> int" where
  "unfreed log = int (count_list log Allocated) - int (count_list log Freed)"

lemma leaked_append: "leaked (xs @ ys) fd = leaked xs fd + leaked ys fd"
  by (simp add: leaked_def count_list_append)

lemma unfreed_append: "unfreed (xs @ ys) = unfreed xs + unfreed ys"
  by (simp add: unfreed_def count_list_append)

lemma leaked_simps [simp]:
  "leaked [] fd = 0" "leaked (Opened n # log) fd = (if n = fd then 1 else 0) + leaked log fd"
  "leaked (Closed n # log) fd = leaked log fd - (if n = fd then 1 else 0)" "leaked (Allocated # log) fd = leaked log fd"
  "leaked (Freed # log) fd = leaked log fd" "leaked (Unlinked p # log) fd = leaked log fd" "leaked (Bound n p # log) fd = leaked log fd"
  "leaked (Chmodded p # log) fd = leaked log fd" "leaked (Listening n # log) fd = leaked log fd"
  by (simp_all add: leaked_def)

lemma unfreed_simps [simp]:
  "unfreed [] = 0" "unfreed (Allocated # log) = unfreed log + 1" "unfreed (Freed # log) = unfreed log - 1"
  "unfreed (Opened n # log) = unfreed log" "unfreed (Closed n # log) = unfreed log" "unfreed (Unlinked p # log) = unfreed log"
  "unfreed (Bound n p # log) = unfreed log" "unfreed (Chmodded p # log) = unfreed log" "unfreed (Listening n # log) = unfreed log"
  by (simp_all add: unfreed_def)

lemma leaked_abandon [simp]:
  "leaked (abandon_ipc_server c fd path u log) x
    = leaked log x - (if fd \<ge> 0 \<and> fd = x then 1 else 0) - (if is_lock_fd c \<ge> 0 \<and> is_lock_fd c = x then 1 else 0)"
  "unfreed (abandon_ipc_server c fd path u log) = unfreed log - 1"
  by (simp_all add: abandon_ipc_server_def leaked_append unfreed_append)



text \<open>What opening does once the lock was asked for.\<close>

definition open_rest :: "ipc_env \<Rightarrow> string \<Rightarrow> ksi_ipc_server ptr \<Rightarrow> int \<Rightarrow> ksi_ipc_server \<Rightarrow> server_log \<Rightarrow> int \<times> ksi_ipc_server ptr ptr \<times> server_log" where
  "open_rest env path old lock_result created log =
    (let fd = ie_socket env; log2 = log @ [Opened fd, Unlinked path]; log3 = log2 @ [Bound fd path]; log4 = log3 @ [Chmodded path];
         log5 = log4 @ [Listening fd]
     in if lock_result = -2 then (-1, Some old, log @ [Freed])
        else if fd < 0 then (-1, Some old, abandon_ipc_server created (-1) path False log)
        else if \<not> ie_bind env then (-1, Some old, abandon_ipc_server created fd path False log2)
        else if \<not> ie_chmod env then (-1, Some old, abandon_ipc_server created fd path True log3)
        else if \<not> ie_listen env then (-1, Some old, abandon_ipc_server created fd path True log4)
        else if \<not> ie_strdup env then (-1, Some old, abandon_ipc_server created fd path True log5)
        else (0, Some (Some (created\<lparr>is_fd := fd, is_socket_path := Some path\<rparr>)), log5 @ [Allocated]))"

lemma open_eq:
  assumes "ie_calloc env" and "validate_socket_path (Some path) = 0"
    and "acquire_single_instance_lock env path [Allocated] = (lock_result, log1)"
  shows "ksi_ipc_server_open env (Some path) (Some old) []
    = open_rest env path old lock_result \<lparr>is_fd = 0, is_lock_fd = if lock_result \<ge> 0 then lock_result else -1, is_socket_path = None\<rparr> log1"
  using assms by (cases "lock_result \<ge> 0") (simp_all add: ksi_ipc_server_open_def open_rest_def Let_def)




text \<open>
  C36. A second instance does not disturb a running one: while another process holds the lock,
  opening fails without touching the socket path. This rests on \<open>errno\<close> keeping its value while
  the message is printed and the descriptor closed; when it does not, the check is skipped
  and the path of the running instance is unlinked.
\<close>

theorem lock_held_undisturbed:
  assumes "ksi_ipc_server_open env (Some path) (Some old) [] = (result, server, log)"
    and "ie_open env \<ge> 0" and "ie_flock env = Lock_Held" and "0 < length path" "length path < 108" and "ie_calloc env" and "ie_socket env \<ge> 0"
  shows "if ie_errno_kept env then result = -1 \<and> server = Some old \<and> log = [Allocated, Opened (ie_open env), Closed (ie_open env), Freed]
    else Unlinked path \<in> set log"
proof -
  have lock: "acquire_single_instance_lock env path [Allocated]
      = (if ie_errno_kept env then -2 else -1, [Allocated, Opened (ie_open env), Closed (ie_open env)])"
    using assms(2-5) by (simp add: acquire_single_instance_lock_def PATH_MAX_def Let_def)
  have "validate_socket_path (Some path) = 0" using assms(4,5) by (simp add: validate_socket_path_def SUN_PATH_SIZE_def)
  from assms(1,7) [unfolded open_eq [OF assms(6) this lock]] show ?thesis
    by (cases "ie_errno_kept env") (auto simp: open_rest_def abandon_ipc_server_def Let_def split: if_splits)
qed

theorem lock_held_undisturbed_witness:
  "\<exists>result server log. ksi_ipc_server_open \<lparr>ie_calloc = True, ie_open = 3, ie_flock = Lock_Held, ie_errno_kept = True, ie_socket = 4,
       ie_bind = True, ie_chmod = True, ie_listen = True, ie_strdup = True\<rparr> (Some ''/run/s'') (Some None) [] = (result, server, log)
     \<and> result = -1 \<and> Unlinked ''/run/s'' \<notin> set log"
proof -
  let ?e = "\<lparr>ie_calloc = True, ie_open = 3, ie_flock = Lock_Held, ie_errno_kept = True, ie_socket = 4,
       ie_bind = True, ie_chmod = True, ie_listen = True, ie_strdup = True\<rparr>"
  obtain result server log where e: "ksi_ipc_server_open ?e (Some ''/run/s'') (Some None) [] = (result, server, log)" by (metis prod_cases3)
  with lock_held_undisturbed [OF e] show ?thesis by auto
qed

end
