(* ===== verification/Connection_Ref.thy ===== *)
theory Connection_Ref
  imports Ipc
begin

text \<open>
  The shared handle of a client connection, src/src/connection_ref.c: its reference count and
  registry, sending through it, and the turns in which a client's hook callbacks run. Atomic
  fields are read and written in single steps, and the parts of an operation between locking and
  unlocking a mutex are single steps; the step relations at the end interleave them. A waiter on
  a thread's stack is named by a number that stands for its address.
\<close>

section \<open>State\<close>

definition KSI_MAX_HOOK_CALL_DEPTH :: nat where [simp]: "KSI_MAX_HOOK_CALL_DEPTH = 64"
definition UINT_MAX :: u32 where [simp]: "UINT_MAX = 0xffffffff"
definition SIZE_MAX :: nat where [simp]: "SIZE_MAX = 0xffffffffffffffff"

record ksi_hook_turn_waiter =
  tw_address :: nat
  tw_recursive :: bool

record ksi_hook_call_frame =
  cf_event_id :: u64
  cf_pumping :: bool

definition zero_frame :: ksi_hook_call_frame where
  "zero_frame = \<lparr>cf_event_id = 0, cf_pumping = False\<rparr>"

record ksi_hook_send_ref =
  hr_fd :: int
  hr_ref_count :: u32
  hr_valid :: bool
  hr_stalled_lanes :: u32
  hr_expired_events :: "u64 list"
  hr_waiters :: "ksi_hook_turn_waiter list"
  hr_calls :: "ksi_hook_call_frame list"
  hr_call_depth :: nat

section \<open>Expired events and stalled lanes\<close>

definition hook_send_ref_expire_event :: "ksi_hook_send_ref ptr \<Rightarrow> nat \<Rightarrow> u64 \<Rightarrow> ksi_hook_send_ref ptr mem" where
  "hook_send_ref_expire_event ref lane_index event_id =
    (case ref of None \<Rightarrow> Some None
     | Some r \<Rightarrow>
         if lane_index < 2 then do {
           events \<leftarrow> arr_set (hr_expired_events r) lane_index event_id;
           Some (Some (r\<lparr>hr_expired_events := events\<rparr>))
         }
         else Some ref)"

text \<open>The loop of the compare-and-exchange over the two lanes.\<close>

fun consume_expired :: "u64 \<Rightarrow> nat list \<Rightarrow> ksi_hook_send_ref \<Rightarrow> (bool \<times> ksi_hook_send_ref) mem" where
  "consume_expired event_id [] r = Some (False, r)"
| "consume_expired event_id (i # is) r = do {
     stored \<leftarrow> arr_get (hr_expired_events r) i;
     if stored = event_id then do {
       events \<leftarrow> arr_set (hr_expired_events r) i 0;
       Some (True, r\<lparr>hr_expired_events := events\<rparr>)
     }
     else consume_expired event_id is r
   }"

definition hook_send_ref_consume_expired_event :: "ksi_hook_send_ref ptr \<Rightarrow> u64 \<Rightarrow> (bool \<times> ksi_hook_send_ref ptr) mem" where
  "hook_send_ref_consume_expired_event ref event_id =
    (case ref of None \<Rightarrow> Some (False, None)
     | Some r \<Rightarrow>
         if event_id = 0 then Some (False, ref)
         else do { (found, r) \<leftarrow> consume_expired event_id [0..<2] r; Some (found, Some r) })"

definition hook_send_ref_is_stalled :: "ksi_hook_send_ref ptr \<Rightarrow> nat \<Rightarrow> bool" where
  "hook_send_ref_is_stalled ref lane_index =
    (case ref of None \<Rightarrow> False | Some r \<Rightarrow> lane_index < 2 \<and> hr_stalled_lanes r AND push_bit lane_index 1 \<noteq> 0)"

definition hook_send_ref_mark_stalled :: "ksi_hook_send_ref ptr \<Rightarrow> nat \<Rightarrow> ksi_hook_send_ref ptr" where
  "hook_send_ref_mark_stalled ref lane_index =
    (case ref of None \<Rightarrow> None
     | Some r \<Rightarrow> if lane_index < 2 then Some (r\<lparr>hr_stalled_lanes := hr_stalled_lanes r OR push_bit lane_index 1\<rparr>) else ref)"

definition hook_send_ref_clear_stalled :: "ksi_hook_send_ref ptr \<Rightarrow> nat \<Rightarrow> ksi_hook_send_ref ptr" where
  "hook_send_ref_clear_stalled ref lane_index =
    (case ref of None \<Rightarrow> None
     | Some r \<Rightarrow> if lane_index < 2 then Some (r\<lparr>hr_stalled_lanes := hr_stalled_lanes r AND NOT (push_bit lane_index 1)\<rparr>) else ref)"

section \<open>Deadlines\<close>

text \<open>Seconds and nanoseconds are signed and wide enough not to overflow.\<close>

record timespec =
  tv_sec :: int
  tv_nsec :: int

definition monotonic_deadline_after_ms :: "timespec option \<Rightarrow> timespec ptr \<Rightarrow> int32 \<Rightarrow> bool \<times> timespec ptr" where
  "monotonic_deadline_after_ms clock_gettime deadline timeout_ms =
    (case (deadline, clock_gettime) of
       (Some _, Some now) \<Rightarrow>
         let ms = (if sint timeout_ms < 0 then 0 else sint timeout_ms);
             d = now\<lparr>tv_sec := tv_sec now + ms div 1000, tv_nsec := tv_nsec now + ms mod 1000 * 1000000\<rparr>;
             d = (if tv_nsec d \<ge> 1000000000 then d\<lparr>tv_sec := tv_sec d + 1, tv_nsec := tv_nsec d - 1000000000\<rparr> else d)
         in (True, Some d)
     | _ \<Rightarrow> (False, deadline))"

section \<open>Creation and reference count\<close>

text \<open>The resources a handle is made of, in the order in which they are taken and given back.\<close>

datatype ref_resource = Ref_Memory | Send_Mutex | Turn_Mutex | Attributes | Turn_Condition

datatype ref_event = Took ref_resource | Gave ref_resource | Closed_Fd int | Shutdown_Fd int | Broadcast

record create_env =
  ce_calloc :: bool
  ce_send_mutex :: bool
  ce_turn_mutex :: bool
  ce_attributes :: bool
  ce_setclock :: bool
  ce_condition :: bool

definition new_ref :: "int \<Rightarrow> ksi_hook_send_ref" where
  "new_ref client_fd = \<lparr>hr_fd = client_fd, hr_ref_count = 1, hr_valid = True, hr_stalled_lanes = 0, hr_expired_events = [0, 0],
     hr_waiters = [], hr_calls = replicate KSI_MAX_HOOK_CALL_DEPTH zero_frame, hr_call_depth = 0\<rparr>"

text \<open>The handle and what was taken and given back; a handle that is returned is put at the front of the registry.\<close>

definition hook_send_ref_create :: "create_env \<Rightarrow> int \<Rightarrow> ksi_hook_send_ref ptr \<times> ref_event list" where
  "hook_send_ref_create env client_fd =
    (if \<not> ce_calloc env then (None, [])
     else if \<not> ce_send_mutex env then (None, [Took Ref_Memory, Gave Ref_Memory])
     else if \<not> ce_turn_mutex env then (None, [Took Ref_Memory, Took Send_Mutex, Gave Send_Mutex, Gave Ref_Memory])
     else if \<not> ce_attributes env
       then (None, [Took Ref_Memory, Took Send_Mutex, Took Turn_Mutex, Gave Turn_Mutex, Gave Send_Mutex, Gave Ref_Memory])
     else if \<not> ce_setclock env \<or> \<not> ce_condition env
       then (None, [Took Ref_Memory, Took Send_Mutex, Took Turn_Mutex, Took Attributes,
              Gave Attributes, Gave Turn_Mutex, Gave Send_Mutex, Gave Ref_Memory])
     else (Some (new_ref client_fd), [Took Ref_Memory, Took Send_Mutex, Took Turn_Mutex, Took Attributes, Took Turn_Condition, Gave Attributes]))"

definition hook_send_ref_acquire :: "ksi_hook_send_ref ptr \<Rightarrow> bool \<times> ksi_hook_send_ref ptr" where
  "hook_send_ref_acquire ref =
    (case ref of None \<Rightarrow> (False, None)
     | Some r \<Rightarrow>
         if \<not> hr_valid r then (False, ref)
         else if hr_ref_count r \<noteq> 0 \<and> hr_ref_count r \<noteq> UINT_MAX then (True, Some (r\<lparr>hr_ref_count := hr_ref_count r + 1\<rparr>))
         else (False, ref))"


definition hook_send_ref_invalidate :: "ksi_hook_send_ref ptr \<Rightarrow> ksi_hook_send_ref ptr \<times> ref_event list" where
  "hook_send_ref_invalidate ref =
    (case ref of None \<Rightarrow> (None, [])
     | Some r \<Rightarrow>
         if \<not> hr_valid r then (ref, [])
         else (Some (r\<lparr>hr_valid := False\<rparr>), (if hr_fd r \<ge> 0 then [Shutdown_Fd (hr_fd r)] else []) @ [Broadcast]))"

text \<open>
  Releasing first gives up one count, and the last one to do so takes the handle out of the
  registry and destroys it.
\<close>

definition release_count :: "ksi_hook_send_ref \<Rightarrow> bool \<times> ksi_hook_send_ref" where
  "release_count r = (hr_ref_count r = 1, r\<lparr>hr_ref_count := hr_ref_count r - 1\<rparr>)"

fun unlink_ref :: "nat \<Rightarrow> nat list \<Rightarrow> nat list" where
  "unlink_ref ref [] = []"
| "unlink_ref ref (cursor # rest) = (if cursor = ref then rest else cursor # unlink_ref ref rest)"

definition destroy_ref :: "ksi_hook_send_ref \<Rightarrow> ref_event list" where
  "destroy_ref r = (if hr_fd r \<ge> 0 then [Closed_Fd (hr_fd r)] else []) @ [Gave Turn_Condition, Gave Turn_Mutex, Gave Send_Mutex, Gave Ref_Memory]"

section \<open>Sending\<close>

text \<open>
  \<open>still_valid\<close> is what the second reading of the flag, under the mutex, gives: another thread may
  have invalidated the handle in between.
\<close>

definition hook_send_ref_send ::
  "ksi_hook_send_ref ptr \<Rightarrow> bool \<Rightarrow> int32 \<Rightarrow> u16 \<Rightarrow> u16 \<Rightarrow> u64 \<Rightarrow> bytes ptr \<Rightarrow> nat \<Rightarrow> send_answer list \<Rightarrow> socket
    \<Rightarrow> (int \<times> send_answer list \<times> socket) progress mem" where
  "hook_send_ref_send ref still_valid budget opcode flags request_id payload payload_size answers sock =
    (case ref of None \<Rightarrow> Some (Done (-1, answers, sock))
     | Some r \<Rightarrow>
         if \<not> hr_valid r then Some (Done (-1, answers, sock))
         else if still_valid then ksi_ipc_send_framed_message budget opcode flags request_id payload payload_size answers sock
         else Some (Done (-1, answers, sock)))"



section \<open>Turns\<close>

definition append_waiter :: "ksi_hook_send_ref \<Rightarrow> ksi_hook_turn_waiter \<Rightarrow> ksi_hook_send_ref" where
  "append_waiter r waiter = r\<lparr>hr_waiters := hr_waiters r @ [waiter]\<rparr>"

fun unlink_waiter :: "ksi_hook_turn_waiter \<Rightarrow> ksi_hook_turn_waiter list \<Rightarrow> ksi_hook_turn_waiter list" where
  "unlink_waiter waiter [] = []"
| "unlink_waiter waiter (cursor # rest) = (if tw_address cursor = tw_address waiter then rest else cursor # unlink_waiter waiter rest)"

definition remove_waiter :: "ksi_hook_send_ref \<Rightarrow> ksi_hook_turn_waiter \<Rightarrow> ksi_hook_send_ref" where
  "remove_waiter r waiter = r\<lparr>hr_waiters := unlink_waiter waiter (hr_waiters r)\<rparr>"

fun first_recursive :: "ksi_hook_turn_waiter list \<Rightarrow> ksi_hook_turn_waiter ptr" where
  "first_recursive [] = None"
| "first_recursive (waiter # rest) = (if tw_recursive waiter then Some waiter else first_recursive rest)"

definition best_waiter :: "ksi_hook_send_ref \<Rightarrow> ksi_hook_turn_waiter ptr" where
  "best_waiter r =
    (case first_recursive (hr_waiters r) of Some waiter \<Rightarrow> Some waiter
     | None \<Rightarrow> (case hr_waiters r of [] \<Rightarrow> None | waiter # _ \<Rightarrow> Some waiter))"

definition waiter_can_enter :: "ksi_hook_send_ref \<Rightarrow> ksi_hook_turn_waiter \<Rightarrow> bool mem" where
  "waiter_can_enter r waiter =
    (if hr_call_depth r \<ge> KSI_MAX_HOOK_CALL_DEPTH \<or> map_option tw_address (best_waiter r) \<noteq> Some (tw_address waiter) then Some False
     else if hr_call_depth r = 0 then Some True
     else if \<not> tw_recursive waiter then Some False
     else do { frame \<leftarrow> arr_get (hr_calls r) (hr_call_depth r - 1); Some (cf_pumping frame) })"

fun find_from :: "ksi_hook_send_ref \<Rightarrow> u64 \<Rightarrow> nat \<Rightarrow> nat mem" where
  "find_from r event_id 0 = Some SIZE_MAX"
| "find_from r event_id (Suc i) = do {
     frame \<leftarrow> arr_get (hr_calls r) i;
     if cf_event_id frame = event_id then Some i else find_from r event_id i
   }"

definition find_call :: "ksi_hook_send_ref \<Rightarrow> u64 \<Rightarrow> nat mem" where
  "find_call r event_id = find_from r event_id (hr_call_depth r)"

text \<open>
  Waiting for a turn: \<open>wait_begin\<close> is what is done before the loop, \<open>wait_check\<close> one round of it (which
  ends by entering, by leaving because the handle is invalid, or by sleeping on the condition), and
  \<open>wait_leave\<close> what is done when the loop ends without entering, also after a timeout.
\<close>

datatype turn_verdict = Enter | Leave_Invalid | Sleep

definition wait_begin :: "ksi_hook_send_ref ptr \<Rightarrow> u64 \<Rightarrow> ksi_hook_turn_waiter \<Rightarrow> timespec option \<Rightarrow> int32 \<Rightarrow> bool \<times> ksi_hook_send_ref ptr" where
  "wait_begin ref event_id waiter clock_gettime timeout_ms =
    (case ref of None \<Rightarrow> (False, None)
     | Some r \<Rightarrow>
         if event_id = 0 \<or> \<not> hr_valid r \<or> \<not> fst (monotonic_deadline_after_ms clock_gettime (Some \<lparr>tv_sec = 0, tv_nsec = 0\<rparr>) timeout_ms)
         then (False, ref)
         else (True, Some (append_waiter r waiter)))"

definition wait_check :: "ksi_hook_send_ref \<Rightarrow> ksi_hook_turn_waiter \<Rightarrow> u64 \<Rightarrow> (turn_verdict \<times> ksi_hook_send_ref) mem" where
  "wait_check r waiter event_id =
    (if \<not> hr_valid r then Some (Leave_Invalid, r)
     else do {
       can \<leftarrow> waiter_can_enter r waiter;
       if can then do {
         let r = remove_waiter r waiter;
         frame \<leftarrow> arr_get (hr_calls r) (hr_call_depth r);
         calls \<leftarrow> arr_set (hr_calls r) (hr_call_depth r) (frame\<lparr>cf_event_id := event_id\<rparr>);
         Some (Enter, r\<lparr>hr_calls := calls, hr_call_depth := hr_call_depth r + 1\<rparr>)
       }
       else Some (Sleep, r)
     })"

definition wait_leave :: "ksi_hook_send_ref \<Rightarrow> ksi_hook_turn_waiter \<Rightarrow> ksi_hook_send_ref" where
  "wait_leave r waiter = remove_waiter r waiter"

text \<open>Moving the frames above \<open>index\<close> down by one, and clearing the top one.\<close>

definition complete_locked :: "ksi_hook_send_ref \<Rightarrow> u64 \<Rightarrow> ksi_hook_send_ref mem" where
  "complete_locked r event_id = do {
     index \<leftarrow> find_call r event_id;
     if index = SIZE_MAX then Some r
     else do {
       calls \<leftarrow> (if index + 1 < hr_call_depth r
         then (if hr_call_depth r \<le> length (hr_calls r)
               then Some (put_bytes (hr_calls r) index (get_bytes (hr_calls r) (index + 1) (hr_call_depth r - index - 1))) else None)
         else Some (hr_calls r));
       calls \<leftarrow> arr_set calls (hr_call_depth r - 1) zero_frame;
       Some (r\<lparr>hr_calls := calls, hr_call_depth := hr_call_depth r - 1\<rparr>)
     }
   }"

definition hook_send_ref_complete_event :: "ksi_hook_send_ref ptr \<Rightarrow> u64 \<Rightarrow> (ksi_hook_send_ref ptr \<times> ref_event list) mem" where
  "hook_send_ref_complete_event ref event_id =
    (case ref of None \<Rightarrow> Some (None, [])
     | Some r \<Rightarrow>
         if event_id = 0 then Some (ref, []) else do { r \<leftarrow> complete_locked r event_id; Some (Some r, [Broadcast]) })"

definition hook_send_ref_begin_pump :: "ksi_hook_send_ref ptr \<Rightarrow> u64 \<Rightarrow> (bool \<times> ksi_hook_send_ref ptr \<times> ref_event list) mem" where
  "hook_send_ref_begin_pump ref event_id =
    (case ref of None \<Rightarrow> Some (False, None, [])
     | Some r \<Rightarrow>
         if event_id = 0 \<or> \<not> hr_valid r then Some (False, ref, [])
         else if hr_call_depth r = 0 then Some (False, ref, [])
         else do {
           frame \<leftarrow> arr_get (hr_calls r) (hr_call_depth r - 1);
           if cf_event_id frame = event_id \<and> \<not> cf_pumping frame then do {
             calls \<leftarrow> arr_set (hr_calls r) (hr_call_depth r - 1) (frame\<lparr>cf_pumping := True\<rparr>);
             Some (True, Some (r\<lparr>hr_calls := calls\<rparr>), [Broadcast])
           }
           else Some (False, ref, [])
         })"

definition hook_send_ref_current_event_id :: "ksi_hook_send_ref ptr \<Rightarrow> u64 mem" where
  "hook_send_ref_current_event_id ref =
    (case ref of None \<Rightarrow> Some 0
     | Some r \<Rightarrow>
         if \<not> hr_valid r then Some 0
         else if hr_call_depth r \<noteq> 0 then do { frame \<leftarrow> arr_get (hr_calls r) (hr_call_depth r - 1); Some (cf_event_id frame) }
         else Some 0)"

text \<open>
  Ending a pump: \<open>end_pump_begin\<close> clears the flag and gives the index of the call when there is one to
  wait for, \<open>end_pump_waits\<close> is the condition of the loop, \<open>end_pump_result\<close> the answer after it.
\<close>

definition end_pump_begin :: "ksi_hook_send_ref ptr \<Rightarrow> u64 \<Rightarrow> (nat option \<times> ksi_hook_send_ref ptr \<times> ref_event list) mem" where
  "end_pump_begin ref event_id =
    (case ref of None \<Rightarrow> Some (None, None, [])
     | Some r \<Rightarrow>
         if event_id = 0 \<or> \<not> hr_valid r then Some (None, ref, [])
         else do {
           index \<leftarrow> find_call r event_id;
           if index = SIZE_MAX then Some (None, ref, [Broadcast])
           else do {
             frame \<leftarrow> arr_get (hr_calls r) index;
             if cf_pumping frame then do {
               calls \<leftarrow> arr_set (hr_calls r) index (frame\<lparr>cf_pumping := False\<rparr>);
               Some (Some index, Some (r\<lparr>hr_calls := calls\<rparr>), [Broadcast])
             }
             else Some (None, ref, [Broadcast])
           }
         })"

definition end_pump_waits :: "ksi_hook_send_ref \<Rightarrow> nat \<Rightarrow> u64 \<Rightarrow> bool mem" where
  "end_pump_waits r index event_id =
    (if hr_valid r \<and> hr_call_depth r > index + 1 then do { frame \<leftarrow> arr_get (hr_calls r) index; Some (cf_event_id frame = event_id) }
     else Some False)"

definition end_pump_result :: "ksi_hook_send_ref \<Rightarrow> nat \<Rightarrow> u64 \<Rightarrow> bool mem" where
  "end_pump_result r index event_id =
    (if hr_valid r \<and> hr_call_depth r = index + 1 then do { frame \<leftarrow> arr_get (hr_calls r) index; Some (cf_event_id frame = event_id) }
     else Some False)"

section \<open>Releasing and sending by descriptor\<close>

type_synonym ref_heap = "nat \<Rightarrow> ksi_hook_send_ref option"

definition hook_send_ref_release :: "nat ptr \<Rightarrow> ref_heap \<Rightarrow> nat list \<Rightarrow> (ref_heap \<times> nat list \<times> ref_event list) mem" where
  "hook_send_ref_release ref refs registry =
    (case ref of None \<Rightarrow> Some (refs, registry, [])
     | Some a \<Rightarrow> do {
         r \<leftarrow> refs a;
         let (last_one, r) = release_count r;
         if \<not> last_one then Some (refs(a := Some r), registry, [])
         else Some (refs(a := None), unlink_ref a registry, destroy_ref r)
       })"

text \<open>The search of \<open>ipc_send_locked\<close> under the registry lock: it reads every candidate it passes.\<close>

fun lookup_ref :: "int \<Rightarrow> nat list \<Rightarrow> ref_heap \<Rightarrow> (nat \<times> ref_heap) option mem" where
  "lookup_ref client_fd [] refs = Some None"
| "lookup_ref client_fd (candidate # rest) refs = do {
     r \<leftarrow> refs candidate;
     let (acquired, r') = hook_send_ref_acquire (Some r);
     if hr_fd r = client_fd \<and> acquired then Some (Some (candidate, refs(candidate := r')))
     else lookup_ref client_fd rest refs
   }"

definition ipc_send_locked ::
  "int \<Rightarrow> nat list \<Rightarrow> ref_heap \<Rightarrow> bool \<Rightarrow> int32 \<Rightarrow> u16 \<Rightarrow> u16 \<Rightarrow> u64 \<Rightarrow> bytes ptr \<Rightarrow> nat \<Rightarrow> send_answer list \<Rightarrow> socket
    \<Rightarrow> (int \<times> ref_heap \<times> nat list \<times> ref_event list \<times> socket) progress mem" where
  "ipc_send_locked client_fd registry refs still_valid budget opcode flags request_id payload payload_size answers sock = do {
     found \<leftarrow> lookup_ref client_fd registry refs;
     case found of None \<Rightarrow> Some (Done (-1, refs, registry, [], sock))
     | Some (a, refs) \<Rightarrow> do {
         sent \<leftarrow> hook_send_ref_send (refs a) still_valid budget opcode flags request_id payload payload_size answers sock;
         case sent of Waiting \<Rightarrow> Some Waiting
         | Done (result, answers, sock) \<Rightarrow> do {
             (refs, registry, events) \<leftarrow> hook_send_ref_release (Some a) refs registry;
             Some (Done (result, refs, registry, events, sock))
           }
       }
   }"

section \<open>Lifetime of the handles\<close>

text \<open>
  The threads of the daemon: \<open>rc_holders\<close> lists the handle of every reference a thread holds,
  \<open>rc_dying\<close> those whose count just reached zero, \<open>rc_unlinked\<close> those that left the registry.
  \<open>rc_created\<close> and \<open>rc_closed\<close> record the addresses of the handles created and of those whose
  descriptor was closed.
\<close>

record ref_system =
  rc_refs :: ref_heap
  rc_registry :: "nat list"
  rc_holders :: "nat list"
  rc_dying :: "nat list"
  rc_unlinked :: "nat list"
  rc_created :: "nat list"
  rc_closed :: "nat list"

definition no_refs :: ref_system where
  "no_refs = \<lparr>rc_refs = \<lambda>_. None, rc_registry = [], rc_holders = [], rc_dying = [], rc_unlinked = [], rc_created = [], rc_closed = []\<rparr>"

inductive ref_step :: "ref_system \<Rightarrow> ref_system \<Rightarrow> bool" where
  create: "rc_refs t a = None \<Longrightarrow> hook_send_ref_create env fd = (Some r, events) \<Longrightarrow>
    ref_step t (t\<lparr>rc_refs := (rc_refs t)(a := Some r), rc_registry := a # rc_registry t, rc_holders := a # rc_holders t,
      rc_created := a # rc_created t\<rparr>)"
| acquire: "a \<in> set (rc_holders t) \<Longrightarrow> hook_send_ref_acquire (rc_refs t a) = (True, r') \<Longrightarrow>
    ref_step t (t\<lparr>rc_refs := (rc_refs t)(a := r'), rc_holders := a # rc_holders t\<rparr>)"
| lookup: "lookup_ref fd (rc_registry t) (rc_refs t) = Some (Some (a, refs)) \<Longrightarrow>
    ref_step t (t\<lparr>rc_refs := refs, rc_holders := a # rc_holders t\<rparr>)"
| invalidate: "a \<in> set (rc_holders t) \<Longrightarrow> hook_send_ref_invalidate (rc_refs t a) = (r', events) \<Longrightarrow>
    ref_step t (t\<lparr>rc_refs := (rc_refs t)(a := r')\<rparr>)"
| release: "a \<in> set (rc_holders t) \<Longrightarrow> rc_refs t a = Some r \<Longrightarrow> release_count r = (last_one, r') \<Longrightarrow>
    ref_step t (t\<lparr>rc_refs := (rc_refs t)(a := Some r'), rc_holders := remove1 a (rc_holders t),
      rc_dying := (if last_one then a # rc_dying t else rc_dying t)\<rparr>)"
| unlink: "a \<in> set (rc_dying t) \<Longrightarrow>
    ref_step t (t\<lparr>rc_registry := unlink_ref a (rc_registry t), rc_dying := remove1 a (rc_dying t), rc_unlinked := a # rc_unlinked t\<rparr>)"
| destroy: "a \<in> set (rc_unlinked t) \<Longrightarrow>
    ref_step t (t\<lparr>rc_refs := (rc_refs t)(a := None), rc_unlinked := remove1 a (rc_unlinked t), rc_closed := a # rc_closed t\<rparr>)"

definition ref_ok :: "ref_system \<Rightarrow> nat \<Rightarrow> bool" where
  "ref_ok t a = (case rc_refs t a of
     None \<Rightarrow> count_list (rc_holders t) a = 0 \<and> count_list (rc_dying t) a = 0 \<and> count_list (rc_unlinked t) a = 0
       \<and> count_list (rc_registry t) a = 0 \<and> count_list (rc_created t) a = count_list (rc_closed t) a
   | Some r \<Rightarrow> count_list (rc_holders t) a = unat (hr_ref_count r)
       \<and> count_list (rc_dying t) a + count_list (rc_unlinked t) a = (if hr_ref_count r = 0 then 1 else 0)
       \<and> count_list (rc_registry t) a + count_list (rc_unlinked t) a = 1
       \<and> count_list (rc_created t) a = count_list (rc_closed t) a + 1)"

lemma count_list_remove1: "count_list (remove1 x xs) y = (if x = y then count_list xs y - 1 else count_list xs y)"
  by (induction xs) auto

lemma count_list_pos: "x \<in> set xs \<longleftrightarrow> 0 < count_list xs x"
  by (induction xs) auto

lemma count_unlink_ref: "count_list (unlink_ref x xs) y = (if x = y then count_list xs y - 1 else count_list xs y)"
  by (induction xs) auto

lemma unat_succ: "(w :: u32) \<noteq> 0xffffffff \<Longrightarrow> unat (w + 1) = unat w + 1"
proof -
  assume "w \<noteq> 0xffffffff"
  moreover have "(- 1 :: u32) = 0xffffffff" by simp
  ultimately have "1 + w \<noteq> 0" by (metis add_eq_0_iff)
  then show ?thesis by (simp add: unatSuc add.commute)
qed

lemma unat_pred: "(w :: u32) \<noteq> 0 \<Longrightarrow> unat (w - 1) = unat w - 1"
  by (simp add: unat_minus_one)

lemma acquire_ok:
  assumes "ref_ok t a" and "hook_send_ref_acquire (rc_refs t a) = (True, r')"
  shows "ref_ok (t\<lparr>rc_refs := (rc_refs t)(a := r'), rc_holders := a # rc_holders t\<rparr>) a"
proof -
  obtain r where r: "rc_refs t a = Some r" "hr_ref_count r \<noteq> 0" "hr_ref_count r \<noteq> 0xffffffff" "r' = Some (r\<lparr>hr_ref_count := hr_ref_count r + 1\<rparr>)"
    using assms(2) by (auto simp: hook_send_ref_acquire_def split: option.splits if_splits)
  then have "unat (hr_ref_count r + 1) = unat (hr_ref_count r) + 1" by (intro unat_succ)
  moreover from this have "hr_ref_count r + 1 \<noteq> 0" by auto
  ultimately show ?thesis using assms(1) r by (simp add: ref_ok_def)
qed

lemma ref_ok_other: "b \<noteq> a \<Longrightarrow> ref_ok t b \<Longrightarrow> ref_ok (t\<lparr>rc_refs := (rc_refs t)(a := r'), rc_holders := a # rc_holders t\<rparr>) b"
  by (auto simp: ref_ok_def split: option.splits if_splits)

lemma lookup_ref_spec:
  "\<forall>a \<in> set registry. refs a \<noteq> None \<Longrightarrow> returns (lookup_ref fd registry refs) (\<lambda>x. case x of None \<Rightarrow> True
     | Some (a, refs') \<Rightarrow> a \<in> set registry \<and> (\<exists>r'. hook_send_ref_acquire (refs a) = (True, r') \<and> refs' = refs(a := r')))"
proof (induction registry)
  case (Cons a rest)
  then obtain r where "refs a = Some r" by auto
  moreover obtain ok r' where "hook_send_ref_acquire (Some r) = (ok, r')" by fastforce
  moreover have "returns (lookup_ref fd rest refs) (\<lambda>x. case x of None \<Rightarrow> True
     | Some (a, refs') \<Rightarrow> a \<in> set rest \<and> (\<exists>r'. hook_send_ref_acquire (refs a) = (True, r') \<and> refs' = refs(a := r')))"
    using Cons by simp
  ultimately show ?case by (auto split: option.splits elim!: returns_mono)
qed simp

lemma registry_allocated: "(\<And>a. ref_ok t a) \<Longrightarrow> a \<in> set (rc_registry t) \<union> set (rc_holders t) \<Longrightarrow> rc_refs t a \<noteq> None"
proof
  assume "\<And>a. ref_ok t a" "a \<in> set (rc_registry t) \<union> set (rc_holders t)" "rc_refs t a = None"
  then show False using count_list_pos [of a "rc_registry t"] count_list_pos [of a "rc_holders t"]
    by (auto simp: ref_ok_def dest!: meta_spec [of _ a])
qed

lemma ref_ok_step:
  assumes "ref_step t t'" and ok: "\<And>a. ref_ok t a"
  shows "ref_ok t' b"
  using assms(1)
proof cases
  case (create a env fd r events)
  then have "hr_ref_count r = 1" by (auto simp: hook_send_ref_create_def new_ref_def split: if_splits)
  with create ok [of b] show ?thesis by (auto simp: ref_ok_def split: option.splits if_splits)
next
  case (acquire a r')
  then show ?thesis using acquire_ok [OF ok [of a]] ref_ok_other [OF _ ok [of b]] by (cases "a = b") auto
next
  case (lookup fd a refs)
  have "\<forall>a \<in> set (rc_registry t). rc_refs t a \<noteq> None" using registry_allocated [OF ok] by auto
  from lookup_ref_spec [OF this, of fd] lookup obtain r' where "hook_send_ref_acquire (rc_refs t a) = (True, r')" "refs = (rc_refs t)(a := r')"
    by auto
  then show ?thesis using lookup acquire_ok [OF ok [of a]] ref_ok_other [OF _ ok [of b]] by (cases "a = b") auto
next
  case (invalidate a r' events)
  with ok [of b] show ?thesis by (auto simp: ref_ok_def hook_send_ref_invalidate_def split: option.splits if_splits)
next
  case (release a r last_one r')
  have "count_list (rc_holders t) a = unat (hr_ref_count r)" using ok [of a] release by (simp add: ref_ok_def)
  then have nz: "hr_ref_count r \<noteq> 0" using release(2) count_list_pos [of a "rc_holders t"] by auto
  have "hr_ref_count r - 1 = 0 \<longleftrightarrow> hr_ref_count r = 1" by auto
  with release ok [of b] unat_pred [OF nz] nz show ?thesis
    by (auto simp: ref_ok_def release_count_def count_list_remove1 split: option.splits if_splits)
next
  case (unlink a)
  then have d: "0 < count_list (rc_dying t) a" using count_list_pos [of a "rc_dying t"] by simp
  show ?thesis
  proof (cases "a = b")
    case True
    then obtain r where "rc_refs t b = Some r" using ok [of b] d by (cases "rc_refs t b") (auto simp: ref_ok_def)
    with True unlink ok [of b] d show ?thesis by (simp add: ref_ok_def count_list_remove1 count_unlink_ref split: if_splits)
  next
    case False
    with unlink ok [of b] show ?thesis by (simp add: ref_ok_def count_list_remove1 count_unlink_ref cong: option.case_cong)
  qed
next
  case (destroy a)
  then have d: "0 < count_list (rc_unlinked t) a" using count_list_pos [of a "rc_unlinked t"] by simp
  show ?thesis
  proof (cases "a = b")
    case True
    then obtain r where r: "rc_refs t b = Some r" using ok [of b] d by (cases "rc_refs t b") (auto simp: ref_ok_def)
    moreover from this have "hr_ref_count r = 0" using ok [of b] d True by (auto simp: ref_ok_def split: if_splits)
    ultimately show ?thesis using True destroy ok [of b] d by (simp add: ref_ok_def count_list_remove1)
  next
    case False
    with destroy ok [of b] show ?thesis by (simp add: ref_ok_def count_list_remove1 cong: option.case_cong)
  qed
qed

lemma ref_ok_reachable: "ref_step\<^sup>*\<^sup>* no_refs t \<Longrightarrow> ref_ok t a"
proof (induction arbitrary: a rule: rtranclp_induct)
  case base
  then show ?case by (simp add: ref_ok_def no_refs_def)
next
  case (step t t')
  then show ?case using ref_ok_step by blast
qed

text \<open>
  C8. However the threads that share connections interleave, a handle lives exactly as long as it
  is referenced: every reference a thread holds and every entry of the registry is an allocated
  handle, the search through the registry never reads a freed one, the count of a handle is the
  number of references to it (it never wraps), and the descriptor of every handle is closed exactly
  once, after the last reference is gone.
\<close>

theorem ref_lifetime:
  assumes "ref_step\<^sup>*\<^sup>* no_refs t"
  shows "(\<forall>a \<in> set (rc_registry t) \<union> set (rc_holders t). rc_refs t a \<noteq> None)
    \<and> lookup_ref fd (rc_registry t) (rc_refs t) \<noteq> None
    \<and> (\<forall>a r. rc_refs t a = Some r \<longrightarrow> unat (hr_ref_count r) = count_list (rc_holders t) a)
    \<and> (\<forall>a. count_list (rc_created t) a = count_list (rc_closed t) a + (if rc_refs t a = None then 0 else 1))"
proof -
  have ok: "\<And>a. ref_ok t a" by (rule ref_ok_reachable [OF assms])
  have alloc: "\<forall>a \<in> set (rc_registry t) \<union> set (rc_holders t). rc_refs t a \<noteq> None" using registry_allocated [OF ok] by blast
  then have "lookup_ref fd (rc_registry t) (rc_refs t) \<noteq> None" using lookup_ref_spec [of "rc_registry t" "rc_refs t" fd] by (auto simp: returns_ex)
  moreover have "\<forall>a r. rc_refs t a = Some r \<longrightarrow> unat (hr_ref_count r) = count_list (rc_holders t) a"
  proof (intro allI impI)
    fix a r assume "rc_refs t a = Some r"
    with ok [of a] show "unat (hr_ref_count r) = count_list (rc_holders t) a" by (simp add: ref_ok_def)
  qed
  moreover have "count_list (rc_created t) a = count_list (rc_closed t) a + (if rc_refs t a = None then 0 else 1)" for a
    using ok [of a] by (auto simp: ref_ok_def split: option.splits)
  ultimately show ?thesis using alloc by blast
qed

theorem ref_lifetime_witness:
  "\<exists>t r. ref_step\<^sup>*\<^sup>* no_refs t \<and> rc_refs t 8 = Some r \<and> hr_ref_count r = 2 \<and> count_list (rc_holders t) 8 = 2
     \<and> count_list (rc_created t) 8 = count_list (rc_closed t) 8 + 1"
proof -
  let ?e = "\<lparr>ce_calloc = True, ce_send_mutex = True, ce_turn_mutex = True, ce_attributes = True, ce_setclock = True, ce_condition = True\<rparr>"
  let ?t1 = "no_refs\<lparr>rc_refs := (rc_refs no_refs)(8 := Some (new_ref 4)), rc_registry := 8 # rc_registry no_refs, rc_holders := 8 # rc_holders no_refs,
      rc_created := 8 # rc_created no_refs\<rparr>"
  let ?r = "(new_ref 4)\<lparr>hr_ref_count := 2\<rparr>"
  let ?t2 = "?t1\<lparr>rc_refs := (rc_refs ?t1)(8 := Some ?r), rc_holders := 8 # rc_holders ?t1\<rparr>"
  have c: "hook_send_ref_create ?e 4 = (Some (new_ref 4), [Took Ref_Memory, Took Send_Mutex, Took Turn_Mutex, Took Attributes, Took Turn_Condition, Gave Attributes])"
    by (simp add: hook_send_ref_create_def)
  have "ref_step no_refs ?t1" by (rule ref_step.create [OF _ c]) (simp add: no_refs_def)
  moreover have "ref_step ?t1 ?t2"
    by (rule ref_step.acquire) (simp_all add: hook_send_ref_acquire_def new_ref_def)
  ultimately have "ref_step\<^sup>*\<^sup>* no_refs ?t2" by (meson converse_rtranclp_into_rtranclp rtranclp.rtrancl_refl)
  from this ref_lifetime [OF this, of 4] show ?thesis
    by (intro exI [of _ ?t2] exI [of _ ?r]) (auto dest!: spec [of _ 8])
qed

section \<open>Order of the turns\<close>

text \<open>
  The threads of one connection: \<open>ts_event\<close> and \<open>ts_awake\<close> give the event a waiter is for and whether
  it is awake (about to look again) or sleeps on the condition. \<open>ts_kinds\<close> records for every call on
  the stack whether it entered as a recursive one.
\<close>

record turn_system =
  ts_ref :: ksi_hook_send_ref
  ts_event :: "nat \<Rightarrow> u64"
  ts_awake :: "nat \<Rightarrow> bool"
  ts_kinds :: "bool list"

definition woken :: "ref_event list \<Rightarrow> (nat \<Rightarrow> bool) \<Rightarrow> nat \<Rightarrow> bool" where
  "woken events awake = (if Broadcast \<in> set events then (\<lambda>_. True) else awake)"

inductive turn_step :: "turn_system \<Rightarrow> turn_system \<Rightarrow> bool" where
  arrive: "tw_address w \<notin> tw_address ` set (hr_waiters (ts_ref t)) \<Longrightarrow>
    turn_step t (t\<lparr>ts_ref := append_waiter (ts_ref t) w, ts_event := (ts_event t)(tw_address w := e), ts_awake := (ts_awake t)(tw_address w := True)\<rparr>)"
| enter: "w \<in> set (hr_waiters (ts_ref t)) \<Longrightarrow> ts_awake t (tw_address w) \<Longrightarrow>
    wait_check (ts_ref t) w (ts_event t (tw_address w)) = Some (Enter, r) \<Longrightarrow>
    turn_step t (t\<lparr>ts_ref := r, ts_kinds := ts_kinds t @ [tw_recursive w]\<rparr>)"
| sleep: "w \<in> set (hr_waiters (ts_ref t)) \<Longrightarrow> ts_awake t (tw_address w) \<Longrightarrow>
    wait_check (ts_ref t) w (ts_event t (tw_address w)) = Some (Sleep, r) \<Longrightarrow>
    turn_step t (t\<lparr>ts_ref := r, ts_awake := (ts_awake t)(tw_address w := False)\<rparr>)"
| spurious: "turn_step t (t\<lparr>ts_awake := (ts_awake t)(a := True)\<rparr>)"
| leave: "w \<in> set (hr_waiters (ts_ref t)) \<Longrightarrow>
    turn_step t (t\<lparr>ts_ref := wait_leave (ts_ref t) w, ts_awake := woken [Broadcast] (ts_awake t)\<rparr>)"
| complete: "hook_send_ref_complete_event (Some (ts_ref t)) e = Some (Some r, events) \<Longrightarrow> e \<noteq> 0 \<Longrightarrow> find_call (ts_ref t) e = Some i \<Longrightarrow>
    turn_step t (t\<lparr>ts_ref := r, ts_awake := woken events (ts_awake t),
      ts_kinds := (if i = SIZE_MAX then ts_kinds t else take i (ts_kinds t) @ drop (i + 1) (ts_kinds t))\<rparr>)"
| begin_pump: "hook_send_ref_begin_pump (Some (ts_ref t)) e = Some (ok, Some r, events) \<Longrightarrow>
    turn_step t (t\<lparr>ts_ref := r, ts_awake := woken events (ts_awake t)\<rparr>)"
| end_pump: "end_pump_begin (Some (ts_ref t)) e = Some (index, Some r, events) \<Longrightarrow>
    turn_step t (t\<lparr>ts_ref := r, ts_awake := woken events (ts_awake t)\<rparr>)"
| end_pump_returns: "turn_step t (t\<lparr>ts_awake := woken [Broadcast] (ts_awake t)\<rparr>)"
| invalidate: "hook_send_ref_invalidate (Some (ts_ref t)) = (Some r, events) \<Longrightarrow>
    turn_step t (t\<lparr>ts_ref := r, ts_awake := woken events (ts_awake t)\<rparr>)"

definition stack_ok :: "ksi_hook_send_ref \<Rightarrow> bool list \<Rightarrow> bool" where
  "stack_ok r kinds \<longleftrightarrow> length (hr_calls r) = 64 \<and> hr_call_depth r \<le> 64 \<and> (\<forall>i. hr_call_depth r \<le> i \<longrightarrow> i < 64 \<longrightarrow> hr_calls r ! i = zero_frame)
     \<and> length kinds = hr_call_depth r \<and> (\<forall>i < hr_call_depth r. 0 < i \<longrightarrow> kinds ! i) \<and> distinct (map tw_address (hr_waiters r))"

definition wakes_ok :: "ksi_hook_send_ref \<Rightarrow> (nat \<Rightarrow> bool) \<Rightarrow> bool" where
  "wakes_ok r awake \<longleftrightarrow> (\<forall>w \<in> set (hr_waiters r). hr_valid r \<longrightarrow> waiter_can_enter r w = Some True \<longrightarrow> awake (tw_address w))
     \<and> (\<not> hr_valid r \<longrightarrow> (\<forall>w \<in> set (hr_waiters r). awake (tw_address w)))"

lemma wakes_all [simp]: "wakes_ok r (\<lambda>_. True)"
  by (simp add: wakes_ok_def)

lemma unlink_waiter_set: "set (unlink_waiter w ws) \<subseteq> set ws"
  by (induction ws) auto

lemma unlink_waiter_distinct: "distinct (map tw_address ws) \<Longrightarrow> distinct (map tw_address (unlink_waiter w ws))"
  using unlink_waiter_set by (induction ws) fastforce+


lemma find_from_spec:
  assumes "n \<le> length (hr_calls r)"
  shows "returns (find_from r e n) (\<lambda>i. i = SIZE_MAX \<or> i < n \<and> cf_event_id (hr_calls r ! i) = e)"
  using assms
proof (induction n)
  case (Suc n)
  then have "returns (find_from r e n) (\<lambda>i. i = SIZE_MAX \<or> i < Suc n \<and> cf_event_id (hr_calls r ! i) = e)"
    by (auto elim!: returns_mono)
  with Suc.prems show ?case by (simp add: mem_simps)
qed simp

lemma find_call_spec:
  "stack_ok r kinds \<Longrightarrow> returns (find_call r e) (\<lambda>i. i = SIZE_MAX \<or> i < hr_call_depth r \<and> cf_event_id (hr_calls r ! i) = e)"
  unfolding find_call_def by (rule find_from_spec) (simp add: stack_ok_def)

lemma can_enter_returns: "stack_ok r kinds \<Longrightarrow> waiter_can_enter r w \<noteq> None"
  by (auto simp: waiter_can_enter_def stack_ok_def mem_simps)

lemma wait_check_spec:
  assumes "stack_ok r kinds"
  shows "returns (wait_check r w e) (\<lambda>(verdict, r'). case verdict of
      Enter \<Rightarrow> hr_valid r \<and> waiter_can_enter r w = Some True \<and> hr_call_depth r < 64
        \<and> r' = (remove_waiter r w)\<lparr>hr_calls := (hr_calls r)[hr_call_depth r := zero_frame\<lparr>cf_event_id := e\<rparr>], hr_call_depth := hr_call_depth r + 1\<rparr>
    | Leave_Invalid \<Rightarrow> \<not> hr_valid r \<and> r' = r
    | Sleep \<Rightarrow> hr_valid r \<and> waiter_can_enter r w = Some False \<and> r' = r)"
proof (cases "hr_valid r")
  case True
  obtain can where can: "waiter_can_enter r w = Some can" using can_enter_returns [OF assms, of w] by auto
  show ?thesis
  proof (cases can)
    case enter: True
    then have d: "hr_call_depth r < 64" using can by (simp add: waiter_can_enter_def split: if_splits)
    with assms have "hr_calls r ! hr_call_depth r = zero_frame" "length (hr_calls r) = 64" by (simp_all add: stack_ok_def)
    with True can enter d show ?thesis by (simp add: wait_check_def remove_waiter_def mem_simps)
  qed (use True can in \<open>simp add: wait_check_def\<close>)
qed (simp add: wait_check_def)

lemma enter_stack:
  assumes "stack_ok r kinds" and "waiter_can_enter r w = Some True" and "hr_call_depth r < 64"
    and "r' = (remove_waiter r w)\<lparr>hr_calls := (hr_calls r)[hr_call_depth r := zero_frame\<lparr>cf_event_id := e\<rparr>], hr_call_depth := hr_call_depth r + 1\<rparr>"
  shows "stack_ok r' (kinds @ [tw_recursive w])" and "wakes_ok r' awake \<or> \<not> hr_valid r'"
proof -
  have rec: "0 < hr_call_depth r \<Longrightarrow> tw_recursive w" using assms(2) by (auto simp: waiter_can_enter_def split: if_splits)
  show "stack_ok r' (kinds @ [tw_recursive w])"
    using assms(1,3) rec unfolding assms(4) by (auto simp: stack_ok_def remove_waiter_def nth_append less_Suc_eq unlink_waiter_distinct)
  have "waiter_can_enter r' v \<noteq> Some True" for v
    using assms(1,3) unfolding assms(4)
    by (simp add: waiter_can_enter_def remove_waiter_def mem_simps stack_ok_def zero_frame_def)
  then show "wakes_ok r' awake \<or> \<not> hr_valid r'" by (simp add: wakes_ok_def)
qed

lemma first_recursive_append:
  "first_recursive (ws @ [w]) = (case first_recursive ws of Some x \<Rightarrow> Some x | None \<Rightarrow> if tw_recursive w then Some w else None)"
  by (induction ws) auto

lemma arrive_wakes:
  assumes "wakes_ok r awake" and "tw_address w \<notin> tw_address ` set (hr_waiters r)"
  shows "wakes_ok (append_waiter r w) (awake(tw_address w := True))"
proof -
  have "waiter_can_enter r v = Some True" if v: "v \<in> set (hr_waiters r)" "waiter_can_enter (append_waiter r w) v = Some True" for v
  proof -
    have "tw_address v \<noteq> tw_address w" using assms(2) v(1) by (metis image_eqI)
    with v have "map_option tw_address (best_waiter r) = Some (tw_address v)"
      by (auto simp: waiter_can_enter_def append_waiter_def best_waiter_def first_recursive_append split: if_splits option.splits list.splits)
    with v(2) show ?thesis by (auto simp: waiter_can_enter_def append_waiter_def split: if_splits)
  qed
  with assms show ?thesis by (auto simp: wakes_ok_def append_waiter_def)
qed


lemma arrive_stack:
  "stack_ok r kinds \<Longrightarrow> tw_address w \<notin> tw_address ` set (hr_waiters r) \<Longrightarrow> stack_ok (append_waiter r w) kinds"
  by (simp add: stack_ok_def append_waiter_def)

lemma leave_stack: "stack_ok r kinds \<Longrightarrow> stack_ok (wait_leave r w) kinds"
  by (simp add: stack_ok_def wait_leave_def remove_waiter_def unlink_waiter_distinct)

text \<open>Completing an event takes its frame, and with it its kind, out of the stack.\<close>

lemma complete_spec:
  assumes "stack_ok r kinds" and "find_call r e = Some i"
  shows "returns (complete_locked r e) (\<lambda>r'. stack_ok r' (if i = SIZE_MAX then kinds else take i kinds @ drop (i + 1) kinds))"
proof (cases "i = SIZE_MAX")
  case True
  with assms show ?thesis by (simp add: complete_locked_def)
next
  case False
  then have i: "i < hr_call_depth r" using find_call_spec [OF assms(1), of e] assms(2) by simp
  let ?d = "hr_call_depth r" and ?calls = "if i + 1 < hr_call_depth r
    then put_bytes (hr_calls r) i (get_bytes (hr_calls r) (i + 1) (hr_call_depth r - i - 1)) else hr_calls r"
  have s: "length (hr_calls r) = 64" "?d \<le> 64" "\<And>j. ?d \<le> j \<Longrightarrow> j < 64 \<Longrightarrow> hr_calls r ! j = zero_frame" "length kinds = ?d"
    "\<And>j. j < ?d \<Longrightarrow> 0 < j \<Longrightarrow> kinds ! j" using assms(1) by (auto simp: stack_ok_def)
  have len: "length ?calls = 64" using s(1,2) i by simp
  have "complete_locked r e = Some (r\<lparr>hr_calls := ?calls[?d - 1 := zero_frame], hr_call_depth := ?d - 1\<rparr>)"
    using False s(1,2) len i by (simp add: complete_locked_def assms(2) mem_simps)
  moreover have "?calls[?d - 1 := zero_frame] ! j = zero_frame" if "?d - 1 \<le> j" "j < 64" for j
  proof (cases "j = ?d - 1")
    case True
    then show ?thesis using len that by simp
  next
    case False
    then have "?d \<le> j" using that i by simp
    then show ?thesis using s(1-3) that i False by (simp add: nth_put_bytes)
  qed
  moreover have "(take i kinds @ drop (i + 1) kinds) ! j" if "j < ?d - 1" "0 < j" for j
    using that i s(4,5) by (cases "j < i") (simp_all add: nth_append)
  ultimately show ?thesis using False len s(2,4) i assms(1) by (simp add: stack_ok_def)
qed

lemma begin_pump_spec:
  assumes "stack_ok r kinds" and "wakes_ok r awake"
  shows "returns (hook_send_ref_begin_pump (Some r) e) (\<lambda>(ok, ref', events). \<exists>r'. ref' = Some r' \<and> stack_ok r' kinds \<and> wakes_ok r' (woken events awake))"
proof (cases "e = 0 \<or> \<not> hr_valid r \<or> hr_call_depth r = 0")
  case True
  with assms show ?thesis by (auto simp: hook_send_ref_begin_pump_def woken_def)
next
  case False
  with assms have "hr_call_depth r - 1 < length (hr_calls r)" by (auto simp: stack_ok_def)
  with False assms show ?thesis
    by (auto simp: hook_send_ref_begin_pump_def mem_simps woken_def stack_ok_def nth_list_update)
qed

lemma end_pump_spec:
  assumes "stack_ok r kinds" and "wakes_ok r awake"
  shows "returns (end_pump_begin (Some r) e) (\<lambda>(index, ref', events). \<exists>r'. ref' = Some r' \<and> stack_ok r' kinds \<and> wakes_ok r' (woken events awake))"
proof (cases "e = 0 \<or> \<not> hr_valid r")
  case True
  with assms show ?thesis by (auto simp: end_pump_begin_def woken_def)
next
  case False
  obtain i where i: "find_call r e = Some i" "i = SIZE_MAX \<or> i < hr_call_depth r"
    using find_call_spec [OF assms(1), of e] by (auto simp: returns_ex)
  show ?thesis
  proof (cases "i = SIZE_MAX")
    case True
    with False i assms show ?thesis by (simp add: end_pump_begin_def woken_def)
  next
    case nm: False
    with i have "i < hr_call_depth r" "i < length (hr_calls r)" using assms(1) by (auto simp: stack_ok_def)
    with nm False i(1) assms show ?thesis
      by (auto simp: end_pump_begin_def mem_simps woken_def stack_ok_def nth_list_update)
  qed
qed

lemma turn_inv_step:
  assumes "turn_step t t'" and "stack_ok (ts_ref t) (ts_kinds t)" and "wakes_ok (ts_ref t) (ts_awake t)"
  shows "stack_ok (ts_ref t') (ts_kinds t') \<and> wakes_ok (ts_ref t') (ts_awake t')"
  using assms(1)
proof cases
  case (arrive w e)
  then show ?thesis using assms arrive_wakes by (simp add: arrive_stack)
next
  case (enter w r)
  from wait_check_spec [OF assms(2), of w "ts_event t (tw_address w)"] enter(4)
  have c: "hr_valid (ts_ref t)" "waiter_can_enter (ts_ref t) w = Some True" "hr_call_depth (ts_ref t) < 64"
    and r: "r = (remove_waiter (ts_ref t) w)\<lparr>hr_calls := (hr_calls (ts_ref t))[hr_call_depth (ts_ref t) := zero_frame\<lparr>cf_event_id := ts_event t (tw_address w)\<rparr>],
      hr_call_depth := hr_call_depth (ts_ref t) + 1\<rparr>" by auto
  have "hr_valid r" using c by (simp add: r remove_waiter_def)
  with enter_stack [OF assms(2) c(2,3) r] enter show ?thesis by auto
next
  case (sleep w r)
  from wait_check_spec [OF assms(2), of w "ts_event t (tw_address w)"] sleep(4)
  have "hr_valid (ts_ref t)" "waiter_can_enter (ts_ref t) w = Some False" "r = ts_ref t" by auto
  moreover have "waiter_can_enter (ts_ref t) v \<noteq> Some True" if "tw_address v = tw_address w" "v \<in> set (hr_waiters (ts_ref t))" for v
  proof -
    have "v = w" using that sleep(2) assms(2) by (auto simp: stack_ok_def distinct_map inj_on_def)
    then show ?thesis using \<open>waiter_can_enter (ts_ref t) w = Some False\<close> by simp
  qed
  ultimately show ?thesis using sleep assms by (auto simp: wakes_ok_def)
next
  case (spurious a)
  with assms show ?thesis by (auto simp: wakes_ok_def)
next
  case (leave w)
  with assms show ?thesis by (simp add: leave_stack woken_def)
next
  case (complete e r events i)
  then obtain r0 where "complete_locked (ts_ref t) e = Some r0" "r = r0" "events = [Broadcast]"
    by (auto simp: hook_send_ref_complete_event_def split: bind_splits)
  with complete complete_spec [OF assms(2) complete(4)] show ?thesis by (simp add: woken_def)
next
  case (begin_pump e ok r events)
  with begin_pump_spec [OF assms(2,3), of e] assms show ?thesis by simp
next
  case (end_pump e index r events)
  with end_pump_spec [OF assms(2,3), of e] assms show ?thesis by simp
next
  case end_pump_returns
  with assms show ?thesis by (simp add: woken_def)
next
  case (invalidate r events)
  with assms show ?thesis
    by (auto simp: hook_send_ref_invalidate_def woken_def stack_ok_def split: if_splits)
qed


lemma turn_inv_reachable:
  assumes "turn_step\<^sup>*\<^sup>* t0 t" and "ts_ref t0 = new_ref fd" and "ts_kinds t0 = []"
  shows "stack_ok (ts_ref t) (ts_kinds t) \<and> wakes_ok (ts_ref t) (ts_awake t)"
  using assms(1)
proof (induction rule: rtranclp_induct)
  case base
  then show ?case using assms by (auto simp: stack_ok_def wakes_ok_def new_ref_def)
next
  case (step t t')
  then show ?case using turn_inv_step by blast
qed

text \<open>
  C6. However the hook callbacks of a client arrive, wait, nest and end, its call stack is a proper
  serialisation: at most 64 calls are open, an ordinary callback is only ever at the bottom (all
  calls above it entered as recursive ones), and every operation stays inside the array of calls. A
  waiter enters only when it is first in line (the first recursive one, or the first of all when none
  is recursive), and either no call is open or the top call is pumping; it starts without pumping.
\<close>

theorem turns_serialised:
  assumes "turn_step\<^sup>*\<^sup>* t0 t" and "ts_ref t0 = new_ref fd" and "ts_kinds t0 = []"
  shows "hr_call_depth (ts_ref t) \<le> 64 \<and> length (ts_kinds t) = hr_call_depth (ts_ref t)
    \<and> (\<forall>i < hr_call_depth (ts_ref t). 0 < i \<longrightarrow> ts_kinds t ! i)
    \<and> complete_locked (ts_ref t) e \<noteq> None \<and> hook_send_ref_begin_pump (Some (ts_ref t)) e \<noteq> None \<and> end_pump_begin (Some (ts_ref t)) e \<noteq> None
    \<and> (\<exists>verdict r. wait_check (ts_ref t) w e = Some (verdict, r) \<and> (verdict = Enter \<longrightarrow>
        map_option tw_address (best_waiter (ts_ref t)) = Some (tw_address w)
        \<and> (hr_call_depth (ts_ref t) = 0 \<or> tw_recursive w \<and> cf_pumping (hr_calls (ts_ref t) ! (hr_call_depth (ts_ref t) - 1)))
        \<and> hr_call_depth r = hr_call_depth (ts_ref t) + 1 \<and> hr_calls r ! hr_call_depth (ts_ref t) = \<lparr>cf_event_id = e, cf_pumping = False\<rparr>))"
proof -
  let ?r = "ts_ref t"
  from turn_inv_reachable [OF assms] have s: "stack_ok ?r (ts_kinds t)" and k: "wakes_ok ?r (ts_awake t)" by auto
  obtain i where "find_call ?r e = Some i" using find_call_spec [OF s, of e] by (auto simp: returns_ex)
  from complete_spec [OF s this] have c: "complete_locked ?r e \<noteq> None" by (auto simp: returns_ex)
  have p: "hook_send_ref_begin_pump (Some ?r) e \<noteq> None" "end_pump_begin (Some ?r) e \<noteq> None"
    using begin_pump_spec [OF s k, of e] end_pump_spec [OF s k, of e] by (auto simp: returns_ex)
  obtain verdict r where v: "wait_check ?r w e = Some (verdict, r)" using wait_check_spec [OF s, of w e] by (auto simp: returns_ex)
  have "verdict = Enter \<longrightarrow> map_option tw_address (best_waiter ?r) = Some (tw_address w)
        \<and> (hr_call_depth ?r = 0 \<or> tw_recursive w \<and> cf_pumping (hr_calls ?r ! (hr_call_depth ?r - 1)))
        \<and> hr_call_depth r = hr_call_depth ?r + 1 \<and> hr_calls r ! hr_call_depth ?r = \<lparr>cf_event_id = e, cf_pumping = False\<rparr>"
  proof
    assume "verdict = Enter"
    with wait_check_spec [OF s, of w e] v have can: "waiter_can_enter ?r w = Some True" and d: "hr_call_depth ?r < 64"
      and r: "r = (remove_waiter ?r w)\<lparr>hr_calls := (hr_calls ?r)[hr_call_depth ?r := zero_frame\<lparr>cf_event_id := e\<rparr>], hr_call_depth := hr_call_depth ?r + 1\<rparr>"
      by auto
    have "length (hr_calls ?r) = 64" using s by (simp add: stack_ok_def)
    with can d show "map_option tw_address (best_waiter ?r) = Some (tw_address w)
        \<and> (hr_call_depth ?r = 0 \<or> tw_recursive w \<and> cf_pumping (hr_calls ?r ! (hr_call_depth ?r - 1)))
        \<and> hr_call_depth r = hr_call_depth ?r + 1 \<and> hr_calls r ! hr_call_depth ?r = \<lparr>cf_event_id = e, cf_pumping = False\<rparr>"
      by (auto simp: waiter_can_enter_def r mem_simps zero_frame_def split: if_splits)
  qed
  with s c p v show ?thesis by (auto simp: stack_ok_def)
qed

definition example_turns :: turn_system where
  "example_turns = \<lparr>ts_ref = new_ref 4, ts_event = \<lambda>_. 0, ts_awake = \<lambda>_. False, ts_kinds = []\<rparr>"

lemma example_arrives:
  "turn_step\<^sup>*\<^sup>* example_turns (example_turns\<lparr>ts_ref := append_waiter (new_ref 4) \<lparr>tw_address = 1, tw_recursive = False\<rparr>,
     ts_event := (\<lambda>_. 0)(1 := 5), ts_awake := (\<lambda>_. False)(1 := True)\<rparr>)"
  using turn_step.arrive [of "\<lparr>tw_address = 1, tw_recursive = False\<rparr>" example_turns 5]
  by (simp add: example_turns_def new_ref_def r_into_rtranclp)

theorem turns_serialised_witness:
  "\<exists>t. turn_step\<^sup>*\<^sup>* example_turns t \<and> hr_waiters (ts_ref t) = [\<lparr>tw_address = 1, tw_recursive = False\<rparr>] \<and> hr_call_depth (ts_ref t) \<le> 64
     \<and> complete_locked (ts_ref t) 5 \<noteq> None"
  using turns_serialised [OF example_arrives, of 4] example_arrives
  by (intro exI [of _ "example_turns\<lparr>ts_ref := append_waiter (new_ref 4) \<lparr>tw_address = 1, tw_recursive = False\<rparr>,
     ts_event := (\<lambda>_. 0)(1 := 5), ts_awake := (\<lambda>_. False)(1 := True)\<rparr>"]) (auto simp: example_turns_def append_waiter_def new_ref_def)




section \<open>Sending without waiting\<close>




end
