(* ===== verification/Spec2Isabelle.thy ===== *)
theory Spec2Isabelle
  imports Synthetic_Hooks Pipe_Ring Worker_Pool Device_Codec Synth_Holds Active_Session Owned_Text_File Connection_Ref
begin

text \<open>
  A verification library for keysharp-input, a daemon that watches and grabs the input devices of a
  Linux seat, lets its clients hook and synthesise keyboard and mouse input, and forwards what they do
  not suppress to virtual devices.

  \<^bold>\<open>The program.\<close> Clients connect over a Unix socket (src/src/ipc_unix.c) and exchange frames
  whose layout is fixed in src/src/internal/protocol.h and protocol_contract.h; payloads are
  encoded and decoded by src/src/protocol_codec.c and device_codec.h. Every connection has a
  reference-counted handle (src/src/connection_ref.c), which serialises its sends and the turns in which
  its hook callbacks run. The threads of the daemon hand work to each other through rings with
  a wake pipe (src/src/pipe_ring.c, wake_pipe.c) and run slow work on a pool (src/src/worker_pool.c). Input
  that clients synthesise is expanded into primitives (src/src/synthetic_hooks.c) and translated between
  virtual keys and kernel codes (src/src/platform/vk_evdev.c). Physical input that is not suppressed is
  written to clones or to one shared virtual keyboard, the sink, by src/src/platform/linux_forward.c, on
  top of the key bitmaps, filters and paced writes of linux_key_bits.h, linux_wheel.h,
  linux_device_filter.h and linux_output.c. Who holds a synthesised key is kept by src/src/platform/linux_synth.c.
  src/src/active_session.c tells whose session is active, and src/src/owned_text_file.c writes a
  configuration file that only its owner can replace.

  \<^bold>\<open>The theories.\<close> Definitions carry the names of the C functions and types they model.

  \<^item> \<open>Prelude\<close>: C integers as words, \<open>size_t\<close> as naturals with the wrap-around written out, pointers
    as options, buffers with checked access (a computation in \<open>'a mem\<close> is \<open>None\<close> exactly when it leaves a
    buffer), little-endian words. \<open>Program_Logic\<close>: specifications \<open>returns m P\<close> (\<open>m\<close> stays in
    bounds and its result satisfies \<open>P\<close>), rules for loops, and the loop over the set bits of a word.
  \<^item> \<open>Constants\<close>, \<open>Wire\<close>, \<open>Codec\<close>: the frame header and all payloads. Encoders and decoders
    are inverse to each other, decoders read only what was announced, and the frame check accepts
    exactly the documented headers.
  \<^item> \<open>Device_Codec\<close>: device descriptions and gamepad readings; round trips, and what is accepted is
    well formed, with the one exception recorded by \<open>button_order_unchecked_after_descent\<close>.
  \<^item> \<open>Synthetic_Hooks\<close>: expansion of inputs into primitives, its bounds and its meaning.
  \<^item> \<open>Ring\<close>: the interface of a bounded queue as a locale, with the refinement to a list proved
    once; \<open>Pipe_Ring\<close> and \<open>Worker_Pool\<close> interpret it. \<open>Wake_Pipe\<close> models descriptors and pipes.
    \<open>Pipe_Ring\<close> interleaves producers with the consumer that polls (a wake-up is never lost);
    \<open>Worker_Pool\<close> interleaves owner and workers (jobs run once, no worker oversleeps).
  \<^item> \<open>Ipc\<close>: the transport. A socket is the bytes written to it and whether it was shut down; a
    stream is handed over in chunks the system chooses. Frames arrive whole, a torn frame is always the
    end of its connection, a sender waits no longer than its budget, and opening the server
    gives back what it took (two exceptions are stated in the theorems).
  \<^item> \<open>Connection_Ref\<close>: lifetime of the handles, non-blocking sends, and the turns of hook callbacks,
    with one step relation for the reference counts and one for the turns.
  \<^item> \<open>Active_Session\<close>, \<open>Vk_Evdev\<close>, \<open>Linux_Keys\<close>: session gate, key table, key bitmaps, wheel
    steps, button names, paced output.
  \<^item> \<open>Owned_Text_File\<close> (error numbers in \<open>Errno\<close>): an explicit file system of names, inodes and
    descriptors whose kernel may refuse or interrupt any call. The walk over the parent directories
    ends and accepts only a protected chain; success means the exact file; nothing else is touched.
  \<^item> \<open>Linux_Forward\<close>: every function of linux_forward.c over one record of its static variables, with
    the log of what was written to each output. \<open>Forward_Laws\<close> specifies the internal operations,
    \<open>Forward_Inv\<close> proves the invariant of the operations on key state, grabs, closing and sink: tables well formed, the
    sink's bitmap equal to what the desktop saw, and no key down that nobody wants.
  \<^item> \<open>Synth_Holds\<close>: the claims of the owners of synthesised keys in linux_synth.c. The table is
    abstracted to the set of owner and key pairs; presses, releases, releases by filter and sweeps of
    ended sources are set operations on it, the holder counts and the bitmap follow exactly, and
    \<open>synth_reach\<close> closes them under any order, over the forwarding table.

  \<^bold>\<open>Environment.\<close> Answers of system calls, of the clock, of allocation and of libraries are
  parameters or part of the state, so the theorems hold for every answer. Code that holds a mutex
  is one step; step relations interleave such steps of different threads, with spurious and timed
  wake-ups. A call that never returns is the value \<open>Waiting\<close>.

  \<^bold>\<open>Termination and bounds.\<close> No model uses fuel. Loops are structural recursion over the list of
  indices they visit or of the answers they get; the loop over set bits and the walk over the parent
  directories have termination proofs. The two loops of owned_text_file.c that retry on \<open>EINTR\<close> are
  partial functions, shown to return whenever interruptions stop.
  Counters keep their width (the reference count has 32 bits, epochs and deadlines wrap as in C).

  \<^bold>\<open>Not modelled.\<close> The device manager (linux_devices.c), which mostly drives libevdev and libudev; the
  device side of the synthesis engine (creating and writing uinput devices, unicode entry, the
  conversion to hook events, the admission of batches); the daemon's event loop and its included
  units; the client library; permission prompts; the command line. Messages printed to
  \<open>stderr\<close> are left out. For opening and collecting forwarded devices, synchronising switches and writing
  packets the models are given, their preservation of the invariant is not proved.
\<close>

end
